(* ===== verification/Np_Prelude.thy ===== *)
theory Np_Prelude
  imports Main "HOL-Library.Word" "HOL-Library.Multiset"
begin

text \<open>
  Shared vocabulary of the development: the machine integers of the C sources as words, the
  in-memory byte order of a 32-bit value, and generic facts on lists, words and orders that
  several components use.

  The C code reads the bytes of \<^verbatim>\<open>uint32_t\<close> arrays through \<^verbatim>\<open>memcpy\<close> and pointer casts.
  The model fixes the little-endian layout of the platforms the library is built for
  (x86-64, AArch64); \<open>u32_bytes\<close> is the only place where this choice appears.
\<close>

unbundle bit_operations_syntax

section \<open>Machine integers\<close>

type_synonym u8 = "8 word"
type_synonym u16 = "16 word"
type_synonym u32 = "32 word"
type_synonym u64 = "64 word"

named_theorems np_simps \<open>rewrite rules the component proofs share\<close>

definition u32_bytes :: "u32 \<Rightarrow> u8 list" where
  "u32_bytes w = [ucast w, ucast (drop_bit 8 w), ucast (drop_bit 16 w), ucast (drop_bit 24 w)]"

definition bytes_u32 :: "u8 list \<Rightarrow> u32" where
  "bytes_u32 bs =
     ucast (bs ! 0) OR push_bit 8 (ucast (bs ! 1)) OR push_bit 16 (ucast (bs ! 2))
       OR push_bit 24 (ucast (bs ! 3))"

lemma length_u32_bytes [simp]: "length (u32_bytes w) = 4"
  by (simp add: u32_bytes_def)

lemma bytes_u32_u32_bytes [simp]: "bytes_u32 (u32_bytes w) = w"
proof (rule bit_word_eqI)
  fix n assume "n < LENGTH(32)"
  then have "n < 32" by simp
  then consider "n < 8" | "8 \<le> n" "n < 16" | "16 \<le> n" "n < 24" | "24 \<le> n" "n < 32"
    by linarith
  then show "bit (bytes_u32 (u32_bytes w)) n = bit w n"
    by cases
       (auto simp: bytes_u32_def u32_bytes_def bit_or_iff bit_push_bit_iff bit_ucast_iff
          bit_drop_bit_eq numeral_3_eq_3 numeral_2_eq_2 simp del: push_bit_numeral)
qed

lemma u32_bytes_inject [simp]: "u32_bytes v = u32_bytes w \<longleftrightarrow> v = w"
  by (metis bytes_u32_u32_bytes)

section \<open>Half bytes\<close>

definition hi_nibble :: "u8 \<Rightarrow> u8" where
  "hi_nibble b = drop_bit 4 b"

definition lo_nibble :: "u8 \<Rightarrow> u8" where
  "lo_nibble b = b AND 0x0f"

lemma and_f0_eq: "b AND 0xf0 = push_bit 4 (hi_nibble b)"
proof -
  have "(0xf0 :: u8) = NOT (mask 4)" by (simp add: mask_eq_exp_minus_1)
  then show ?thesis by (auto simp: hi_nibble_def bit_eq_iff bit_simps)
qed

lemma drop_push_hi_nibble: "drop_bit 4 (push_bit 4 (hi_nibble b)) = hi_nibble b"
  by (auto simp: hi_nibble_def bit_eq_iff bit_simps dest: bit_imp_le_length)

lemma hi_nibble_mask: "a AND 0xf0 = b AND 0xf0 \<longleftrightarrow> hi_nibble a = hi_nibble b"
  unfolding and_f0_eq by (metis drop_push_hi_nibble)

lemma nibbles_inject: "hi_nibble a = hi_nibble b \<Longrightarrow> lo_nibble a = lo_nibble b \<Longrightarrow> a = b"
proof -
  have split: "x = push_bit 4 (hi_nibble x) OR lo_nibble x" for x
  proof -
    have "(0x0f :: u8) = mask 4" by (simp add: mask_eq_exp_minus_1)
    then show ?thesis by (auto simp: hi_nibble_def lo_nibble_def bit_eq_iff bit_simps)
  qed
  assume "hi_nibble a = hi_nibble b" "lo_nibble a = lo_nibble b"
  then show "a = b" using split [of a] split [of b] by simp
qed

lemma hi_nibble_and_0f [simp]: "hi_nibble b AND 0x0f = hi_nibble b"
proof -
  have "(0x0f :: u8) = mask 4" by (simp add: mask_eq_exp_minus_1)
  then show ?thesis
    by (auto simp: hi_nibble_def bit_eq_iff bit_simps dest: bit_imp_le_length)
qed

lemma nibble_less_16: "unat (hi_nibble b) < 16" "unat (lo_nibble b) < 16"
proof -
  have le: "unat (x AND 0x0f) < 16" for x :: u8
  proof -
    have "unat (x AND 0x0f) \<le> unat (0x0f :: u8)"
      by (rule word_and_le1 [THEN word_le_nat_alt [THEN iffD1]])
    then show ?thesis by simp
  qed
  show "unat (lo_nibble b) < 16" by (simp add: lo_nibble_def le)
  show "unat (hi_nibble b) < 16" using le [of "hi_nibble b"] by simp
qed

section \<open>Lists\<close>

lemma length_concat_map_const:
  "(\<And>x. x \<in> set xs \<Longrightarrow> length (f x) = n) \<Longrightarrow> length (concat (map f xs)) = n * length xs"
  by (induction xs) auto

lemma nth_concat_map_const:
  assumes "\<And>x. length (f x) = n" "i < n * length xs"
  shows "concat (map f xs) ! i = f (xs ! (i div n)) ! (i mod n)"
  using assms(2)
proof (induction xs arbitrary: i)
  case Nil
  then show ?case by simp
next
  case (Cons x xs)
  from Cons.prems have n: "0 < n" by (cases n) auto
  show ?case
  proof (cases "i < n")
    case True
    then show ?thesis by (simp add: assms(1) nth_append)
  next
    case False
    with Cons.prems have "i - n < n * length xs" by simp
    with Cons.IH have "concat (map f xs) ! (i - n) = f (xs ! ((i - n) div n)) ! ((i - n) mod n)"
      by blast
    moreover from False n have "i div n = Suc ((i - n) div n)" "(i - n) mod n = i mod n"
      by (simp_all add: le_div_geq le_mod_geq)
    ultimately show ?thesis using False by (simp add: assms(1) nth_append)
  qed
qed

fun lcp :: "'a list \<Rightarrow> 'a list \<Rightarrow> nat" where
  "lcp (x # xs) (y # ys) = (if x = y then Suc (lcp xs ys) else 0)"
| "lcp _ _ = 0"

lemma lcp_le: "lcp xs ys \<le> length xs" "lcp xs ys \<le> length ys"
  by (induction xs ys rule: lcp.induct) auto

lemma lcp_sym: "lcp xs ys = lcp ys xs"
  by (induction xs ys rule: lcp.induct) auto

lemma lcp_same: "i < lcp xs ys \<Longrightarrow> xs ! i = ys ! i"
  by (induction xs ys arbitrary: i rule: lcp.induct) (auto simp: nth_Cons split: nat.splits if_splits)

lemma lcp_differ:
  "lcp xs ys < length xs \<Longrightarrow> lcp xs ys < length ys \<Longrightarrow> xs ! lcp xs ys \<noteq> ys ! lcp xs ys"
  by (induction xs ys rule: lcp.induct) auto

lemma lcp_full: "length xs = length ys \<Longrightarrow> lcp xs ys = length xs \<longleftrightarrow> xs = ys"
  by (induction xs ys rule: lcp.induct) auto

lemma lcp_ge_take: "length xs = length ys \<Longrightarrow> n \<le> length xs \<Longrightarrow> n \<le> lcp xs ys \<longleftrightarrow> take n xs = take n ys"
  by (induction xs ys arbitrary: n rule: lcp.induct) (auto simp: take_Cons split: nat.splits)

end
