(* ===== verification/Np_Dhkey.thy ===== *)
theory Np_Dhkey
  imports Np_Prelude
begin

text \<open>
  The 256-bit hash keys of the distributed hash table: \<^verbatim>\<open>src/np_dhkey.c\<close> and
  \<^verbatim>\<open>include/np_dhkey.h\<close>. A key is the eight \<^verbatim>\<open>uint32_t\<close> of \<^verbatim>\<open>struct np_dhkey_s\<close>; the
  functions are translated one by one, loops over the array as recursion over the list of its
  words, pointer arguments that may be \<^verbatim>\<open>NULL\<close> as options.

  The reference notions are the numerical value of a key (\<open>dhkey_val\<close>, most significant word
  first), the ring \<open>0 .. 2 ^ 256 - 1\<close>, and the string of its 64 half bytes (\<open>dhkey_nibbles\<close>).
\<close>

section \<open>The key type\<close>

datatype np_dhkey = Dhkey (t0: u32) (t1: u32) (t2: u32) (t3: u32) (t4: u32) (t5: u32) (t6: u32) (t7: u32)

definition dhkey_t :: "np_dhkey \<Rightarrow> u32 list" where
  "dhkey_t k = [t0 k, t1 k, t2 k, t3 k, t4 k, t5 k, t6 k, t7 k]"

definition dhkey_of_t :: "u32 list \<Rightarrow> np_dhkey" where
  "dhkey_of_t ws = Dhkey (ws ! 0) (ws ! 1) (ws ! 2) (ws ! 3) (ws ! 4) (ws ! 5) (ws ! 6) (ws ! 7)"

definition dhkey_zero :: np_dhkey where
  "dhkey_zero = Dhkey 0 0 0 0 0 0 0 0"

text \<open>The 32 bytes of the struct in memory, and the key that \<^verbatim>\<open>memcpy\<close> reads from 32 bytes.\<close>

definition dhkey_bytes :: "np_dhkey \<Rightarrow> u8 list" where
  "dhkey_bytes k = concat (map u32_bytes (dhkey_t k))"

definition dhkey_of_bytes :: "u8 list \<Rightarrow> np_dhkey" where
  "dhkey_of_bytes bs =
     Dhkey (bytes_u32 (take 4 bs)) (bytes_u32 (take 4 (drop 4 bs)))
       (bytes_u32 (take 4 (drop 8 bs))) (bytes_u32 (take 4 (drop 12 bs)))
       (bytes_u32 (take 4 (drop 16 bs))) (bytes_u32 (take 4 (drop 20 bs)))
       (bytes_u32 (take 4 (drop 24 bs))) (bytes_u32 (take 4 (drop 28 bs)))"

section \<open>Construction from hashes and strings\<close>

text \<open>
  \<open>blake2b\<close> stands for libsodium's \<^verbatim>\<open>crypto_generichash_blake2b\<close> with 32 bytes of output,
  \<open>hex2bin\<close> for \<^verbatim>\<open>sodium_hex2bin\<close> (\<open>None\<close> for a non-zero return code) and \<open>bin2hex\<close> for
  \<^verbatim>\<open>sodium_bin2hex\<close>. An assertion that fails makes the result \<open>None\<close>.
\<close>

definition np_dhkey_generate_hash :: "(u8 list \<Rightarrow> u8 list) \<Rightarrow> u8 list \<Rightarrow> np_dhkey" where
  "np_dhkey_generate_hash blake2b data = dhkey_of_bytes (blake2b data)"

definition isxdigit :: "char \<Rightarrow> bool" where
  "isxdigit c \<longleftrightarrow> c \<in> set ''0123456789abcdefABCDEF''"

fun all_xdigit :: "char list \<Rightarrow> bool" where
  "all_xdigit [] = True"
| "all_xdigit (c # cs) = (if \<not> isxdigit c then False else all_xdigit cs)"

definition np_str_id :: "(string \<Rightarrow> u8 list option) \<Rightarrow> string \<Rightarrow> u8 list option" where
  "np_str_id hex2bin str = hex2bin (take 64 str)"

definition np_dhkey_create_from_hash :: "(string \<Rightarrow> u8 list option) \<Rightarrow> string \<Rightarrow> np_dhkey option" where
  "np_dhkey_create_from_hash hex2bin str =
     (if min (length str) 64 \<noteq> 64 then Some dhkey_zero
      else if \<not> all_xdigit (take 64 str) then Some dhkey_zero
      else map_option dhkey_of_bytes (np_str_id hex2bin str))"

definition np_dhkey_create_from_hostport :: "(u8 list \<Rightarrow> u8 list) \<Rightarrow> string \<Rightarrow> string \<Rightarrow> np_dhkey" where
  "np_dhkey_create_from_hostport blake2b str port =
     (let name = take 254 (str @ '':'' @ port)
      in np_dhkey_generate_hash blake2b (map (of_nat \<circ> of_char) name))"

definition np_dhkey_str :: "(u8 list \<Rightarrow> string) \<Rightarrow> np_dhkey \<Rightarrow> string" where
  "np_dhkey_str bin2hex k = bin2hex (dhkey_bytes k)"

definition np_str_dhkey :: "(string \<Rightarrow> u8 list option) \<Rightarrow> string \<Rightarrow> np_dhkey option" where
  "np_str_dhkey hex2bin s = map_option dhkey_of_bytes (np_str_id hex2bin s)"

section \<open>Comparison and word-wise arithmetic\<close>

definition np_dhkey_assign :: "np_dhkey \<Rightarrow> np_dhkey" where
  "np_dhkey_assign k2 = dhkey_of_t (map (\<lambda>i. dhkey_t k2 ! i) [0..<8])"

fun dhkey_equal_loop :: "u32 list \<Rightarrow> u32 list \<Rightarrow> bool" where
  "dhkey_equal_loop (a # as) (b # bs) = (if a \<noteq> b then False else dhkey_equal_loop as bs)"
| "dhkey_equal_loop _ _ = True"

definition np_dhkey_equal :: "np_dhkey \<Rightarrow> np_dhkey \<Rightarrow> bool" where
  "np_dhkey_equal k1 k2 = dhkey_equal_loop (dhkey_t k1) (dhkey_t k2)"

fun dhkey_cmp_loop :: "u32 list \<Rightarrow> u32 list \<Rightarrow> int" where
  "dhkey_cmp_loop (a # as) (b # bs) =
     (if a > b then 1 else if a < b then - 1 else dhkey_cmp_loop as bs)"
| "dhkey_cmp_loop _ _ = 0"

definition np_dhkey_cmp_ptr :: "np_dhkey option \<Rightarrow> np_dhkey option \<Rightarrow> int" where
  "np_dhkey_cmp_ptr p1 p2 =
     (case p1 of None \<Rightarrow> - 1
      | Some k1 \<Rightarrow> (case p2 of None \<Rightarrow> 1
          | Some k2 \<Rightarrow> dhkey_cmp_loop (dhkey_t k1) (dhkey_t k2)))"

abbreviation np_dhkey_cmp :: "np_dhkey \<Rightarrow> np_dhkey \<Rightarrow> int" where
  "np_dhkey_cmp k1 k2 \<equiv> np_dhkey_cmp_ptr (Some k1) (Some k2)"

definition np_dhkey_add :: "np_dhkey \<Rightarrow> np_dhkey \<Rightarrow> np_dhkey" where
  "np_dhkey_add x y =
     Dhkey (t0 x + t0 y) (t1 x + t1 y) (t2 x + t2 y) (t3 x + t3 y)
       (t4 x + t4 y) (t5 x + t5 y) (t6 x + t6 y) (t7 x + t7 y)"

definition np_dhkey_sub :: "np_dhkey \<Rightarrow> np_dhkey \<Rightarrow> np_dhkey" where
  "np_dhkey_sub x y = dhkey_of_t (map2 (-) (dhkey_t x) (dhkey_t y))"

definition np_dhkey_and :: "np_dhkey \<Rightarrow> np_dhkey \<Rightarrow> np_dhkey" where
  "np_dhkey_and x y =
     Dhkey (t0 x AND t0 y) (t1 x AND t1 y) (t2 x AND t2 y) (t3 x AND t3 y)
       (t4 x AND t4 y) (t5 x AND t5 y) (t6 x AND t6 y) (t7 x AND t7 y)"

definition np_dhkey_or :: "np_dhkey \<Rightarrow> np_dhkey \<Rightarrow> np_dhkey" where
  "np_dhkey_or x y =
     Dhkey (t0 x OR t0 y) (t1 x OR t1 y) (t2 x OR t2 y) (t3 x OR t3 y)
       (t4 x OR t4 y) (t5 x OR t5 y) (t6 x OR t6 y) (t7 x OR t7 y)"

definition np_dhkey_xor :: "np_dhkey \<Rightarrow> np_dhkey \<Rightarrow> np_dhkey" where
  "np_dhkey_xor x y =
     Dhkey (t0 x XOR t0 y) (t1 x XOR t1 y) (t2 x XOR t2 y) (t3 x XOR t3 y)
       (t4 x XOR t4 y) (t5 x XOR t5 y) (t6 x XOR t6 y) (t7 x XOR t7 y)"

text \<open>
  \<^verbatim>\<open>_np_dhkey_init\<close> fills three static variables once; the getters return them. The model has the
  values after initialisation as constants.
\<close>

definition np_dhkey_init :: "np_dhkey \<times> np_dhkey \<times> np_dhkey" where
  "np_dhkey_init =
     (let half = drop_bit 1 (- 1 :: u32) + 1
      in (dhkey_of_t (replicate 8 0), dhkey_of_t (replicate 8 half), dhkey_of_t (replicate 8 (- 1))))"

definition np_dhkey_min :: np_dhkey where
  "np_dhkey_min = fst np_dhkey_init"

definition np_dhkey_half :: np_dhkey where
  "np_dhkey_half = fst (snd np_dhkey_init)"

definition np_dhkey_max :: np_dhkey where
  "np_dhkey_max = snd (snd np_dhkey_init)"

section \<open>Distances and the ring\<close>

definition np_dhkey_distance :: "np_dhkey \<Rightarrow> np_dhkey \<Rightarrow> np_dhkey" where
  "np_dhkey_distance k1 k2 =
     (let cmp = np_dhkey_cmp k1 k2;
          diff = (if cmp > 0 then np_dhkey_sub k1 k2 else np_dhkey_sub k2 k1)
      in if np_dhkey_cmp np_dhkey_half diff < 0 then np_dhkey_sub np_dhkey_max diff else diff)"

text \<open>\<^verbatim>\<open>__builtin_popcount\<close> of the compiler.\<close>

definition popcount :: "u32 \<Rightarrow> nat" where
  "popcount w = length (filter (bit w) [0..<32])"

text \<open>The accumulator is the \<^verbatim>\<open>uint8_t\<close> that \<^verbatim>\<open>diff\<close> points to.\<close>

definition np_dhkey_hamming_distance :: "np_dhkey \<Rightarrow> np_dhkey \<Rightarrow> u8" where
  "np_dhkey_hamming_distance x y =
     (0 :: u8) + of_nat (popcount (t0 x XOR t0 y)) + of_nat (popcount (t1 x XOR t1 y))
       + of_nat (popcount (t2 x XOR t2 y)) + of_nat (popcount (t3 x XOR t3 y))
       + of_nat (popcount (t4 x XOR t4 y)) + of_nat (popcount (t5 x XOR t5 y))
       + of_nat (popcount (t6 x XOR t6 y)) + of_nat (popcount (t7 x XOR t7 y))"

definition np_dhkey_hamming_distance_each :: "np_dhkey \<Rightarrow> np_dhkey \<Rightarrow> np_dhkey" where
  "np_dhkey_hamming_distance_each x y =
     Dhkey (of_nat (popcount (t0 x XOR t0 y))) (of_nat (popcount (t1 x XOR t1 y)))
       (of_nat (popcount (t2 x XOR t2 y))) (of_nat (popcount (t3 x XOR t3 y)))
       (of_nat (popcount (t4 x XOR t4 y))) (of_nat (popcount (t5 x XOR t5 y)))
       (of_nat (popcount (t6 x XOR t6 y))) (of_nat (popcount (t7 x XOR t7 y)))"

definition np_dhkey_between :: "np_dhkey \<Rightarrow> np_dhkey \<Rightarrow> np_dhkey \<Rightarrow> bool \<Rightarrow> bool" where
  "np_dhkey_between test left right includeBounds =
     (let comp_lt = np_dhkey_cmp left test;
          comp_tr = np_dhkey_cmp test right;
          comp_lr = np_dhkey_cmp left right
      in if comp_lt = 0 \<or> comp_tr = 0 then includeBounds
         else if comp_lr < 0 then comp_lt < 0 \<and> comp_tr < 0
         else comp_lt < 0 \<or> comp_tr < 0)"

definition np_dhkey_midpoint :: "np_dhkey \<Rightarrow> np_dhkey" where
  "np_dhkey_midpoint key =
     (if np_dhkey_cmp key np_dhkey_half < 0 then np_dhkey_add key np_dhkey_half
      else np_dhkey_sub key np_dhkey_half)"

section \<open>Prefix index and digits\<close>

fun dhkey_index_loop :: "u8 list \<Rightarrow> u8 list \<Rightarrow> nat \<Rightarrow> nat" where
  "dhkey_index_loop (a # as) (b # bs) ret =
     (if a AND 0xf0 \<noteq> b AND 0xf0 then ret
      else if a AND 0x0f \<noteq> b AND 0x0f then ret + 1
      else dhkey_index_loop as bs (ret + 2))"
| "dhkey_index_loop _ _ ret = ret"

definition np_dhkey_index :: "np_dhkey \<Rightarrow> np_dhkey \<Rightarrow> nat" where
  "np_dhkey_index a b = dhkey_index_loop (dhkey_bytes a) (dhkey_bytes b) 0"

text \<open>
  \<^verbatim>\<open>index_of_key\<close> is an \<^verbatim>\<open>int8_t\<close>; outside \<open>0 .. 63\<close> the C code reads past the array (for 64 and
  more) or past \<^verbatim>\<open>element\<close> (for negative values), which is \<open>None\<close>.
\<close>

definition np_dhkey_hexalpha_at :: "np_dhkey \<Rightarrow> int \<Rightarrow> u8 option" where
  "np_dhkey_hexalpha_at key index_of_key =
     (if 0 \<le> index_of_key \<and> index_of_key < 64 then
        (let tuple = nat index_of_key div 8;
             tuple_rest = nat index_of_key mod 8;
             answer = u32_bytes (dhkey_t key ! tuple) ! (tuple_rest div 2);
             answer = (if tuple_rest mod 2 = 0 then drop_bit 4 answer else answer)
         in Some (answer AND 0x0f))
      else None)"

section \<open>The value of a key and the order\<close>

fun words_val :: "u32 list \<Rightarrow> nat" where
  "words_val [] = 0"
| "words_val (w # ws) = unat w * 2 ^ (32 * length ws) + words_val ws"

definition dhkey_val :: "np_dhkey \<Rightarrow> nat" where
  "dhkey_val k = words_val (dhkey_t k)"

abbreviation ring_size :: nat where
  "ring_size \<equiv> 2 ^ 256"

lemma length_dhkey_t [simp]: "length (dhkey_t k) = 8"
  by (simp add: dhkey_t_def)

lemma dhkey_of_t_dhkey_t [simp]: "dhkey_of_t (dhkey_t k) = k"
  by (cases k) (simp add: dhkey_of_t_def dhkey_t_def)

lemma dhkey_t_inject [simp]: "dhkey_t a = dhkey_t b \<longleftrightarrow> a = b"
  by (metis dhkey_of_t_dhkey_t)

lemma list_8_cases:
  assumes "length ws = 8"
  obtains a b c d e f g h where "ws = [a, b, c, d, e, f, g, h]"
  using assms by (auto simp: numeral_eq_Suc length_Suc_conv)

lemma dhkey_t_of_t [simp]: "length ws = 8 \<Longrightarrow> dhkey_t (dhkey_of_t ws) = ws"
  by (erule list_8_cases) (simp add: dhkey_of_t_def dhkey_t_def)

lemma words_val_bound: "words_val ws < 2 ^ (32 * length ws)"
proof (induction ws)
  case Nil
  then show ?case by simp
next
  case (Cons w ws)
  have "words_val (w # ws) < (unat w + 1) * 2 ^ (32 * length ws)"
    using Cons by (simp add: algebra_simps)
  also have "\<dots> \<le> 2 ^ 32 * 2 ^ (32 * length ws)"
    using unsigned_less [of w, where ?'a = nat] by (intro mult_right_mono) simp_all
  also have "\<dots> = 2 ^ (32 * length (w # ws))"
    by (simp add: power_add)
  finally show ?case .
qed

lemma words_val_less_Cons:
  assumes "unat a < unat b" "length as = length bs"
  shows "words_val (a # as) < words_val (b # bs)"
proof -
  have "words_val (a # as) < (unat a + 1) * 2 ^ (32 * length bs)"
    using words_val_bound [of as] assms(2) by (simp add: algebra_simps)
  also have "\<dots> \<le> unat b * 2 ^ (32 * length bs)"
    using assms(1) by (intro mult_right_mono) auto
  finally show ?thesis by simp
qed

lemma dhkey_cmp_loop_val:
  "length as = length bs \<Longrightarrow>
   dhkey_cmp_loop as bs =
     (if words_val bs < words_val as then 1 else if words_val as < words_val bs then - 1 else 0)"
proof (induction as bs rule: dhkey_cmp_loop.induct)
  case (1 a as b bs)
  then show ?case
    using words_val_less_Cons [of a b as bs] words_val_less_Cons [of b a bs as]
    by (auto simp: word_less_nat_alt simp del: words_val.simps)
       (auto simp: not_less word_less_nat_alt dest!: antisym)
qed auto

lemma dhkey_cmp_loop_zero: "length as = length bs \<Longrightarrow> dhkey_cmp_loop as bs = 0 \<longleftrightarrow> as = bs"
  by (induction as bs rule: dhkey_cmp_loop.induct) auto

lemma dhkey_val_bound: "dhkey_val k < ring_size"
  using words_val_bound [of "dhkey_t k"] by (simp add: dhkey_val_def)

lemma np_dhkey_cmp_val:
  "np_dhkey_cmp a b =
     (if dhkey_val b < dhkey_val a then 1 else if dhkey_val a < dhkey_val b then - 1 else 0)"
  by (simp add: np_dhkey_cmp_ptr_def dhkey_val_def dhkey_cmp_loop_val)

lemma dhkey_val_inject [simp]: "dhkey_val a = dhkey_val b \<longleftrightarrow> a = b"
proof
  assume "dhkey_val a = dhkey_val b"
  then have "np_dhkey_cmp a b = 0" by (simp add: np_dhkey_cmp_val)
  then show "a = b" by (simp add: np_dhkey_cmp_ptr_def dhkey_cmp_loop_zero)
qed simp

instantiation np_dhkey :: linorder
begin

definition less_eq_np_dhkey :: "np_dhkey \<Rightarrow> np_dhkey \<Rightarrow> bool" where
  "less_eq_np_dhkey a b \<longleftrightarrow> dhkey_val a \<le> dhkey_val b"

definition less_np_dhkey :: "np_dhkey \<Rightarrow> np_dhkey \<Rightarrow> bool" where
  "less_np_dhkey a b \<longleftrightarrow> dhkey_val a < dhkey_val b"

instance
  by standard (auto simp: less_eq_np_dhkey_def less_np_dhkey_def)

end

lemma np_dhkey_cmp_order [np_simps]:
  "np_dhkey_cmp a b = (if b < a then 1 else if a < b then - 1 else 0)"
  by (simp add: np_dhkey_cmp_val less_np_dhkey_def)

lemma np_dhkey_equal_iff [np_simps]: "np_dhkey_equal a b \<longleftrightarrow> a = b"
proof -
  have "length as = length bs \<Longrightarrow> dhkey_equal_loop as bs \<longleftrightarrow> as = bs" for as bs
    by (induction as bs rule: dhkey_equal_loop.induct) auto
  then show ?thesis by (simp add: np_dhkey_equal_def)
qed

lemma np_dhkey_assign_eq [np_simps]: "np_dhkey_assign k = k"
proof -
  have "map (\<lambda>i. dhkey_t k ! i) [0..<8] = dhkey_t k"
    using map_nth [of "dhkey_t k"] by simp
  then show ?thesis by (simp add: np_dhkey_assign_def)
qed

section \<open>Half bytes: the prefix index and the digits\<close>

definition byte_nibbles :: "u8 \<Rightarrow> u8 list" where
  "byte_nibbles b = [hi_nibble b, lo_nibble b]"

definition dhkey_nibbles :: "np_dhkey \<Rightarrow> u8 list" where
  "dhkey_nibbles k = concat (map byte_nibbles (dhkey_bytes k))"

lemma length_dhkey_bytes [simp]: "length (dhkey_bytes k) = 32"
  by (simp add: dhkey_bytes_def length_concat_map_const [where n = 4])

lemma length_dhkey_nibbles [simp]: "length (dhkey_nibbles k) = 64"
  by (simp add: dhkey_nibbles_def byte_nibbles_def length_concat_map_const [where n = 2])

lemma dhkey_of_bytes_bytes [simp]: "dhkey_of_bytes (dhkey_bytes k) = k"
  by (cases k) (simp add: dhkey_of_bytes_def dhkey_bytes_def dhkey_t_def)

lemma byte_nibbles_inject:
  "concat (map byte_nibbles as) = concat (map byte_nibbles bs) \<Longrightarrow> as = bs"
proof (induction as arbitrary: bs)
  case Nil
  then show ?case by (cases bs) (auto simp: byte_nibbles_def)
next
  case (Cons a as)
  then show ?case by (cases bs) (auto simp: byte_nibbles_def dest: nibbles_inject)
qed

lemma dhkey_nibbles_inject [simp]: "dhkey_nibbles a = dhkey_nibbles b \<longleftrightarrow> a = b"
  by (metis byte_nibbles_inject dhkey_nibbles_def dhkey_of_bytes_bytes)

lemma dhkey_index_loop_lcp:
  "length as = length bs \<Longrightarrow>
   dhkey_index_loop as bs r =
     r + lcp (concat (map byte_nibbles as)) (concat (map byte_nibbles bs))"
  by (induction as bs r rule: dhkey_index_loop.induct)
     (auto simp: hi_nibble_mask byte_nibbles_def simp flip: lo_nibble_def)

lemma np_dhkey_index_lcp: "np_dhkey_index a b = lcp (dhkey_nibbles a) (dhkey_nibbles b)"
  by (simp add: np_dhkey_index_def dhkey_index_loop_lcp dhkey_nibbles_def)

lemma dhkey_nibbles_nth:
  assumes "i < 64"
  shows "dhkey_nibbles k ! i = byte_nibbles (u32_bytes (dhkey_t k ! (i div 8)) ! (i mod 8 div 2)) ! (i mod 2)"
proof -
  have "dhkey_nibbles k ! i = byte_nibbles (dhkey_bytes k ! (i div 2)) ! (i mod 2)"
    unfolding dhkey_nibbles_def
    using assms by (subst nth_concat_map_const [where n = 2]) (auto simp: byte_nibbles_def)
  also have "dhkey_bytes k ! (i div 2) = u32_bytes (dhkey_t k ! (i div 2 div 4)) ! (i div 2 mod 4)"
    unfolding dhkey_bytes_def
    using assms by (subst nth_concat_map_const [where n = 4]) auto
  also have "i div 2 div 4 = i div 8"
    by (simp flip: div_mult2_eq)
  also have "i div 2 mod 4 = i mod 8 div 2"
    using mod_mult2_eq [of i 2 4] by simp
  finally show ?thesis .
qed

lemma np_dhkey_hexalpha_at_nth:
  assumes "i < 64"
  shows "np_dhkey_hexalpha_at k (int i) = Some (dhkey_nibbles k ! i)"
proof -
  have "i mod 8 mod 2 = i mod 2" by (simp add: mod_mod_cancel)
  then show ?thesis
    using assms
    by (auto simp: np_dhkey_hexalpha_at_def dhkey_nibbles_nth byte_nibbles_def Let_def
          lo_nibble_def simp flip: hi_nibble_def)
qed

section \<open>The prefix-key interface\<close>

text \<open>
  What the routing table relies on: the prefix index of two keys and the digit of a key at a
  position. The client lemmas place a key in a row (the index with the own key) and a column
  (its digit there).
\<close>

locale prefix_keys =
  fixes index :: "'k \<Rightarrow> 'k \<Rightarrow> nat"
    and digit :: "'k \<Rightarrow> nat \<Rightarrow> nat"
    and rows :: nat
    and cols :: nat
  assumes index_le: "index a b \<le> rows"
    and index_full: "index a b = rows \<longleftrightarrow> a = b"
    and index_sym: "index a b = index b a"
    and digit_less: "digit a i < cols"
    and digit_same: "i < index a b \<Longrightarrow> digit a i = digit b i"
    and digit_differ: "index a b < rows \<Longrightarrow> digit a (index a b) \<noteq> digit b (index a b)"
begin

lemma index_less: "a \<noteq> b \<Longrightarrow> index a b < rows"
  using index_le [of a b] index_full [of a b] by simp

lemma slot_less: "a \<noteq> b \<Longrightarrow> digit b (index a b) + cols * index a b < rows * cols"
proof -
  assume "a \<noteq> b"
  then have "Suc (index a b) \<le> rows" using index_less [of a b] by simp
  then have "cols * Suc (index a b) \<le> cols * rows" by (rule mult_le_mono2)
  then show ?thesis using digit_less [of b "index a b"] by (simp add: algebra_simps)
qed

text \<open>A key never sits in the column of the own digit of its row.\<close>

lemma own_column_unused: "a \<noteq> b \<Longrightarrow> digit b (index a b) \<noteq> digit a (index a b)"
  using digit_differ [of a b] index_less [of a b] by auto

text \<open>Two keys of one row and column agree with each other on one digit more than with the owner.\<close>

lemma same_slot_closer:
  assumes "a \<noteq> b" "a \<noteq> c" "index a b = index a c"
    and "digit b (index a b) = digit c (index a c)"
  shows "index a b < index b c"
proof (rule ccontr)
  assume "\<not> index a b < index b c"
  then have le: "index b c \<le> index a b" by simp
  then have lt: "index b c < rows" using index_less [OF assms(1)] by simp
  have "digit b (index b c) = digit c (index b c)"
  proof (cases "index b c = index a b")
    case True
    with assms(3,4) show ?thesis by simp
  next
    case False
    with le have "index b c < index a b" "index b c < index a c" using assms(3) by simp_all
    then show ?thesis using digit_same [of "index b c" a b] digit_same [of "index b c" a c] by simp
  qed
  with digit_differ [OF lt] show False by simp
qed

end

definition dhkey_digit :: "np_dhkey \<Rightarrow> nat \<Rightarrow> nat" where
  "dhkey_digit k i = (case np_dhkey_hexalpha_at k (int i) of None \<Rightarrow> 0 | Some d \<Rightarrow> unat d)"

lemma dhkey_digit_nth: "i < 64 \<Longrightarrow> dhkey_digit k i = unat (dhkey_nibbles k ! i)"
  by (simp add: dhkey_digit_def np_dhkey_hexalpha_at_nth)

lemma dhkey_digit_less: "dhkey_digit k i < 16"
proof (cases "i < 64")
  case True
  then have "i mod 2 = 0 \<or> i mod 2 = 1" by presburger
  with True show ?thesis
    by (auto simp: dhkey_digit_nth dhkey_nibbles_nth byte_nibbles_def nibble_less_16)
next
  case False
  then show ?thesis by (simp add: dhkey_digit_def np_dhkey_hexalpha_at_def)
qed

interpretation dhk: prefix_keys np_dhkey_index dhkey_digit 64 16
proof (unfold_locales, goal_cases)
  case (1 a b)
  show ?case using lcp_le(1) [of "dhkey_nibbles a" "dhkey_nibbles b"] by (simp add: np_dhkey_index_lcp)
next
  case (2 a b)
  show ?case using lcp_full [of "dhkey_nibbles a" "dhkey_nibbles b"] by (simp add: np_dhkey_index_lcp)
next
  case (3 a b)
  show ?case by (simp add: np_dhkey_index_lcp lcp_sym)
next
  case (4 a i)
  show ?case by (rule dhkey_digit_less)
next
  case (5 i a b)
  then have "i < 64" using lcp_le(1) [of "dhkey_nibbles a" "dhkey_nibbles b"]
    by (simp add: np_dhkey_index_lcp)
  with 5 show ?case by (simp add: np_dhkey_index_lcp dhkey_digit_nth lcp_same)
next
  case (6 a b)
  then show ?case using lcp_differ [of "dhkey_nibbles a" "dhkey_nibbles b"]
    by (simp add: np_dhkey_index_lcp dhkey_digit_nth flip: word_unat_eq_iff)
qed

section \<open>Word-wise arithmetic, midpoint and distance\<close>

lemma dhkey_consts [np_simps]:
  "np_dhkey_min = Dhkey 0 0 0 0 0 0 0 0"
  "np_dhkey_half = Dhkey 0x80000000 0x80000000 0x80000000 0x80000000
     0x80000000 0x80000000 0x80000000 0x80000000"
  "np_dhkey_max = Dhkey (- 1) (- 1) (- 1) (- 1) (- 1) (- 1) (- 1) (- 1)"
  by code_simp+

lemma np_dhkey_sub_words [np_simps]:
  "np_dhkey_sub x y =
     Dhkey (t0 x - t0 y) (t1 x - t1 y) (t2 x - t2 y) (t3 x - t3 y)
       (t4 x - t4 y) (t5 x - t5 y) (t6 x - t6 y) (t7 x - t7 y)"
  by (simp add: np_dhkey_sub_def dhkey_t_def dhkey_of_t_def numeral_eq_Suc)

lemma np_dhkey_less_first: "t0 a < t0 b \<Longrightarrow> a < b"
  by (simp add: less_np_dhkey_def dhkey_val_def dhkey_t_def word_less_nat_alt words_val_less_Cons
      del: words_val.simps)

lemma np_dhkey_less_first_le: "a < b \<Longrightarrow> t0 a \<le> t0 b"
  using np_dhkey_less_first [of b a] by (meson not_le order_less_asym)

lemma word_sub_eq_add: "c + c = 0 \<Longrightarrow> x - c = x + (c :: u32)"
  by (simp add: minus_unique diff_conv_add_uminus del: add_uminus_conv_diff)

lemma np_dhkey_midpoint_add: "np_dhkey_midpoint k = np_dhkey_add k np_dhkey_half"
  by (simp add: np_dhkey_midpoint_def np_dhkey_add_def np_simps word_sub_eq_add)

lemma np_dhkey_distance_cases [np_simps]:
  "np_dhkey_distance a b =
     (let d = np_dhkey_sub (max a b) (min a b)
      in if np_dhkey_half < d then np_dhkey_sub np_dhkey_max d else d)"
  by (auto simp: np_dhkey_distance_def np_dhkey_cmp_order Let_def max_def min_def)

lemma np_dhkey_distance_sym: "np_dhkey_distance a b = np_dhkey_distance b a"
  by (simp add: np_dhkey_distance_cases max.commute min.commute)

lemma np_dhkey_distance_self: "np_dhkey_distance a a = dhkey_zero"
proof -
  have sub: "np_dhkey_sub a a = dhkey_zero" by (simp add: np_dhkey_sub_words dhkey_zero_def)
  have "dhkey_zero < np_dhkey_half"
    by (rule np_dhkey_less_first) (simp add: dhkey_zero_def dhkey_consts)
  then have "\<not> np_dhkey_half < dhkey_zero" by simp
  with sub show ?thesis by (simp add: np_dhkey_distance_cases Let_def)
qed

lemma compl_less_half:
  assumes "(0x80000000 :: u32) \<le> x"
  shows "- 1 - x < 0x80000000"
proof -
  have "(- 1 :: u32) = 0xffffffff" by simp
  moreover have "unat (0xffffffff - x) = unat (0xffffffff :: u32) - unat x"
    by (rule unat_sub) (use unsigned_less [of x, where ?'a = nat] in \<open>simp add: word_le_nat_alt\<close>)
  then have "0xffffffff - x < 0x80000000"
    using assms by (simp add: word_less_nat_alt word_le_nat_alt)
  ultimately show ?thesis by (simp only:)
qed

lemma np_dhkey_distance_le_half: "np_dhkey_distance a b \<le> np_dhkey_half"
proof -
  let ?d = "np_dhkey_sub (max a b) (min a b)"
  show ?thesis
  proof (cases "np_dhkey_half < ?d")
    case True
    then have "t0 np_dhkey_half \<le> t0 ?d" by (rule np_dhkey_less_first_le)
    then have "(0x80000000 :: u32) \<le> t0 ?d" by (simp add: dhkey_consts)
    then have "- 1 - t0 ?d < 0x80000000" by (rule compl_less_half)
    then have "t0 (np_dhkey_sub np_dhkey_max ?d) < t0 np_dhkey_half"
      by (simp add: np_dhkey_sub_words dhkey_consts)
    then have "np_dhkey_sub np_dhkey_max ?d < np_dhkey_half" by (rule np_dhkey_less_first)
    with True show ?thesis by (simp add: np_dhkey_distance_cases Let_def)
  next
    case False
    then show ?thesis by (simp add: np_dhkey_distance_cases Let_def)
  qed
qed

section \<open>The ring interval\<close>

text \<open>The way from \<open>l\<close> clockwise to \<open>x\<close> on the ring of all keys.\<close>

definition ring_way :: "np_dhkey \<Rightarrow> np_dhkey \<Rightarrow> nat" where
  "ring_way l x = (dhkey_val x + (ring_size - dhkey_val l)) mod ring_size"

definition way_mod :: "nat \<Rightarrow> nat \<Rightarrow> nat \<Rightarrow> nat" where
  "way_mod N l x = (if l \<le> x then x - l else x + N - l)"

lemma way_mod_eq: "x < N \<Longrightarrow> l < N \<Longrightarrow> (x + (N - l)) mod N = way_mod N l x"
proof (cases "l \<le> x")
  case True
  assume "x < N" "l < N"
  with True have "x + (N - l) = (x - l) + N" by simp
  with \<open>x < N\<close> True show ?thesis by (simp only: mod_add_self2) (simp add: way_mod_def)
qed (simp add: way_mod_def)

lemma way_mod_inject: "a < N \<Longrightarrow> b < N \<Longrightarrow> l < N \<Longrightarrow> way_mod N l a = way_mod N l b \<longleftrightarrow> a = b"
  by (auto simp: way_mod_def split: if_splits)

lemma way_mod_between:
  assumes "x < N" "l < N" "r < N" "x \<noteq> l" "x \<noteq> r" "l \<noteq> r"
  shows "way_mod N l x < way_mod N l r \<longleftrightarrow> (if l < r then l < x \<and> x < r else l < x \<or> x < r)"
  using assms by (auto simp: way_mod_def)

lemma ring_way_mod: "ring_way l x = way_mod ring_size (dhkey_val l) (dhkey_val x)"
  unfolding ring_way_def by (intro way_mod_eq dhkey_val_bound)

lemma ring_way_inject: "ring_way l a = ring_way l b \<longleftrightarrow> a = b"
  unfolding ring_way_mod by (simp only: way_mod_inject dhkey_val_bound dhkey_val_inject)

lemma np_dhkey_between_order [np_simps]:
  "np_dhkey_between x l r inc =
     (if x = l \<or> x = r then inc
      else if l < r then l < x \<and> x < r else l < x \<or> x < r)"
  by (auto simp: np_dhkey_between_def Let_def np_dhkey_cmp_order split: if_splits)

lemma np_dhkey_between_way:
  "np_dhkey_between x l r inc =
     (if x = l \<or> x = r then inc else l = r \<or> ring_way l x < ring_way l r)"
proof (cases "x = l \<or> x = r \<or> l = r")
  case True
  then show ?thesis by (auto simp: np_dhkey_between_order)
next
  case False
  then show ?thesis
    using way_mod_between [OF dhkey_val_bound dhkey_val_bound dhkey_val_bound, of x l r]
    by (simp add: np_dhkey_between_order ring_way_mod less_np_dhkey_def)
qed

section \<open>Hamming distances\<close>

lemma length_filter_upt: "length (filter P [0..<n]) = card {i. i < n \<and> P i}"
proof -
  have "length (filter P [0..<n]) = card (set (filter P [0..<n]))"
    by (rule distinct_card [symmetric]) simp
  also have "set (filter P [0..<n]) = {i. i < n \<and> P i}" by auto
  finally show ?thesis .
qed

lemma popcount_card: "popcount w = card {i. i < 32 \<and> bit w i}"
  unfolding popcount_def by (rule length_filter_upt)

lemma popcount_le: "popcount w \<le> 32"
proof -
  have "card {i. i < 32 \<and> bit w i} \<le> card {i :: nat. i < 32}" by (rule card_mono) auto
  then show ?thesis by (simp add: popcount_card)
qed

lemma popcount_0: "popcount (x XOR y) = 0 \<longleftrightarrow> x = y"
proof -
  have "popcount (x XOR y) = 0 \<longleftrightarrow> (\<forall>i<32. \<not> bit (x XOR y) i)"
    by (auto simp: popcount_card)
  also have "\<dots> \<longleftrightarrow> x = y" by (auto simp: bit_eq_iff bit_simps)
  finally show ?thesis .
qed

lemma popcount_32: "popcount (x XOR y) = 32 \<longleftrightarrow> y = NOT x"
proof -
  have "popcount (x XOR y) = 32 \<longleftrightarrow> card {i. i < 32 \<and> bit (x XOR y) i} = card {i :: nat. i < 32}"
    by (simp add: popcount_card)
  also have "\<dots> \<longleftrightarrow> {i. i < 32 \<and> bit (x XOR y) i} = {i :: nat. i < 32}"
    (is "card ?A = card ?B \<longleftrightarrow> _")
  proof
    assume "card ?A = card ?B"
    then show "?A = ?B" by (intro card_subset_eq) auto
  qed simp
  also have "\<dots> \<longleftrightarrow> y = NOT x" by (auto simp: bit_eq_iff bit_simps)
  finally show ?thesis .
qed

definition hamming_sum :: "np_dhkey \<Rightarrow> np_dhkey \<Rightarrow> nat" where
  "hamming_sum x y = sum_list (map2 (\<lambda>a b. popcount (a XOR b)) (dhkey_t x) (dhkey_t y))"

lemma hamming_distance_of_nat: "np_dhkey_hamming_distance x y = of_nat (hamming_sum x y)"
  by (simp add: np_dhkey_hamming_distance_def hamming_sum_def dhkey_t_def ac_simps)

lemma hamming_sum_le: "hamming_sum x y \<le> 256"
  using popcount_le [of "t0 x XOR t0 y"] popcount_le [of "t1 x XOR t1 y"]
    popcount_le [of "t2 x XOR t2 y"] popcount_le [of "t3 x XOR t3 y"]
    popcount_le [of "t4 x XOR t4 y"] popcount_le [of "t5 x XOR t5 y"]
    popcount_le [of "t6 x XOR t6 y"] popcount_le [of "t7 x XOR t7 y"]
  by (simp add: hamming_sum_def dhkey_t_def)

lemma hamming_sum_0: "hamming_sum x y = 0 \<longleftrightarrow> x = y"
  by (cases x; cases y) (simp add: hamming_sum_def dhkey_t_def popcount_0)

lemma sum_8_full:
  fixes a b c d e f g h :: nat
  assumes "a \<le> 32" "b \<le> 32" "c \<le> 32" "d \<le> 32" "e \<le> 32" "f \<le> 32" "g \<le> 32" "h \<le> 32"
  shows "a + (b + (c + (d + (e + (f + (g + h)))))) = 256 \<longleftrightarrow>
    a = 32 \<and> b = 32 \<and> c = 32 \<and> d = 32 \<and> e = 32 \<and> f = 32 \<and> g = 32 \<and> h = 32"
  using assms by linarith

lemma hamming_sum_256: "hamming_sum x y = 256 \<longleftrightarrow> y = np_dhkey_xor x np_dhkey_max"
  by (cases x; cases y)
     (simp add: hamming_sum_def dhkey_t_def sum_8_full popcount_le popcount_32 np_dhkey_xor_def
        dhkey_consts)

section \<open>Properties\<close>

text \<open>
  C21: the comparison is the numerical order of the 256-bit values, with \<^verbatim>\<open>NULL\<close> below every key:
  the result is negative, zero or positive exactly when the first argument is smaller, equal or
  larger.
\<close>

theorem dhkey_cmp_numeric:
  "np_dhkey_cmp_ptr (Some a) (Some b) = sgn (int (dhkey_val a) - int (dhkey_val b))
   \<and> (np_dhkey_cmp_ptr (Some a) (Some b) = 0 \<longleftrightarrow> a = b)
   \<and> np_dhkey_cmp_ptr None p = - 1 \<and> np_dhkey_cmp_ptr (Some a) None = 1"
  using np_dhkey_cmp_val [of a b] dhkey_val_inject [of a b]
  by (auto simp: np_dhkey_cmp_ptr_def sgn_if simp del: dhkey_val_inject)

text \<open>
  C20: the interval test is the clockwise interval of the ring. A key on an edge is inside exactly
  when the bounds are included; with equal bounds every other key is inside; otherwise a key is
  inside exactly when the clockwise way from the left bound to it is shorter than the way to the
  right bound.
\<close>

theorem dhkey_between_ring:
  "np_dhkey_between x l r inc =
     (if x = l \<or> x = r then inc else if l = r then True else ring_way l x < ring_way l r)"
  by (simp add: np_dhkey_between_way)

text \<open>
  C22: the prefix index is the length of the longest common prefix of hexadecimal digits: it is 64
  exactly for equal keys, and otherwise the digits that the digit lookup returns agree below the
  index and differ at it.
\<close>

theorem dhkey_index_longest_prefix:
  "np_dhkey_index a b = n \<longleftrightarrow>
     (if n < 64
      then (\<forall>i<n. np_dhkey_hexalpha_at a (int i) = np_dhkey_hexalpha_at b (int i))
        \<and> np_dhkey_hexalpha_at a (int n) \<noteq> np_dhkey_hexalpha_at b (int n)
      else n = 64 \<and> a = b)"
  (is "?L = ?R")
proof
  assume ?L
  then show ?R
    using dhk.index_le [of a b] dhk.index_full [of a b]
      lcp_differ [of "dhkey_nibbles a" "dhkey_nibbles b"] lcp_same [of _ "dhkey_nibbles a" "dhkey_nibbles b"]
    by (auto simp: np_dhkey_hexalpha_at_nth np_dhkey_index_lcp)
next
  assume R: ?R
  show ?L
  proof (cases "n < 64")
    case True
    with R have same: "\<And>i. i < n \<Longrightarrow> dhkey_nibbles a ! i = dhkey_nibbles b ! i"
      and diff: "dhkey_nibbles a ! n \<noteq> dhkey_nibbles b ! n"
      by (auto simp: np_dhkey_hexalpha_at_nth)
    let ?l = "lcp (dhkey_nibbles a) (dhkey_nibbles b)"
    have "\<not> n < ?l" using diff lcp_same [of n "dhkey_nibbles a" "dhkey_nibbles b"] by blast
    moreover have "\<not> ?l < n"
      using same [of ?l] lcp_differ [of "dhkey_nibbles a" "dhkey_nibbles b"] True by auto
    ultimately show ?thesis by (simp add: np_dhkey_index_lcp)
  next
    case False
    with R show ?thesis using dhk.index_full [of a b] by auto
  qed
qed

theorem dhkey_index_longest_prefix_witness:
  "np_dhkey_index (Dhkey 0 0 0 0 0 0 0 0) (Dhkey 0x1000 0 0 0 0 0 0 0) = 2"
  unfolding dhkey_index_longest_prefix by code_simp

text \<open>
  The distance is symmetric, zero on equal keys and never more than half of the key space.
\<close>

lemma dhkey_distance_laws:
  "np_dhkey_distance a b = np_dhkey_distance b a
   \<and> np_dhkey_distance a a = dhkey_zero
   \<and> np_dhkey_distance a b \<le> np_dhkey_half"
  using np_dhkey_distance_sym np_dhkey_distance_self np_dhkey_distance_le_half by blast

text \<open>
  C23: the Hamming distance is the number of differing bits modulo 256, because the accumulator is
  a byte. So it is zero not only for equal keys but also for a key and its complement, which
  differ in all 256 bits.
\<close>

theorem dhkey_hamming_distance_zero:
  "np_dhkey_hamming_distance x y = 0 \<longleftrightarrow> x = y \<or> y = np_dhkey_xor x np_dhkey_max"
proof -
  have "np_dhkey_hamming_distance x y = 0 \<longleftrightarrow> hamming_sum x y mod 256 = 0"
    by (simp add: hamming_distance_of_nat word_unat_eq_iff unat_of_nat)
  also have "\<dots> \<longleftrightarrow> hamming_sum x y = 0 \<or> hamming_sum x y = 256"
    using hamming_sum_le [of x y] by (cases "hamming_sum x y = 256") auto
  finally show ?thesis by (simp add: hamming_sum_0 hamming_sum_256)
qed

text \<open>
  The midpoint of a key is its antipode: it is the key plus half of the key space in every
  word, whichever branch is taken, and the midpoint of the midpoint is the key.
\<close>

lemma dhkey_midpoint_involution:
  "np_dhkey_midpoint k = np_dhkey_add k np_dhkey_half \<and> np_dhkey_midpoint (np_dhkey_midpoint k) = k"
  by (cases k) (simp add: np_dhkey_midpoint_add, simp add: np_dhkey_add_def dhkey_consts)

end
