(* ===== verification/Np_Keysort.thy ===== *)
theory Np_Keysort
  imports Np_Dhkey
begin

text \<open>
  Selecting and sorting keys by their position relative to a target:
  \<^verbatim>\<open>_np_keycache_find_closest_key_to\<close>, \<^verbatim>\<open>_np_keycache_sort_keys_cpm\<close> and
  \<^verbatim>\<open>_np_keycache_sort_keys_kd\<close> of \<^verbatim>\<open>src/np_keycache.c\<close>. A key object stands in the keycache
  once per hash key, so the lists hold the hash keys.

  Both sorts exchange list values in place. They are written once over a comparison \<open>lt\<close> (is the
  later value to be swapped to the front?) and instantiated with the two comparisons of the code.
  The locale \<open>ranked\<close> states what the sorts need of a comparison.
\<close>

section \<open>The algorithms\<close>

fun closest_loop :: "np_dhkey \<Rightarrow> np_dhkey list \<Rightarrow> bool \<Rightarrow> np_dhkey \<Rightarrow> np_dhkey option \<Rightarrow> np_dhkey option" where
  "closest_loop key [] first_run minDif min_key = min_key"
| "closest_loop key (x # xs) first_run minDif min_key =
     (let dif = np_dhkey_distance key x;
          cmp = np_dhkey_cmp dif minDif
      in if first_run \<or> cmp \<le> 0 then closest_loop key xs False dif (Some x)
         else closest_loop key xs False minDif min_key)"

definition np_keycache_find_closest_key_to :: "np_dhkey list \<Rightarrow> np_dhkey \<Rightarrow> np_dhkey option" where
  "np_keycache_find_closest_key_to list_of_keys key =
     (if length list_of_keys = 0 then None
      else closest_loop key list_of_keys True dhkey_zero None)"

text \<open>One run of the inner loop of the prefix sort, and the outer loop.\<close>

fun exch_inner :: "('a \<Rightarrow> 'a \<Rightarrow> bool) \<Rightarrow> 'a \<Rightarrow> 'a list \<Rightarrow> 'a \<times> 'a list" where
  "exch_inner lt v1 [] = (v1, [])"
| "exch_inner lt v1 (v2 # vs) =
     (if lt v2 v1
      then (let (m, r) = exch_inner lt v2 vs in (m, v1 # r))
      else (let (m, r) = exch_inner lt v1 vs in (m, v2 # r)))"

lemma length_exch_inner [simp]: "length (snd (exch_inner lt v vs)) = length vs"
  by (induction lt v vs rule: exch_inner.induct) (auto simp: case_prod_unfold Let_def)

function exch_sort :: "('a \<Rightarrow> 'a \<Rightarrow> bool) \<Rightarrow> 'a list \<Rightarrow> 'a list" where
  "exch_sort lt [] = []"
| "exch_sort lt (v # vs) = fst (exch_inner lt v vs) # exch_sort lt (snd (exch_inner lt v vs))"
  by pat_completeness auto
termination
  by (relation "measure (length \<circ> snd)") auto

definition cpm_swap :: "np_dhkey \<Rightarrow> np_dhkey \<Rightarrow> np_dhkey \<Rightarrow> bool" where
  "cpm_swap key v2 v1 =
     (let pmatch1 = np_dhkey_index key v1;
          pmatch2 = np_dhkey_index key v2
      in if pmatch2 > pmatch1 then True
         else if pmatch1 = pmatch2
         then np_dhkey_cmp (np_dhkey_distance v2 key) (np_dhkey_distance v1 key) < 0
         else False)"

definition np_keycache_sort_keys_cpm :: "np_dhkey list \<Rightarrow> np_dhkey \<Rightarrow> np_dhkey list" where
  "np_keycache_sort_keys_cpm node_keys key =
     (if length node_keys < 2 then node_keys else exch_sort (cpm_swap key) node_keys)"

text \<open>
  The distance sort: for every list position the first later value that is closer is swapped in
  and the search for this position ends; passes are repeated until one makes no swap.
\<close>

fun pass_inner :: "('a \<Rightarrow> 'a \<Rightarrow> bool) \<Rightarrow> 'a \<Rightarrow> 'a list \<Rightarrow> 'a \<times> 'a list \<times> bool" where
  "pass_inner lt cur [] = (cur, [], False)"
| "pass_inner lt cur (nxt # vs) =
     (if lt nxt cur then (nxt, cur # vs, True)
      else (let (c, r, s) = pass_inner lt cur vs in (c, nxt # r, s)))"

lemma length_pass_inner [simp]: "length (fst (snd (pass_inner lt c vs))) = length vs"
  by (induction lt c vs rule: pass_inner.induct) (auto simp: case_prod_unfold Let_def)

function swap_pass :: "('a \<Rightarrow> 'a \<Rightarrow> bool) \<Rightarrow> 'a list \<Rightarrow> 'a list \<times> bool" where
  "swap_pass lt [] = ([], False)"
| "swap_pass lt (v # vs) =
     (let (r, s) = swap_pass lt (fst (snd (pass_inner lt v vs)))
      in (fst (pass_inner lt v vs) # r, snd (snd (pass_inner lt v vs)) \<or> s))"
  by pat_completeness auto
termination
  by (relation "measure (length \<circ> snd)") auto

definition kd_swap :: "np_dhkey \<Rightarrow> np_dhkey \<Rightarrow> np_dhkey \<Rightarrow> bool" where
  "kd_swap key nxt cur =
     (np_dhkey_cmp (np_dhkey_distance nxt key) (np_dhkey_distance cur key) < 0)"

section \<open>Comparisons given by a rank\<close>

locale ranked =
  fixes lt :: "'a \<Rightarrow> 'a \<Rightarrow> bool"
    and rank :: "'a \<Rightarrow> nat"
  assumes lt_rank: "lt x y \<longleftrightarrow> rank x < rank y"
begin

lemma mset_exch_inner:
  "add_mset (fst (exch_inner lt v vs)) (mset (snd (exch_inner lt v vs))) = add_mset v (mset vs)"
  by (induction vs arbitrary: v) (auto simp: case_prod_unfold Let_def add_mset_commute)

lemma exch_inner_le: "rank (fst (exch_inner lt v vs)) \<le> rank v"
proof (induction vs arbitrary: v)
  case (Cons a vs)
  show ?case using Cons.IH [of a] Cons.IH [of v] lt_rank [of a v]
    by (auto simp: case_prod_unfold Let_def)
qed simp

lemma exch_inner_min:
  "x \<in> set (snd (exch_inner lt v vs)) \<Longrightarrow> rank (fst (exch_inner lt v vs)) \<le> rank x"
proof (induction vs arbitrary: v)
  case (Cons a vs)
  then show ?case
    using exch_inner_le [of a vs] exch_inner_le [of v vs] lt_rank [of a v]
    by (cases "lt a v") (auto simp: case_prod_unfold Let_def)
qed simp

lemma mset_exch_sort: "mset (exch_sort lt xs) = mset xs"
proof (induction "length xs" arbitrary: xs)
  case 0
  then show ?case by simp
next
  case (Suc n)
  then obtain v vs where xs: "xs = v # vs" "length vs = n" by (cases xs) auto
  then have "mset (exch_sort lt (snd (exch_inner lt v vs))) = mset (snd (exch_inner lt v vs))"
    using Suc.hyps(1) by simp
  then show ?case using xs mset_exch_inner [of v vs] by simp
qed

lemma sorted_exch_sort: "sorted (map rank (exch_sort lt xs))"
proof (induction "length xs" arbitrary: xs)
  case 0
  then show ?case by simp
next
  case (Suc n)
  then obtain v vs where xs: "xs = v # vs" "length vs = n" by (cases xs) auto
  let ?r = "snd (exch_inner lt v vs)"
  have "sorted (map rank (exch_sort lt ?r))" using Suc.hyps(1) xs by simp
  moreover have "set (exch_sort lt ?r) = set ?r" by (metis mset_exch_sort set_mset_mset)
  ultimately show ?case using xs exch_inner_min [of _ v vs] by auto
qed

lemma mset_pass_inner:
  "add_mset (fst (pass_inner lt v vs)) (mset (fst (snd (pass_inner lt v vs)))) = add_mset v (mset vs)"
  by (induction vs arbitrary: v) (auto simp: case_prod_unfold Let_def add_mset_commute)

lemma mset_swap_pass: "mset (fst (swap_pass lt xs)) = mset xs"
proof (induction "length xs" arbitrary: xs)
  case 0
  then show ?case by simp
next
  case (Suc n)
  then obtain v vs where xs: "xs = v # vs" "length vs = n" by (cases xs) auto
  then have "mset (fst (swap_pass lt (fst (snd (pass_inner lt v vs))))) = mset (fst (snd (pass_inner lt v vs)))"
    using Suc.hyps(1) by simp
  then show ?case using xs mset_pass_inner [of v vs] by (auto simp: case_prod_unfold Let_def)
qed

lemma length_swap_pass: "length (fst (swap_pass lt xs)) = length xs"
  by (metis mset_swap_pass size_mset)

lemma pass_inner_no_swap:
  "\<not> snd (snd (pass_inner lt v vs)) \<Longrightarrow> pass_inner lt v vs = (v, vs, False) \<and> (\<forall>x\<in>set vs. rank v \<le> rank x)"
proof (induction vs arbitrary: v)
  case (Cons a vs)
  show ?case using Cons.prems Cons.IH [of v] lt_rank [of a v]
    by (cases "pass_inner lt v vs"; cases "lt a v") auto
qed simp

lemma pass_inner_swap:
  "snd (snd (pass_inner lt v vs)) \<Longrightarrow> rank (fst (pass_inner lt v vs)) < rank v"
proof (induction vs arbitrary: v)
  case (Cons a vs)
  show ?case using Cons.prems Cons.IH [of v] lt_rank [of a v]
    by (cases "pass_inner lt v vs"; cases "lt a v") auto
qed simp

lemma swap_pass_no_swap:
  "\<not> snd (swap_pass lt xs) \<Longrightarrow> fst (swap_pass lt xs) = xs \<and> sorted (map rank xs)"
proof (induction xs)
  case Nil
  then show ?case by simp
next
  case (Cons v vs)
  from Cons.prems have "\<not> snd (snd (pass_inner lt v vs))" by (auto simp: case_prod_unfold Let_def)
  then have eq: "pass_inner lt v vs = (v, vs, False)" and le: "\<forall>x\<in>set vs. rank v \<le> rank x"
    using pass_inner_no_swap by blast+
  with Cons.prems have "\<not> snd (swap_pass lt vs)" by (auto simp: case_prod_unfold Let_def)
  with Cons.IH have "fst (swap_pass lt vs) = vs" "sorted (map rank vs)" by auto
  with eq le show ?case by (auto simp: case_prod_unfold Let_def)
qed

lemma swap_pass_lex:
  "snd (swap_pass lt xs) \<Longrightarrow> (fst (swap_pass lt xs), xs) \<in> lex (measure rank)"
proof (induction xs)
  case Nil
  then show ?case by simp
next
  case (Cons v vs)
  show ?case
  proof (cases "snd (snd (pass_inner lt v vs))")
    case True
    then have "rank (fst (pass_inner lt v vs)) < rank v" by (rule pass_inner_swap)
    then show ?thesis
      using length_swap_pass [of "fst (snd (pass_inner lt v vs))"] by (auto simp: case_prod_unfold Let_def)
  next
    case False
    then have eq: "pass_inner lt v vs = (v, vs, False)" using pass_inner_no_swap by blast
    with Cons.prems have "snd (swap_pass lt vs)" by (auto simp: case_prod_unfold Let_def)
    with Cons.IH have "(fst (swap_pass lt vs), vs) \<in> lex (measure rank)" by simp
    with eq show ?thesis by (auto simp: case_prod_unfold Let_def)
  qed
qed

end

definition kd_rank :: "np_dhkey \<Rightarrow> np_dhkey \<Rightarrow> nat" where
  "kd_rank key x = dhkey_val (np_dhkey_distance x key)"

definition cpm_rank :: "np_dhkey \<Rightarrow> np_dhkey \<Rightarrow> nat" where
  "cpm_rank key x = (64 - np_dhkey_index key x) * ring_size + dhkey_val (np_dhkey_distance x key)"

interpretation kd: ranked "kd_swap key" "kd_rank key" for key
  by unfold_locales (simp add: kd_swap_def kd_rank_def np_dhkey_cmp_val)

lemma mult_add_less_iff:
  fixes a b x y N :: nat
  assumes "x < N" "y < N"
  shows "a * N + x < b * N + y \<longleftrightarrow> a < b \<or> (a = b \<and> x < y)"
proof -
  have "a * N + x < b * N + y" if "a < b" "x < N" for a b x y :: nat
  proof -
    have "a * N + x < Suc a * N" using that by simp
    also have "\<dots> \<le> b * N" using that by (intro mult_right_mono) auto
    finally show ?thesis by simp
  qed
  from this [of a b x y] this [of b a y x] assms show ?thesis
    by (cases a b rule: linorder_cases) auto
qed

interpretation cpm: ranked "cpm_swap key" "cpm_rank key" for key
proof
  fix x y
  have "np_dhkey_index key x \<le> 64" "np_dhkey_index key y \<le> 64" by (rule dhk.index_le)+
  then show "cpm_swap key x y \<longleftrightarrow> cpm_rank key x < cpm_rank key y"
    unfolding cpm_swap_def cpm_rank_def mult_add_less_iff [OF dhkey_val_bound dhkey_val_bound]
    by (auto simp: Let_def np_dhkey_cmp_val)
qed

section \<open>The distance sort terminates and sorts\<close>

function kd_loop :: "np_dhkey \<Rightarrow> np_dhkey list \<Rightarrow> np_dhkey list" where
  "kd_loop key xs =
     (if snd (swap_pass (kd_swap key) xs) then kd_loop key (fst (swap_pass (kd_swap key) xs))
      else fst (swap_pass (kd_swap key) xs))"
  by pat_completeness auto
termination
proof (relation "same_fst (\<lambda>_. True) (\<lambda>key. lex (measure (kd_rank key)))")
  show "wf (same_fst (\<lambda>_. True) (\<lambda>key. lex (measure (kd_rank key))))"
    by (intro wf_same_fst wf_lex wf_measure)
qed (simp add: same_fst_def kd.swap_pass_lex)

declare kd_loop.simps [simp del]

definition np_keycache_sort_keys_kd :: "np_dhkey list \<Rightarrow> np_dhkey \<Rightarrow> np_dhkey list" where
  "np_keycache_sort_keys_kd list_of_keys key =
     (if length list_of_keys < 2 then list_of_keys else kd_loop key list_of_keys)"

lemma kd_loop_correct: "mset (kd_loop key xs) = mset xs \<and> sorted (map (kd_rank key) (kd_loop key xs))"
proof (induction key xs rule: kd_loop.induct)
  case (1 key xs)
  show ?case
  proof (cases "snd (swap_pass (kd_swap key) xs)")
    case True
    with 1 show ?thesis by (subst (1 2) kd_loop.simps) (simp add: kd.mset_swap_pass)
  next
    case False
    then show ?thesis using kd.swap_pass_no_swap [of key xs] by (subst (1 2) kd_loop.simps) simp
  qed
qed

lemma sorted_short: "length xs < 2 \<Longrightarrow> sorted (map f xs)"
  by (cases xs) auto

lemma sort_keys_kd_correct:
  "mset (np_keycache_sort_keys_kd xs key) = mset xs"
  "sorted (map (kd_rank key) (np_keycache_sort_keys_kd xs key))"
  using kd_loop_correct by (simp_all add: np_keycache_sort_keys_kd_def sorted_short)

lemma sort_keys_kd_simps [simp]:
  "set (np_keycache_sort_keys_kd xs key) = set xs"
  "length (np_keycache_sort_keys_kd xs key) = length xs"
  "distinct (np_keycache_sort_keys_kd xs key) = distinct xs"
  using sort_keys_kd_correct(1) [of xs key]
  by (metis set_mset_mset, metis size_mset, metis mset_eq_imp_distinct_iff)

lemma sort_keys_cpm_correct:
  "mset (np_keycache_sort_keys_cpm xs key) = mset xs"
  "sorted (map (cpm_rank key) (np_keycache_sort_keys_cpm xs key))"
  by (simp_all add: np_keycache_sort_keys_cpm_def sorted_short cpm.mset_exch_sort cpm.sorted_exch_sort)

lemma sort_keys_cpm_simps [simp]:
  "set (np_keycache_sort_keys_cpm xs key) = set xs"
  "length (np_keycache_sort_keys_cpm xs key) = length xs"
  using sort_keys_cpm_correct(1) [of xs key] by (metis set_mset_mset, metis size_mset)

section \<open>The closest key\<close>

lemma closest_loop_spec:
  assumes "closest_loop key xs False d (Some m) = r" "d = np_dhkey_distance key m"
  shows "\<exists>x. r = Some x \<and> x \<in> insert m (set xs)
    \<and> (\<forall>y\<in>insert m (set xs). np_dhkey_distance key x \<le> np_dhkey_distance key y)"
  using assms
proof (induction xs arbitrary: d m)
  case Nil
  then show ?case by auto
next
  case (Cons x xs)
  show ?case
  proof (cases "np_dhkey_distance key x \<le> d")
    case True
    with Cons.prems have "closest_loop key xs False (np_dhkey_distance key x) (Some x) = r"
      by (auto simp: Let_def np_dhkey_cmp_order split: if_splits)
    from Cons.IH [OF this refl] True Cons.prems(2) show ?thesis by (auto intro: order_trans)
  next
    case False
    with Cons.prems have "closest_loop key xs False d (Some m) = r"
      by (auto simp: Let_def np_dhkey_cmp_order split: if_splits)
    from Cons.IH [OF this Cons.prems(2)] False Cons.prems(2) show ?thesis
      by (auto intro: order_trans)
  qed
qed

lemma find_closest_spec:
  assumes "xs \<noteq> []"
  obtains x where "np_keycache_find_closest_key_to xs key = Some x" "x \<in> set xs"
    "\<And>y. y \<in> set xs \<Longrightarrow> np_dhkey_distance key x \<le> np_dhkey_distance key y"
proof -
  from assms obtain a as where xs: "xs = a # as" by (cases xs) auto
  then have "np_keycache_find_closest_key_to xs key =
      closest_loop key as False (np_dhkey_distance key a) (Some a)"
    by (simp add: np_keycache_find_closest_key_to_def Let_def)
  from closest_loop_spec [OF this [symmetric] refl] that xs show ?thesis by auto
qed

section \<open>Properties\<close>

text \<open>
  C24: the closest-key search returns a key of the list whose distance to the target no other key
  of the list undercuts, and returns no key exactly for the empty list.
\<close>

theorem find_closest_key_minimal:
  "(np_keycache_find_closest_key_to xs key = None \<longleftrightarrow> xs = [])
   \<and> (case np_keycache_find_closest_key_to xs key of None \<Rightarrow> True
      | Some x \<Rightarrow> x \<in> set xs
          \<and> list_all (\<lambda>y. np_dhkey_distance key x \<le> np_dhkey_distance key y) xs)"
proof (cases "xs = []")
  case True
  then show ?thesis by (simp add: np_keycache_find_closest_key_to_def)
next
  case False
  then obtain x where "np_keycache_find_closest_key_to xs key = Some x" "x \<in> set xs"
    "\<And>y. y \<in> set xs \<Longrightarrow> np_dhkey_distance key x \<le> np_dhkey_distance key y"
    by (rule find_closest_spec [of xs key]) auto
  with False show ?thesis by (simp add: list_all_iff)
qed

text \<open>
  C15: the distance sort ends on every list, although it repeats passes until none swaps, and its
  result is a permutation of the list in which the distance to the target never decreases.
\<close>

theorem sort_keys_kd_sorts:
  "mset (np_keycache_sort_keys_kd xs key) = mset xs
   \<and> sorted (map (\<lambda>x. np_dhkey_distance x key) (np_keycache_sort_keys_kd xs key))"
proof -
  have "sorted (map (\<lambda>x. np_dhkey_distance x key) ys) = sorted (map (kd_rank key) ys)" for ys
    by (induction ys) (auto simp: kd_rank_def less_eq_np_dhkey_def)
  then show ?thesis using sort_keys_kd_correct by simp
qed

text \<open>
  C25: the prefix sort returns a permutation of the list ordered by falling prefix match with the
  target and, among keys of equal match, by rising distance.
\<close>

theorem sort_keys_cpm_sorts:
  "mset (np_keycache_sort_keys_cpm xs key) = mset xs
   \<and> sorted_wrt (\<lambda>x y. np_dhkey_index key y < np_dhkey_index key x
        \<or> (np_dhkey_index key y = np_dhkey_index key x
            \<and> np_dhkey_distance x key \<le> np_dhkey_distance y key))
      (np_keycache_sort_keys_cpm xs key)"
proof -
  have "cpm_rank key x \<le> cpm_rank key y \<longleftrightarrow>
      np_dhkey_index key y < np_dhkey_index key x
        \<or> (np_dhkey_index key y = np_dhkey_index key x
            \<and> np_dhkey_distance x key \<le> np_dhkey_distance y key)" for x y
    using dhk.index_le [of key x] dhk.index_le [of key y]
      mult_add_less_iff [OF dhkey_val_bound [of "np_dhkey_distance y key"]
          dhkey_val_bound [of "np_dhkey_distance x key"],
        of "64 - np_dhkey_index key y" "64 - np_dhkey_index key x"]
    unfolding cpm_rank_def less_eq_np_dhkey_def by (auto simp: not_less simp flip: not_less)
  then show ?thesis
    using sort_keys_cpm_correct [where xs = xs and key = key] by (simp add: sorted_map)
qed

end
