(* ===== verification/Np_Sll.thy ===== *)
theory Np_Sll
  imports Np_Prelude "HOL-Library.Monad_Syntax"
begin

text \<open>
  The single linked lists that \<^verbatim>\<open>NP_SLL_GENERATE_IMPLEMENTATION\<close> of
  \<^verbatim>\<open>include/util/np_list.h\<close> generates for an element type, at the level of pointers: nodes live in
  a heap, a list is the struct of a counter, a first and a last pointer. \<^verbatim>\<open>calloc\<close> returns a fresh
  address, \<^verbatim>\<open>free\<close> removes the node, and following a pointer to no node makes the operation \<open>None\<close>.

  The list a struct represents is \<open>sll_rep\<close>; the refinement lemmas show that every operation
  implements its list counterpart. They are collected in the locale \<open>seq_list\<close>, the contract of
  both linked-list kinds of the header.
\<close>

section \<open>Nodes, heap and list struct\<close>

type_synonym addr = nat

record 'a sll_node =
  nd_flink :: "addr option"
  nd_val :: 'a

record 'a sll_heap =
  mem :: "addr \<rightharpoonup> 'a sll_node"
  brk :: addr

record sll =
  sl_size :: u32
  sl_first :: "addr option"
  sl_last :: "addr option"

definition heap_calloc :: "'a sll_node \<Rightarrow> 'a sll_heap \<Rightarrow> addr \<times> 'a sll_heap" where
  "heap_calloc n h = (brk h, h\<lparr>brk := Suc (brk h), mem := (mem h)(brk h \<mapsto> n)\<rparr>)"

definition heap_free :: "addr \<Rightarrow> 'a sll_heap \<Rightarrow> 'a sll_heap" where
  "heap_free a h = h\<lparr>mem := (mem h)(a := None)\<rparr>"

definition set_flink :: "addr option \<Rightarrow> addr option \<Rightarrow> 'a sll_heap \<Rightarrow> 'a sll_heap option" where
  "set_flink p q h =
     do { a \<leftarrow> p; n \<leftarrow> mem h a; Some (h\<lparr>mem := (mem h)(a \<mapsto> n\<lparr>nd_flink := q\<rparr>)\<rparr>) }"

text \<open>\<^verbatim>\<open>sll_next_select\<close>: a node that points to itself ends the iteration.\<close>

definition sll_next_select :: "'a sll_heap \<Rightarrow> addr \<Rightarrow> addr option option" where
  "sll_next_select h a =
     do { n \<leftarrow> mem h a; Some (if nd_flink n = Some a then None else nd_flink n) }"

section \<open>Operations\<close>

definition sll_init :: sll where
  "sll_init = \<lparr>sl_size = 0, sl_first = None, sl_last = None\<rparr>"

definition sll_insert :: "'a sll_heap \<Rightarrow> sll \<Rightarrow> 'a \<Rightarrow> addr \<Rightarrow> ('a sll_heap \<times> sll) option" where
  "sll_insert h l v after =
     do {
       an \<leftarrow> mem h after;
       let (a, h1) = heap_calloc \<lparr>nd_flink = nd_flink an, nd_val = v\<rparr> h;
       h2 \<leftarrow> set_flink (Some after) (Some a) h1;
       Some (h2, l\<lparr>sl_size := sl_size l + 1,
                   sl_last := (if Some after = sl_last l then Some a else sl_last l)\<rparr>)
     }"

definition sll_append :: "'a sll_heap \<Rightarrow> sll \<Rightarrow> 'a \<Rightarrow> ('a sll_heap \<times> sll) option" where
  "sll_append h l v =
     do {
       let (a, h1) = heap_calloc \<lparr>nd_flink = None, nd_val = v\<rparr> h;
       (h2, l1) \<leftarrow>
         (if sl_first l = None then Some (h1, l\<lparr>sl_first := Some a\<rparr>)
          else do { h2 \<leftarrow> set_flink (sl_last l) (Some a) h1; Some (h2, l) });
       Some (h2, l1\<lparr>sl_last := Some a, sl_size := sl_size l1 + 1\<rparr>)
     }"

definition sll_prepend :: "'a sll_heap \<Rightarrow> sll \<Rightarrow> 'a \<Rightarrow> ('a sll_heap \<times> sll) option" where
  "sll_prepend h l v =
     (let (a, h1) = heap_calloc \<lparr>nd_flink = sl_first l, nd_val = v\<rparr> h
      in Some (h1, l\<lparr>sl_last := (if sl_last l = None then Some a else sl_last l),
                     sl_first := Some a, sl_size := sl_size l + 1\<rparr>))"

text \<open>
  The search loop of \<^verbatim>\<open>sll_delete\<close>: \<open>tmp\<close> runs ahead of \<open>prev\<close> (the variable \<^verbatim>\<open>mem\<close> of the source)
  by one node.
\<close>

partial_function (option) sll_delete_loop ::
  "'a sll_heap \<Rightarrow> sll \<Rightarrow> addr \<Rightarrow> addr option \<Rightarrow> addr option \<Rightarrow> ('a sll_heap \<times> sll) option" where
  "sll_delete_loop h l tbr tmp prev =
     (case tmp of None \<Rightarrow> Some (h, l)
      | Some t \<Rightarrow>
          do {
            tn \<leftarrow> mem h t;
            (if nd_flink tn = Some tbr
             then do {
               (h1, l1) \<leftarrow>
                 (if sl_last l = Some tbr
                  then do { h1 \<leftarrow> set_flink prev None h; Some (h1, l\<lparr>sl_last := prev\<rparr>) }
                  else do { bn \<leftarrow> mem h tbr; h1 \<leftarrow> set_flink prev (nd_flink bn) h; Some (h1, l) });
               Some (heap_free tbr h1, l1\<lparr>sl_size := sl_size l1 - 1\<rparr>)
             }
             else do {
               p \<leftarrow> prev;
               pn \<leftarrow> mem h p;
               sll_delete_loop h l tbr (nd_flink tn) (nd_flink pn)
             })
          })"

definition sll_delete :: "'a sll_heap \<Rightarrow> sll \<Rightarrow> addr \<Rightarrow> ('a sll_heap \<times> sll) option" where
  "sll_delete h l tbr =
     (if sl_first l = Some tbr then
        do {
          l1 \<leftarrow> (if sl_last l = Some tbr
                 then Some (l\<lparr>sl_first := None, sl_last := None, sl_size := 0\<rparr>)
                 else do { n \<leftarrow> mem h tbr;
                           Some (l\<lparr>sl_first := nd_flink n, sl_size := sl_size l - 1\<rparr>) });
          Some (heap_free tbr h, l1)
        }
      else sll_delete_loop h l tbr (sl_first l) (sl_first l))"

text \<open>The value of an empty list is \<^verbatim>\<open>{0}\<close> in the source, here \<open>None\<close>.\<close>

definition sll_head :: "'a sll_heap \<Rightarrow> sll \<Rightarrow> ('a sll_heap \<times> sll \<times> 'a option) option" where
  "sll_head h l =
     (case sl_first l of None \<Rightarrow> Some (h, l, None)
      | Some a \<Rightarrow> do { n \<leftarrow> mem h a; (h1, l1) \<leftarrow> sll_delete h l a; Some (h1, l1, Some (nd_val n)) })"

definition sll_tail :: "'a sll_heap \<Rightarrow> sll \<Rightarrow> ('a sll_heap \<times> sll \<times> 'a option) option" where
  "sll_tail h l =
     (case sl_last l of None \<Rightarrow> Some (h, l, None)
      | Some a \<Rightarrow> do { n \<leftarrow> mem h a; (h1, l1) \<leftarrow> sll_delete h l a; Some (h1, l1, Some (nd_val n)) })"

partial_function (option) sll_find_loop ::
  "('a \<Rightarrow> 'a \<Rightarrow> int) \<Rightarrow> 'a \<Rightarrow> 'a sll_heap \<Rightarrow> addr option \<Rightarrow> addr option option" where
  "sll_find_loop cmp v h iter =
     (case iter of None \<Rightarrow> Some None
      | Some a \<Rightarrow>
          do {
            n \<leftarrow> mem h a;
            (if cmp (nd_val n) v = 0 then Some (Some a)
             else do { nx \<leftarrow> sll_next_select h a; sll_find_loop cmp v h nx })
          })"

definition sll_find :: "('a \<Rightarrow> 'a \<Rightarrow> int) \<Rightarrow> 'a sll_heap \<Rightarrow> sll \<Rightarrow> 'a \<Rightarrow> 'a \<Rightarrow> 'a option" where
  "sll_find cmp h l v default_return =
     do {
       p \<leftarrow> sll_find_loop cmp v h (sl_first l);
       (case p of None \<Rightarrow> Some default_return
        | Some a \<Rightarrow> do { n \<leftarrow> mem h a; Some (nd_val n) })
     }"

definition sll_contains :: "('a \<Rightarrow> 'a \<Rightarrow> int) \<Rightarrow> 'a sll_heap \<Rightarrow> sll \<Rightarrow> 'a \<Rightarrow> bool option" where
  "sll_contains cmp h l v = map_option (\<lambda>p. p \<noteq> None) (sll_find_loop cmp v h (sl_first l))"

definition sll_remove :: "('a \<Rightarrow> 'a \<Rightarrow> int) \<Rightarrow> 'a sll_heap \<Rightarrow> sll \<Rightarrow> 'a \<Rightarrow> ('a sll_heap \<times> sll) option" where
  "sll_remove cmp h l v =
     do {
       p \<leftarrow> sll_find_loop cmp v h (sl_first l);
       (case p of None \<Rightarrow> Some (h, l) | Some a \<Rightarrow> sll_delete h l a)
     }"

text \<open>\<^verbatim>\<open>sll_clear\<close> frees the nodes and resets the first pointer and the counter; the last pointer
  keeps its value.\<close>

partial_function (option) sll_clear_loop :: "'a sll_heap \<Rightarrow> addr option \<Rightarrow> 'a sll_heap option" where
  "sll_clear_loop h p =
     (case p of None \<Rightarrow> Some h
      | Some a \<Rightarrow> do { n \<leftarrow> mem h a; sll_clear_loop (heap_free a h) (nd_flink n) })"

definition sll_clear :: "'a sll_heap \<Rightarrow> sll \<Rightarrow> ('a sll_heap \<times> sll) option" where
  "sll_clear h l =
     do { h1 \<leftarrow> sll_clear_loop h (sl_first l); Some (h1, l\<lparr>sl_first := None, sl_size := 0\<rparr>) }"

definition sll_free :: "'a sll_heap \<Rightarrow> sll \<Rightarrow> 'a sll_heap option" where
  "sll_free h l = map_option fst (sll_clear h l)"

partial_function (option) sll_clone_loop ::
  "'a sll_heap \<Rightarrow> addr option \<Rightarrow> sll \<Rightarrow> ('a sll_heap \<times> sll) option" where
  "sll_clone_loop h iter target =
     (case iter of None \<Rightarrow> Some (h, target)
      | Some a \<Rightarrow>
          do {
            n \<leftarrow> mem h a;
            (h1, target1) \<leftarrow> sll_append h target (nd_val n);
            nx \<leftarrow> sll_next_select h1 a;
            sll_clone_loop h1 nx target1
          })"

definition sll_clone :: "'a sll_heap \<Rightarrow> sll \<Rightarrow> sll \<Rightarrow> ('a sll_heap \<times> sll) option" where
  "sll_clone h source target = sll_clone_loop h (sl_first source) target"

partial_function (option) sll_merge_loop ::
  "('a \<Rightarrow> 'a \<Rightarrow> int) \<Rightarrow> 'a sll_heap \<Rightarrow> addr option \<Rightarrow> sll \<Rightarrow> ('a sll_heap \<times> sll) option" where
  "sll_merge_loop cmp h iter ret =
     (case iter of None \<Rightarrow> Some (h, ret)
      | Some a \<Rightarrow>
          do {
            n \<leftarrow> mem h a;
            found \<leftarrow> sll_contains cmp h ret (nd_val n);
            (h1, ret1) \<leftarrow> (if \<not> found then sll_append h ret (nd_val n) else Some (h, ret));
            nx \<leftarrow> sll_next_select h1 a;
            sll_merge_loop cmp h1 nx ret1
          })"

definition sll_merge :: "('a \<Rightarrow> 'a \<Rightarrow> int) \<Rightarrow> 'a sll_heap \<Rightarrow> sll \<Rightarrow> sll \<Rightarrow> ('a sll_heap \<times> sll) option" where
  "sll_merge cmp h la lb =
     do {
       (h1, ret) \<leftarrow> sll_merge_loop cmp h (sl_first lb) sll_init;
       sll_merge_loop cmp h1 (sl_first la) ret
     }"

section \<open>The represented list\<close>

fun seg :: "(addr \<rightharpoonup> 'a sll_node) \<Rightarrow> addr option \<Rightarrow> (addr \<times> 'a) list \<Rightarrow> addr option \<Rightarrow> bool" where
  "seg m p [] q \<longleftrightarrow> p = q"
| "seg m p ((a, x) # ns) q \<longleftrightarrow>
     p = Some a \<and> (case m a of None \<Rightarrow> False | Some n \<Rightarrow> nd_val n = x \<and> seg m (nd_flink n) ns q)"

definition last_addr :: "(addr \<times> 'a) list \<Rightarrow> addr option" where
  "last_addr ns = (if ns = [] then None else Some (fst (last ns)))"

definition heap_ok :: "'a sll_heap \<Rightarrow> bool" where
  "heap_ok h \<longleftrightarrow> (\<forall>a \<ge> brk h. mem h a = None)"

definition sll_nodes :: "'a sll_heap \<Rightarrow> sll \<Rightarrow> (addr \<times> 'a) list \<Rightarrow> bool" where
  "sll_nodes h l ns \<longleftrightarrow>
     heap_ok h \<and> distinct (map fst ns) \<and> seg (mem h) (sl_first l) ns None
     \<and> sl_last l = last_addr ns \<and> sl_size l = of_nat (length ns)"

definition sll_rep :: "'a sll_heap \<Rightarrow> sll \<Rightarrow> 'a list \<Rightarrow> bool" where
  "sll_rep h l xs \<longleftrightarrow> (\<exists>ns. sll_nodes h l ns \<and> xs = map snd ns)"

lemma seg_append: "seg m p (ns @ ms) q \<longleftrightarrow> (\<exists>r. seg m p ns r \<and> seg m r ms q)"
  by (induction ns arbitrary: p) (auto split: option.splits)

lemma seg_frame: "\<forall>a \<in> fst ` set ns. m' a = m a \<Longrightarrow> seg m' p ns q \<longleftrightarrow> seg m p ns q"
  by (induction ns arbitrary: p) (auto split: option.splits)

lemma seg_upd [simp]: "a \<notin> fst ` set ns \<Longrightarrow> seg (m(a := x)) p ns q \<longleftrightarrow> seg m p ns q"
  by (rule seg_frame) auto

lemma seg_dom: "seg m p ns q \<Longrightarrow> fst ` set ns \<subseteq> dom m"
  by (induction ns arbitrary: p) (fastforce split: option.splits)+

lemma seg_nth_node:
  assumes "seg m p (ns @ (a, x) # ms) q"
  obtains n where "m a = Some n" "nd_val n = x" "seg m p ns (Some a)" "seg m (nd_flink n) ms q"
  using assms by (auto simp: seg_append split: option.splits)

lemma heap_ok_less: "heap_ok h \<Longrightarrow> mem h a = Some n \<Longrightarrow> a < brk h"
  by (metis heap_ok_def not_le option.discI)

lemma heap_ok_alloc [simp]:
  "heap_ok h \<Longrightarrow> heap_ok (h\<lparr>brk := Suc (brk h), mem := (mem h)(brk h \<mapsto> n)\<rparr>)"
  by (simp add: heap_ok_def)

lemma heap_ok_alloc_set:
  "heap_ok h \<Longrightarrow> mem h b = Some n \<Longrightarrow>
   heap_ok (h\<lparr>brk := Suc (brk h), mem := (mem h)(brk h \<mapsto> x, b \<mapsto> y)\<rparr>)"
  by (auto simp: heap_ok_def)

lemma heap_ok_free [simp]: "heap_ok h \<Longrightarrow> heap_ok (h\<lparr>mem := (mem h)(a := None)\<rparr>)"
  by (simp add: heap_ok_def)

lemma heap_ok_set_free:
  "heap_ok h \<Longrightarrow> mem h a = Some n \<Longrightarrow> heap_ok (h\<lparr>mem := (mem h)(a \<mapsto> m, b := None)\<rparr>)"
  by (auto simp: heap_ok_def)

lemma sll_nodes_addr:
  assumes "sll_nodes h l ns" "a \<in> fst ` set ns" shows "a < brk h"
proof -
  have "a \<in> dom (mem h)" "heap_ok h" using assms seg_dom unfolding sll_nodes_def by blast+
  then show ?thesis using heap_ok_less by blast
qed

lemma sll_nodes_fresh: "sll_nodes h l ns \<Longrightarrow> brk h \<notin> fst ` set ns"
  using sll_nodes_addr [of h l ns "brk h"] by blast

lemma last_addr_simps [simp]:
  "last_addr [] = None" "last_addr (ns @ [(a, x)]) = Some a" "last_addr ns = None \<longleftrightarrow> ns = []"
  "last_addr (n # m # ns) = last_addr (m # ns)" "last_addr [(a, x)] = Some a"
  "last_addr (ns @ m # ms) = last_addr (m # ms)"
  by (auto simp: last_addr_def)

lemma sll_first_None: "sll_nodes h l ns \<Longrightarrow> sl_first l = None \<longleftrightarrow> ns = []"
  by (cases ns) (auto simp: sll_nodes_def)

text \<open>What an operation may change: the nodes of its own list and fresh memory.\<close>

definition heap_frame :: "'a sll_heap \<Rightarrow> 'a sll_heap \<Rightarrow> addr set \<Rightarrow> bool" where
  "heap_frame h h' A \<longleftrightarrow> brk h \<le> brk h' \<and> (\<forall>a < brk h. a \<notin> A \<longrightarrow> mem h' a = mem h a)"

lemma heap_frame_refl [simp]: "heap_frame h h A"
  by (simp add: heap_frame_def)

lemma sll_nodes_frame:
  assumes "sll_nodes h l ns" "heap_frame h h' A" "A \<inter> fst ` set ns = {}" "heap_ok h'"
  shows "sll_nodes h' l ns"
proof -
  have "\<forall>a \<in> fst ` set ns. mem h' a = mem h a"
    using assms(2,3) sll_nodes_addr [OF assms(1)] by (auto simp: heap_frame_def)
  then show ?thesis using assms(1,4) seg_frame [of ns "mem h'" "mem h"] by (auto simp: sll_nodes_def)
qed

section \<open>Refinement of the single operations\<close>

lemma sll_init_nodes: "heap_ok h \<Longrightarrow> sll_nodes h sll_init []"
  by (simp add: sll_nodes_def sll_init_def)

lemma sll_append_nodes:
  assumes "sll_nodes h l ns"
  shows "\<exists>h' l'. sll_append h l v = Some (h', l') \<and> sll_nodes h' l' (ns @ [(brk h, v)])
    \<and> heap_frame h h' (fst ` set ns)"
proof (cases ns rule: rev_cases)
  case Nil
  with assms have "sl_first l = None" by (simp add: sll_first_None)
  with assms Nil show ?thesis
    by (simp add: sll_append_def heap_calloc_def sll_nodes_def heap_frame_def)
next
  case (snoc ns' bx)
  obtain b x where bx: "bx = (b, x)" by force
  have fresh: "brk h \<notin> fst ` set ns" using assms by (rule sll_nodes_fresh)
  from assms snoc bx obtain n where n: "mem h b = Some n" "nd_val n = x" "nd_flink n = None"
      "seg (mem h) (sl_first l) ns' (Some b)"
    by (auto simp: sll_nodes_def seg_append split: option.splits)
  have ne: "sl_first l \<noteq> None" using assms snoc sll_first_None by fastforce
  have last: "sl_last l = Some b" using assms snoc bx by (simp add: sll_nodes_def)
  have d: "b \<notin> fst ` set ns'" "distinct (map fst ns')" "b \<noteq> brk h" "brk h \<notin> fst ` set ns'"
    using assms snoc bx fresh by (auto simp: sll_nodes_def)
  have ok: "heap_ok h" "sl_size l = of_nat (length ns)" using assms by (simp_all add: sll_nodes_def)
  show ?thesis
    using n d ne last snoc bx ok heap_ok_alloc_set [OF ok(1) n(1)]
    by (simp add: sll_append_def heap_calloc_def set_flink_def sll_nodes_def
        heap_frame_def seg_append)
qed

lemma sll_prepend_nodes:
  assumes "sll_nodes h l ns"
  shows "\<exists>h' l'. sll_prepend h l v = Some (h', l') \<and> sll_nodes h' l' ((brk h, v) # ns)
    \<and> heap_frame h h' {}"
proof -
  have "brk h \<notin> fst ` set ns" using assms by (rule sll_nodes_fresh)
  with assms show ?thesis
    by (cases ns) (simp_all add: sll_prepend_def heap_calloc_def sll_nodes_def heap_frame_def)
qed

lemma last_addr_mid:
  "distinct (map fst (ns @ (a, x) # ms)) \<Longrightarrow> last_addr ((a, x) # ms) = Some a \<longleftrightarrow> ms = []"
  by (cases ms rule: rev_cases) (auto simp: last_addr_def)

lemma sll_insert_nodes:
  assumes "sll_nodes h l (ns @ (a, x) # ms)"
  shows "\<exists>h' l'. sll_insert h l v a = Some (h', l')
    \<and> sll_nodes h' l' (ns @ (a, x) # (brk h, v) # ms) \<and> heap_frame h h' {a}"
proof -
  have fresh: "brk h \<notin> fst ` set ns" "brk h \<notin> fst ` set ms" "brk h \<noteq> a"
    using sll_nodes_fresh [OF assms] by auto
  have "seg (mem h) (sl_first l) (ns @ (a, x) # ms) None" using assms by (simp add: sll_nodes_def)
  then obtain n where n: "mem h a = Some n" "nd_val n = x"
      "seg (mem h) (sl_first l) ns (Some a)" "seg (mem h) (nd_flink n) ms None"
    by (rule seg_nth_node)
  have d: "a \<notin> fst ` set ns" "a \<notin> fst ` set ms" using assms by (auto simp: sll_nodes_def)
  have ok: "heap_ok h" "sl_size l = of_nat (length ns + Suc (length ms))"
      "distinct (map fst (ns @ (a, x) # ms))" "sl_last l = last_addr ((a, x) # ms)"
    using assms by (simp_all add: sll_nodes_def)
  have l: "Some a = sl_last l \<longleftrightarrow> ms = []" using last_addr_mid [OF ok(3)] ok(4) by metis
  have seg': "seg ((mem h)(brk h \<mapsto> y, a \<mapsto> z)) p ns q \<longleftrightarrow> seg (mem h) p ns q"
      "seg ((mem h)(brk h \<mapsto> y, a \<mapsto> z)) p ms q \<longleftrightarrow> seg (mem h) p ms q" for y z p q
    using fresh d by simp_all
  have "last_addr ((a, x) # (brk h, v) # ms) = (if ms = [] then Some (brk h) else sl_last l)"
    using ok(4) by (cases ms) simp_all
  then show ?thesis
    using n fresh d ok(1-3) heap_ok_alloc_set [OF ok(1) n(1)]
    by (simp add: sll_insert_def heap_calloc_def set_flink_def sll_nodes_def
        heap_frame_def seg_append seg' l)
qed

definition unlinked :: "'a sll_heap \<Rightarrow> sll \<Rightarrow> addr \<Rightarrow> addr \<Rightarrow> 'a sll_heap \<times> sll" where
  "unlinked h l b a =
     (let nx = (if sl_last l = Some a then None else nd_flink (the (mem h a)))
      in (h\<lparr>mem := (mem h)(b \<mapsto> (the (mem h b))\<lparr>nd_flink := nx\<rparr>, a := None)\<rparr>,
          l\<lparr>sl_last := (if sl_last l = Some a then Some b else sl_last l), sl_size := sl_size l - 1\<rparr>))"

lemma sll_delete_loop_finds:
  assumes "seg (mem h) p (ks @ (b, y) # (a, x) # ms) None"
      "distinct (map fst (ks @ (b, y) # (a, x) # ms))"
  shows "sll_delete_loop h l a p p = Some (unlinked h l b a)"
  using assms
proof (induction ks arbitrary: p)
  case Nil
  then obtain bn an where "p = Some b" "mem h b = Some bn" "nd_flink bn = Some a" "mem h a = Some an"
    by (auto split: option.splits)
  then show ?case
    by (subst sll_delete_loop.simps) (simp add: set_flink_def unlinked_def heap_free_def)
next
  case (Cons cz ks)
  obtain c z where cz: "cz = (c, z)" by force
  with Cons.prems obtain cn where cn: "mem h c = Some cn" "p = Some c"
      "seg (mem h) (nd_flink cn) (ks @ (b, y) # (a, x) # ms) None"
    by (auto split: option.splits)
  have ne: "nd_flink cn \<noteq> Some a"
    using cn(3) Cons.prems(2) by (cases ks) (auto split: option.splits)
  have ih: "sll_delete_loop h l a (nd_flink cn) (nd_flink cn) = Some (unlinked h l b a)"
    using Cons.prems(2) by (intro Cons.IH [OF cn(3)]) simp
  show ?case by (subst sll_delete_loop.simps) (simp add: cn ih ne)
qed

lemma sll_delete_nodes:
  assumes "sll_nodes h l (ns @ (a, x) # ms)"
  shows "\<exists>h' l'. sll_delete h l a = Some (h', l') \<and> sll_nodes h' l' (ns @ ms)
    \<and> heap_frame h h' (fst ` set (ns @ (a, x) # ms))"
proof -
  have sg: "seg (mem h) (sl_first l) (ns @ (a, x) # ms) None" using assms by (simp add: sll_nodes_def)
  then obtain n where n: "mem h a = Some n" "nd_val n = x"
      "seg (mem h) (sl_first l) ns (Some a)" "seg (mem h) (nd_flink n) ms None"
    by (rule seg_nth_node)
  have ok: "heap_ok h" "sl_size l = of_nat (length ns + Suc (length ms))"
      "distinct (map fst (ns @ (a, x) # ms))" "sl_last l = last_addr ((a, x) # ms)"
    using assms by (simp_all add: sll_nodes_def)
  have l: "sl_last l = Some a \<longleftrightarrow> ms = []"
    using last_addr_mid [OF ok(3)] ok(4) by metis
  show ?thesis
  proof (cases ns rule: rev_cases)
    case Nil
    then show ?thesis using n ok l
      by (cases ms) (simp_all add: sll_delete_def heap_free_def sll_nodes_def heap_frame_def)
  next
    case (snoc ks bx)
    obtain b y where bx: "bx = (b, y)" by force
    have ns: "ns = ks @ [(b, y)]" using snoc bx by simp
    obtain bn where bn: "mem h b = Some bn" "nd_val bn = y" "seg (mem h) (sl_first l) ks (Some b)"
      using n(3) ns by (auto simp: seg_append split: option.splits)
    have d: "b \<noteq> a" "b \<notin> fst ` set ks" "b \<notin> fst ` set ms" "a \<notin> fst ` set ks" "a \<notin> fst ` set ms"
      using ok(3) ns by auto
    have nf: "sl_first l \<noteq> Some a" using n(3) ns d by (cases ks) auto
    have la: "last_addr ((b, y) # ms) = (if ms = [] then Some b else sl_last l)"
      using ok(4) by (cases ms) simp_all
    have fl: "nd_flink n = None" if "ms = []" using n(4) that by simp
    have seg': "seg ((mem h)(b \<mapsto> z, a := None)) p ks q \<longleftrightarrow> seg (mem h) p ks q"
        "seg ((mem h)(b \<mapsto> z, a := None)) p ms q \<longleftrightarrow> seg (mem h) p ms q" for z p q
      using d by simp_all
    have del: "sll_delete h l a = Some (unlinked h l b a)"
      using sll_delete_loop_finds [of h "sl_first l" ks b y a x ms l] sg ok(3) ns nf
      by (simp add: sll_delete_def)
    show ?thesis
      unfolding del unlinked_def
      using ok(1-3) n bn d l la fl heap_ok_set_free [OF ok(1) bn(1)] ns
      by (simp add: sll_nodes_def heap_frame_def seg_append seg' Let_def)
  qed
qed

lemma sll_head_nodes:
  assumes "sll_nodes h l ns"
  shows "\<exists>h' l'. sll_head h l = Some (h', l', map_option snd (case ns of [] \<Rightarrow> None | n # _ \<Rightarrow> Some n))
    \<and> sll_nodes h' l' (tl ns) \<and> heap_frame h h' (fst ` set ns)"
proof (cases ns)
  case Nil
  then show ?thesis using assms sll_first_None [OF assms] by (simp add: sll_head_def)
next
  case (Cons ax ms)
  obtain a x where ax: "ax = (a, x)" by force
  from assms Cons ax obtain n where n: "sl_first l = Some a" "mem h a = Some n" "nd_val n = x"
    by (auto simp: sll_nodes_def split: option.splits)
  show ?thesis using sll_delete_nodes [of h l "[]" a x ms] assms Cons ax n
    by (auto simp: sll_head_def)
qed

lemma sll_tail_nodes:
  assumes "sll_nodes h l ns"
  shows "\<exists>h' l'. sll_tail h l = Some (h', l', if ns = [] then None else Some (snd (last ns)))
    \<and> sll_nodes h' l' (butlast ns) \<and> heap_frame h h' (fst ` set ns)"
proof (cases ns rule: rev_cases)
  case Nil
  then show ?thesis using assms by (simp add: sll_tail_def sll_nodes_def)
next
  case (snoc ms ax)
  obtain a x where ax: "ax = (a, x)" by force
  from assms snoc ax obtain n where n: "sl_last l = Some a" "mem h a = Some n" "nd_val n = x"
    by (auto simp: sll_nodes_def seg_append split: option.splits)
  show ?thesis using sll_delete_nodes [of h l ms a x "[]"] assms snoc ax n
    by (auto simp: sll_tail_def)
qed

lemma sll_next_select_seg:
  assumes "seg m (Some a) ((a, x) # ns) None" "a \<notin> fst ` set ns" "mem h = m"
  obtains n where "m a = Some n" "nd_val n = x" "sll_next_select h a = Some (nd_flink n)"
    "seg m (nd_flink n) ns None"
proof -
  from assms obtain n where n: "m a = Some n" "nd_val n = x" "seg m (nd_flink n) ns None"
    by (auto split: option.splits)
  moreover have "nd_flink n \<noteq> Some a" using n(3) assms(2) by (cases ns) auto
  ultimately show ?thesis using assms(3) that by (simp add: sll_next_select_def)
qed

lemma sll_find_loop_seg:
  assumes "seg (mem h) p ns None" "distinct (map fst ns)"
  shows "sll_find_loop cmp v h p = Some (map_option fst (find (\<lambda>(a, x). cmp x v = 0) ns))"
  using assms
proof (induction ns arbitrary: p)
  case Nil
  then show ?case by (subst sll_find_loop.simps) simp
next
  case (Cons ax ns)
  obtain a x where ax: "ax = (a, x)" by force
  have p: "p = Some a" using Cons.prems ax by simp
  obtain n where n: "mem h a = Some n" "nd_val n = x" "sll_next_select h a = Some (nd_flink n)"
      "seg (mem h) (nd_flink n) ns None"
    using sll_next_select_seg [of "mem h" a x ns h] Cons.prems ax by auto
  have ih: "sll_find_loop cmp v h (nd_flink n) = Some (map_option fst (find (\<lambda>(a, x). cmp x v = 0) ns))"
    using Cons.prems(2) by (intro Cons.IH [OF n(4)]) simp
  show ?case by (subst sll_find_loop.simps) (simp add: p n ih ax)
qed

lemma find_snd: "map_option snd (find (\<lambda>(a, x). P x) ns) = find P (map snd ns)"
  by (induction ns) auto

lemma sll_contains_nodes:
  assumes "sll_nodes h l ns"
  shows "sll_contains cmp h l v = Some (\<exists>x \<in> snd ` set ns. cmp x v = 0)"
proof -
  have "find (\<lambda>(a, x). cmp x v = 0) ns \<noteq> None \<longleftrightarrow> (\<exists>x \<in> snd ` set ns. cmp x v = 0)"
    by (force simp: find_None_iff)
  then show ?thesis using assms sll_find_loop_seg [of h "sl_first l" ns cmp v]
    by (simp add: sll_contains_def sll_nodes_def)
qed

lemma seg_lookup:
  "seg m p ns q \<Longrightarrow> (a, x) \<in> set ns \<Longrightarrow> \<exists>n. m a = Some n \<and> nd_val n = x"
  by (induction ns arbitrary: p) (auto split: option.splits)

lemma sll_find_nodes:
  assumes "sll_nodes h l ns"
  shows "sll_find cmp h l v d = Some (case find (\<lambda>x. cmp x v = 0) (map snd ns) of None \<Rightarrow> d | Some x \<Rightarrow> x)"
proof -
  have sg: "seg (mem h) (sl_first l) ns None" "distinct (map fst ns)"
    using assms by (simp_all add: sll_nodes_def)
  have *: "\<exists>n. mem h a = Some n \<and> nd_val n = x" if "find (\<lambda>(a, x). cmp x v = 0) ns = Some (a, x)" for a x
    using seg_lookup [OF sg(1)] that unfolding find_Some_iff by (metis nth_mem)
  show ?thesis
    using * by (auto simp: sll_find_def sll_find_loop_seg [OF sg] simp flip: find_snd split: option.splits)
qed

definition remove_first :: "('a \<Rightarrow> bool) \<Rightarrow> 'a list \<Rightarrow> 'a list" where
  "remove_first P xs = takeWhile (\<lambda>x. \<not> P x) xs @ tl (dropWhile (\<lambda>x. \<not> P x) xs)"

lemma remove_first_simps [simp]:
  "remove_first P [] = []"
  "remove_first P (x # xs) = (if P x then xs else x # remove_first P xs)"
  by (simp_all add: remove_first_def)

lemma find_split:
  "find P ns = Some n \<Longrightarrow> \<exists>ks ms. ns = ks @ n # ms \<and> P n \<and> remove_first P ns = ks @ ms"
proof (induction ns)
  case (Cons m ns)
  then show ?case
    by (cases "P m") (force, metis append_Cons find.simps(2) remove_first_simps(2))
qed simp

lemma remove_first_none: "find P ns = None \<Longrightarrow> remove_first P ns = ns"
  by (induction ns) (auto split: if_splits)

lemma remove_first_snd:
  "map snd (remove_first (\<lambda>(a, x). P x) ns) = remove_first P (map snd ns)"
  by (induction ns) auto

lemma sll_remove_nodes:
  assumes "sll_nodes h l ns"
  shows "\<exists>h' l'. sll_remove cmp h l v = Some (h', l')
    \<and> sll_nodes h' l' (remove_first (\<lambda>(a, x). cmp x v = 0) ns) \<and> heap_frame h h' (fst ` set ns)"
proof -
  have sg: "seg (mem h) (sl_first l) ns None" "distinct (map fst ns)"
    using assms by (simp_all add: sll_nodes_def)
  show ?thesis
  proof (cases "find (\<lambda>(a, x). cmp x v = 0) ns")
    case None
    then show ?thesis
      using assms by (simp add: sll_remove_def sll_find_loop_seg [OF sg] remove_first_none)
  next
    case (Some n)
    obtain a x where n: "n = (a, x)" by force
    obtain ks ms where "ns = ks @ (a, x) # ms"
        "remove_first (\<lambda>(a, x). cmp x v = 0) ns = ks @ ms"
      using find_split [OF Some] n by blast
    then show ?thesis
      using sll_delete_nodes [of h l ks a x ms] assms Some n
      by (simp add: sll_remove_def sll_find_loop_seg [OF sg])
  qed
qed

lemma sll_clear_loop_seg:
  assumes "seg (mem h) p ns None" "distinct (map fst ns)"
  shows "sll_clear_loop h p = Some (h\<lparr>mem := (mem h) |` (- fst ` set ns)\<rparr>)"
  using assms
proof (induction ns arbitrary: h p)
  case Nil
  then show ?case by (cases h, subst sll_clear_loop.simps) (simp add: restrict_map_def)
next
  case (Cons ax ns)
  obtain a x where ax: "ax = (a, x)" by force
  then obtain n where n: "p = Some a" "mem h a = Some n" "seg (mem h) (nd_flink n) ns None"
    using Cons.prems by (auto split: option.splits)
  have "a \<notin> fst ` set ns" using Cons.prems ax by simp
  then have "seg (mem (heap_free a h)) (nd_flink n) ns None"
    using n(3) by (simp add: heap_free_def)
  then have "sll_clear_loop (heap_free a h) (nd_flink n) =
      Some ((heap_free a h)\<lparr>mem := (mem (heap_free a h)) |` (- fst ` set ns)\<rparr>)"
    using Cons.prems(2) by (intro Cons.IH) simp_all
  moreover have "((mem h)(a := None)) |` (- fst ` set ns) = (mem h) |` (- fst ` set (ax # ns))"
    using ax by (auto simp: restrict_map_def fun_eq_iff)
  ultimately show ?case
    by (subst sll_clear_loop.simps) (simp add: n heap_free_def)
qed

lemma heap_frame_trans:
  "heap_frame h h1 A \<Longrightarrow> heap_frame h1 h2 B \<Longrightarrow> \<forall>b \<in> B. b < brk h \<longrightarrow> b \<in> A \<Longrightarrow> heap_frame h h2 A"
  by (auto simp: heap_frame_def)

text \<open>
  Copying from one list into another one on the same heap: \<open>ns\<close> is the rest of the source, \<open>ts\<close> the
  target, and the two share no node.
\<close>

lemma sll_append_other:
  assumes "sll_nodes h t ts" "seg (mem h) p ns None" "fst ` set ns \<inter> fst ` set ts = {}"
  obtains h' t' where "sll_append h t v = Some (h', t')" "sll_nodes h' t' (ts @ [(brk h, v)])"
    "seg (mem h') p ns None" "fst ` set ns \<inter> fst ` set (ts @ [(brk h, v)]) = {}"
    "heap_frame h h' (fst ` set ts)" "\<forall>a \<in> fst ` set ns. mem h' a = mem h a"
proof -
  obtain h' t' where a: "sll_append h t v = Some (h', t')" "sll_nodes h' t' (ts @ [(brk h, v)])"
      "heap_frame h h' (fst ` set ts)"
    using sll_append_nodes [OF assms(1)] by blast
  have "heap_ok h" using assms(1) by (simp add: sll_nodes_def)
  then have lt: "a < brk h" if "a \<in> fst ` set ns" for a
    using that seg_dom [OF assms(2)] heap_ok_less by blast
  then have same: "\<forall>a \<in> fst ` set ns. mem h' a = mem h a"
    using a(3) assms(3) unfolding heap_frame_def by blast
  then have "seg (mem h') p ns None" using assms(2) seg_frame [of ns "mem h'" "mem h"] by blast
  moreover have "brk h \<notin> fst ` set ns" using lt by blast
  then have "fst ` set ns \<inter> fst ` set (ts @ [(brk h, v)]) = {}"
    using assms(3) by simp
  ultimately show ?thesis using a same that by blast
qed

lemma sll_clone_loop_nodes:
  assumes "sll_nodes h t ts" "seg (mem h) p ns None" "distinct (map fst ns)"
      "fst ` set ns \<inter> fst ` set ts = {}"
  shows "\<exists>h' t' ts'. sll_clone_loop h p t = Some (h', t') \<and> sll_nodes h' t' ts'
    \<and> map snd ts' = map snd ts @ map snd ns \<and> heap_frame h h' (fst ` set ts)"
  using assms
proof (induction ns arbitrary: h p t ts)
  case Nil
  then show ?case by (subst sll_clone_loop.simps) auto
next
  case (Cons ax ns)
  obtain a x where ax: "ax = (a, x)" by force
  have p: "p = Some a" using Cons.prems(2) ax by simp
  have a: "a \<notin> fst ` set ns" "distinct (map fst ns)" using Cons.prems(3) ax by auto
  obtain h1 t1 where h1: "sll_append h t x = Some (h1, t1)" "sll_nodes h1 t1 (ts @ [(brk h, x)])"
      "seg (mem h1) p (ax # ns) None" "fst ` set (ax # ns) \<inter> fst ` set (ts @ [(brk h, x)]) = {}"
      "heap_frame h h1 (fst ` set ts)" "\<forall>a \<in> fst ` set (ax # ns). mem h1 a = mem h a"
    using sll_append_other [OF Cons.prems(1,2,4)] by blast
  have "seg (mem h1) (Some a) ((a, x) # ns) None" using h1(3) ax p by simp
  then obtain n where n: "mem h1 a = Some n" "nd_val n = x" "sll_next_select h1 a = Some (nd_flink n)"
      "seg (mem h1) (nd_flink n) ns None"
    by (rule sll_next_select_seg [OF _ a(1) refl])
  have na: "mem h a = Some n" using h1(6) n(1) ax by simp
  have d: "fst ` set ns \<inter> fst ` set (ts @ [(brk h, x)]) = {}" using h1(4) by auto
  obtain h' t' ts' where ih: "sll_clone_loop h1 (nd_flink n) t1 = Some (h', t')" "sll_nodes h' t' ts'"
      "map snd ts' = map snd (ts @ [(brk h, x)]) @ map snd ns" "heap_frame h1 h' (fst ` set (ts @ [(brk h, x)]))"
    using Cons.IH [OF h1(2) n(4) a(2) d] by blast
  have "heap_frame h h' (fst ` set ts)" using h1(5) ih(4) by (rule heap_frame_trans) auto
  moreover have "sll_clone_loop h p t = Some (h', t')"
    by (subst sll_clone_loop.simps) (simp add: p na n h1(1) ih(1))
  ultimately show ?case using ih(2,3) ax by auto
qed

text \<open>The values \<^verbatim>\<open>sll_merge\<close> collects: an element enters unless the comparison finds it already.\<close>

fun union_into :: "('a \<Rightarrow> 'a \<Rightarrow> int) \<Rightarrow> 'a list \<Rightarrow> 'a list \<Rightarrow> 'a list" where
  "union_into cmp acc [] = acc"
| "union_into cmp acc (x # xs) =
     union_into cmp (if \<exists>y \<in> set acc. cmp y x = 0 then acc else acc @ [x]) xs"

lemma sll_merge_loop_nodes:
  assumes "sll_nodes h t ts" "seg (mem h) p ns None" "distinct (map fst ns)"
      "fst ` set ns \<inter> fst ` set ts = {}"
  shows "\<exists>h' t' ts'. sll_merge_loop cmp h p t = Some (h', t') \<and> sll_nodes h' t' ts'
    \<and> map snd ts' = union_into cmp (map snd ts) (map snd ns) \<and> heap_frame h h' (fst ` set ts)
    \<and> (\<forall>a \<in> fst ` set ts'. a < brk h \<longrightarrow> a \<in> fst ` set ts)"
  using assms
proof (induction ns arbitrary: h p t ts)
  case Nil
  then show ?case by (subst sll_merge_loop.simps) auto
next
  case (Cons ax ns)
  obtain a x where ax: "ax = (a, x)" by force
  have p: "p = Some a" using Cons.prems(2) ax by simp
  have a: "a \<notin> fst ` set ns" "distinct (map fst ns)" using Cons.prems(3) ax by auto
  define found where "found = (\<exists>y \<in> snd ` set ts. cmp y x = 0)"
  have cont: "sll_contains cmp h t x = Some found"
    using sll_contains_nodes [OF Cons.prems(1)] by (simp add: found_def)
  define ts1 where "ts1 = (if found then ts else ts @ [(brk h, x)])"
  obtain h1 t1 where h1: "(if \<not> found then sll_append h t x else Some (h, t)) = Some (h1, t1)"
      "sll_nodes h1 t1 ts1" "seg (mem h1) p (ax # ns) None" "fst ` set (ax # ns) \<inter> fst ` set ts1 = {}"
      "heap_frame h h1 (fst ` set ts)" "\<forall>a \<in> fst ` set (ax # ns). mem h1 a = mem h a"
  proof (cases found)
    case True
    show ?thesis by (rule that [of h t]) (use Cons.prems True ts1_def in auto)
  next
    case False
    then show ?thesis
      using sll_append_other [OF Cons.prems(1,2,4), of x] that by (auto simp: ts1_def)
  qed
  have "seg (mem h1) (Some a) ((a, x) # ns) None" using h1(3) ax p by simp
  then obtain n where n: "mem h1 a = Some n" "nd_val n = x" "sll_next_select h1 a = Some (nd_flink n)"
      "seg (mem h1) (nd_flink n) ns None"
    by (rule sll_next_select_seg [OF _ a(1) refl])
  have na: "mem h a = Some n" using h1(6) n(1) ax by simp
  have d: "fst ` set ns \<inter> fst ` set ts1 = {}" using h1(4) by auto
  obtain h' t' ts' where ih: "sll_merge_loop cmp h1 (nd_flink n) t1 = Some (h', t')" "sll_nodes h' t' ts'"
      "map snd ts' = union_into cmp (map snd ts1) (map snd ns)" "heap_frame h1 h' (fst ` set ts1)"
      "\<forall>a \<in> fst ` set ts'. a < brk h1 \<longrightarrow> a \<in> fst ` set ts1"
    using Cons.IH [OF h1(2) n(4) a(2) d] by blast
  have "heap_frame h h' (fst ` set ts)"
    using h1(5) ih(4) by (rule heap_frame_trans) (auto simp: ts1_def)
  moreover have "sll_merge_loop cmp h p t = Some (h', t')"
    by (cases found; subst sll_merge_loop.simps; use p na n h1(1) ih(1) cont in simp)
  moreover have "map snd ts' = union_into cmp (map snd ts) (map snd (ax # ns))"
    using ih(3) ax by (simp add: ts1_def found_def)
  moreover have "\<forall>a \<in> fst ` set ts'. a < brk h \<longrightarrow> a \<in> fst ` set ts"
    using ih(5) h1(5) by (auto simp: ts1_def heap_frame_def split: if_splits)
  ultimately show ?case using ih(2) by blast
qed

section \<open>The contract of a double-ended list\<close>

fun push_all :: "('h \<Rightarrow> 'l \<Rightarrow> 'a \<Rightarrow> ('h \<times> 'l) option) \<Rightarrow> 'h \<Rightarrow> 'l \<Rightarrow> 'a list \<Rightarrow> ('h \<times> 'l) option" where
  "push_all push h l [] = Some (h, l)"
| "push_all push h l (x # xs) = do { (h1, l1) \<leftarrow> push h l x; push_all push h1 l1 xs }"

fun pop_n :: "('h \<Rightarrow> 'l \<Rightarrow> ('h \<times> 'l \<times> 'a option) option) \<Rightarrow> nat \<Rightarrow> 'h \<Rightarrow> 'l
    \<Rightarrow> ('h \<times> 'l \<times> 'a option list) option" where
  "pop_n pop 0 h l = Some (h, l, [])"
| "pop_n pop (Suc n) h l =
     do { (h1, l1, x) \<leftarrow> pop h l; (h2, l2, xs) \<leftarrow> pop_n pop n h1 l1; Some (h2, l2, x # xs) }"

locale seq_list =
  fixes rep :: "'h \<Rightarrow> 'l \<Rightarrow> 'a list \<Rightarrow> bool"
    and app :: "'h \<Rightarrow> 'l \<Rightarrow> 'a \<Rightarrow> ('h \<times> 'l) option"
    and prep :: "'h \<Rightarrow> 'l \<Rightarrow> 'a \<Rightarrow> ('h \<times> 'l) option"
    and hd_op :: "'h \<Rightarrow> 'l \<Rightarrow> ('h \<times> 'l \<times> 'a option) option"
    and tl_op :: "'h \<Rightarrow> 'l \<Rightarrow> ('h \<times> 'l \<times> 'a option) option"
  assumes app_rep: "rep h l xs \<Longrightarrow> \<exists>h' l'. app h l v = Some (h', l') \<and> rep h' l' (xs @ [v])"
    and prep_rep: "rep h l xs \<Longrightarrow> \<exists>h' l'. prep h l v = Some (h', l') \<and> rep h' l' (v # xs)"
    and hd_rep: "rep h l (x # xs) \<Longrightarrow> \<exists>h' l'. hd_op h l = Some (h', l', Some x) \<and> rep h' l' xs"
    and tl_rep: "rep h l (xs @ [x]) \<Longrightarrow> \<exists>h' l'. tl_op h l = Some (h', l', Some x) \<and> rep h' l' xs"
    and hd_empty: "rep h l [] \<Longrightarrow> hd_op h l = Some (h, l, None)"
    and tl_empty: "rep h l [] \<Longrightarrow> tl_op h l = Some (h, l, None)"
begin

lemma append_all:
  "rep h l xs \<Longrightarrow> \<exists>h' l'. push_all app h l ys = Some (h', l') \<and> rep h' l' (xs @ ys)"
proof (induction ys arbitrary: h l xs)
  case (Cons y ys)
  obtain h1 l1 where 1: "app h l y = Some (h1, l1)" "rep h1 l1 (xs @ [y])"
    using app_rep [OF Cons.prems] by blast
  then show ?case using Cons.IH [OF 1(2)] by simp
qed simp

lemma prepend_all:
  "rep h l xs \<Longrightarrow> \<exists>h' l'. push_all prep h l ys = Some (h', l') \<and> rep h' l' (rev ys @ xs)"
proof (induction ys arbitrary: h l xs)
  case (Cons y ys)
  obtain h1 l1 where 1: "prep h l y = Some (h1, l1)" "rep h1 l1 (y # xs)"
    using prep_rep [OF Cons.prems] by blast
  then show ?case using Cons.IH [OF 1(2)] by simp
qed simp

lemma heads:
  "rep h l (xs @ ys) \<Longrightarrow>
   \<exists>h' l'. pop_n hd_op (length xs) h l = Some (h', l', map Some xs) \<and> rep h' l' ys"
proof (induction xs arbitrary: h l)
  case (Cons x xs)
  obtain h1 l1 where 1: "hd_op h l = Some (h1, l1, Some x)" "rep h1 l1 (xs @ ys)"
    using hd_rep [of h l x "xs @ ys"] Cons.prems by auto
  then show ?case using Cons.IH [OF 1(2)] by auto
qed simp

lemma tails:
  "rep h l (xs @ rev ys) \<Longrightarrow>
   \<exists>h' l'. pop_n tl_op (length ys) h l = Some (h', l', map Some ys) \<and> rep h' l' xs"
proof (induction ys arbitrary: h l)
  case (Cons y ys)
  obtain h1 l1 where 1: "tl_op h l = Some (h1, l1, Some y)" "rep h1 l1 (xs @ rev ys)"
    using tl_rep [of h l "xs @ rev ys" y] Cons.prems by auto
  then show ?case using Cons.IH [OF 1(2)] by auto
qed simp

lemma queue_order:
  assumes "rep h l []"
  shows "\<exists>h1 l1 h2 l2. push_all app h l ys = Some (h1, l1)
    \<and> pop_n hd_op (length ys) h1 l1 = Some (h2, l2, map Some ys) \<and> rep h2 l2 []"
  using append_all [OF assms, of ys] heads [of _ _ ys "[]"] by fastforce

lemma stack_order:
  assumes "rep h l []"
  shows "\<exists>h1 l1 h2 l2. push_all app h l ys = Some (h1, l1)
    \<and> pop_n tl_op (length ys) h1 l1 = Some (h2, l2, map Some (rev ys)) \<and> rep h2 l2 []"
  using append_all [OF assms, of ys] tails [of _ _ "[]" "rev ys"] by fastforce

end

lemma map_snd_Cons: "x # xs = map snd ns \<Longrightarrow> \<exists>a ms. ns = (a, x) # ms \<and> xs = map snd ms"
  by (cases ns) auto

lemma map_snd_snoc: "xs @ [x] = map snd ns \<Longrightarrow> \<exists>a ms. ns = ms @ [(a, x)] \<and> xs = map snd ms"
  by (cases ns rule: rev_cases) auto

interpretation sl: seq_list sll_rep sll_append sll_prepend sll_head sll_tail
proof unfold_locales
  fix h :: "'a sll_heap" and l xs x v
  show "\<exists>h' l'. sll_append h l v = Some (h', l') \<and> sll_rep h' l' (xs @ [v])" if "sll_rep h l xs"
    using that sll_append_nodes [of h l _ v] unfolding sll_rep_def by fastforce
  show "\<exists>h' l'. sll_prepend h l v = Some (h', l') \<and> sll_rep h' l' (v # xs)" if "sll_rep h l xs"
    using that sll_prepend_nodes [of h l _ v] unfolding sll_rep_def by fastforce
  show "\<exists>h' l'. sll_head h l = Some (h', l', Some x) \<and> sll_rep h' l' xs" if "sll_rep h l (x # xs)"
    using that map_snd_Cons sll_head_nodes [of h l] unfolding sll_rep_def by fastforce
  show "\<exists>h' l'. sll_tail h l = Some (h', l', Some x) \<and> sll_rep h' l' xs" if "sll_rep h l (xs @ [x])"
    using that map_snd_snoc sll_tail_nodes [of h l] unfolding sll_rep_def by fastforce
  show "sll_head h l = Some (h, l, None)" if "sll_rep h l []"
    using that sll_first_None [of h l "[]"] by (auto simp: sll_rep_def sll_head_def)
  show "sll_tail h l = Some (h, l, None)" if "sll_rep h l []"
    using that by (auto simp: sll_rep_def sll_tail_def sll_nodes_def)
qed

section \<open>Properties\<close>

text \<open>
  C4: on a struct that represents the list \<open>xs\<close>, the operations of the single linked list never
  follow a dangling pointer and implement their list counterparts: append and prepend, head and tail
  with an empty list left alone, find the first element the comparison accepts, and remove exactly
  that element.
\<close>

theorem sll_operations_refine:
  assumes "sll_rep h l xs"
  shows "(\<exists>h' l'. sll_append h l v = Some (h', l') \<and> sll_rep h' l' (xs @ [v]))
    \<and> (\<exists>h' l'. sll_prepend h l v = Some (h', l') \<and> sll_rep h' l' (v # xs))
    \<and> (\<exists>h' l'. sll_head h l = Some (h', l', if xs = [] then None else Some (hd xs)) \<and> sll_rep h' l' (tl xs))
    \<and> (\<exists>h' l'. sll_tail h l = Some (h', l', if xs = [] then None else Some (last xs)) \<and> sll_rep h' l' (butlast xs))
    \<and> (sll_find cmp h l v d = Some (case find (\<lambda>x. cmp x v = 0) xs of None \<Rightarrow> d | Some x \<Rightarrow> x))
    \<and> (sll_contains cmp h l v = Some (\<exists>x \<in> set xs. cmp x v = 0))
    \<and> (\<exists>h' l'. sll_remove cmp h l v = Some (h', l') \<and> sll_rep h' l' (remove_first (\<lambda>x. cmp x v = 0) xs))
    \<and> (sl_size l = of_nat (length xs))"
proof (intro conjI)
  obtain ns where ns: "sll_nodes h l ns" "xs = map snd ns" using assms by (auto simp: sll_rep_def)
  show "\<exists>h' l'. sll_append h l v = Some (h', l') \<and> sll_rep h' l' (xs @ [v])"
    using assms by (rule sl.app_rep)
  show "\<exists>h' l'. sll_prepend h l v = Some (h', l') \<and> sll_rep h' l' (v # xs)"
    using assms by (rule sl.prep_rep)
  show "\<exists>h' l'. sll_head h l = Some (h', l', if xs = [] then None else Some (hd xs)) \<and> sll_rep h' l' (tl xs)"
    using assms sl.hd_empty [of h l] sl.hd_rep [of h l "hd xs" "tl xs"] by (cases xs) auto
  show "\<exists>h' l'. sll_tail h l = Some (h', l', if xs = [] then None else Some (last xs)) \<and> sll_rep h' l' (butlast xs)"
    using assms sl.tl_empty [of h l] sl.tl_rep [of h l "butlast xs" "last xs"] by (cases "xs = []") auto
  show "sll_find cmp h l v d = Some (case find (\<lambda>x. cmp x v = 0) xs of None \<Rightarrow> d | Some x \<Rightarrow> x)"
    using sll_find_nodes [OF ns(1)] ns(2) by simp
  show "sll_contains cmp h l v = Some (\<exists>x \<in> set xs. cmp x v = 0)"
    using sll_contains_nodes [OF ns(1)] ns(2) by simp
  show "\<exists>h' l'. sll_remove cmp h l v = Some (h', l') \<and> sll_rep h' l' (remove_first (\<lambda>x. cmp x v = 0) xs)"
    using sll_remove_nodes [OF ns(1), of cmp v] remove_first_snd [of "\<lambda>x. cmp x v = 0" ns] ns(2)
    unfolding sll_rep_def by metis
  show "sl_size l = of_nat (length xs)" using ns by (simp add: sll_nodes_def)
qed

definition two_nodes :: "u8 sll_heap" where
  "two_nodes = \<lparr>mem = [0 \<mapsto> \<lparr>nd_flink = Some 1, nd_val = 7\<rparr>, 1 \<mapsto> \<lparr>nd_flink = None, nd_val = 9\<rparr>], brk = 2\<rparr>"

definition two_list :: sll where
  "two_list = \<lparr>sl_size = 2, sl_first = Some 0, sl_last = Some 1\<rparr>"

lemma two_nodes_rep: "sll_nodes two_nodes two_list [(0, 7), (1, 9)]"
  by (simp add: sll_nodes_def two_nodes_def two_list_def heap_ok_def)

lemma two_list_rep: "sll_rep two_nodes two_list [7, 9]"
  unfolding sll_rep_def using two_nodes_rep by (intro exI [of _ "[(0, 7), (1, 9)]"]) simp

theorem sll_operations_refine_witness:
  "sll_contains (\<lambda>x y. if x = y then 0 else 1) two_nodes two_list 7 = Some True
   \<and> (\<exists>h' l'. sll_remove (\<lambda>x y. if x = y then 0 else 1) two_nodes two_list 7 = Some (h', l') \<and> sll_rep h' l' [9])"
  using sll_operations_refine [OF two_list_rep, of 7 "\<lambda>x y. if x = y then 0 else 1" 0] by simp

text \<open>
  C26: cloning appends the values of the source to a target that shares no node with it, and merging
  builds a new list; both leave the source lists as they were. The merge starts with the second
  list, then adds the elements of the first one, and skips an element that compares equal to one
  already collected.
\<close>

theorem sll_clone_merge_refine:
  assumes "sll_nodes h la as" "sll_nodes h lb bs" "fst ` set as \<inter> fst ` set bs = {}"
  shows "(\<exists>h' t. sll_clone h la lb = Some (h', t) \<and> sll_rep h' t (map snd bs @ map snd as)
           \<and> sll_nodes h' la as)
    \<and> (\<exists>h' t. sll_merge cmp h la lb = Some (h', t)
           \<and> sll_rep h' t (union_into cmp (union_into cmp [] (map snd bs)) (map snd as))
           \<and> sll_nodes h' la as \<and> sll_nodes h' lb bs)"
proof -
  have ok: "heap_ok h" and sa: "seg (mem h) (sl_first la) as None" "distinct (map fst as)"
    and sb: "seg (mem h) (sl_first lb) bs None" "distinct (map fst bs)"
    using assms by (simp_all add: sll_nodes_def)
  note init = sll_init_nodes [OF ok]
  obtain h' t ts where c: "sll_clone h la lb = Some (h', t)" "sll_nodes h' t ts"
      "map snd ts = map snd bs @ map snd as" "heap_frame h h' (fst ` set bs)"
    using sll_clone_loop_nodes [OF assms(2) sa assms(3)] by (auto simp: sll_clone_def)
  have n': "sll_nodes h' la as"
    using sll_nodes_frame [OF assms(1) c(4)] assms(3) c(2) by (auto simp: sll_nodes_def [of h' t])
  obtain h1 t1 ts1 where 1: "sll_merge_loop cmp h (sl_first lb) sll_init = Some (h1, t1)"
      "sll_nodes h1 t1 ts1" "map snd ts1 = union_into cmp [] (map snd bs)" "heap_frame h h1 {}"
      "\<forall>a \<in> fst ` set ts1. \<not> a < brk h"
    using sll_merge_loop_nodes [OF init sb, of cmp] by auto
  have n1: "sll_nodes h1 la as"
    using assms 1(2,4) sll_nodes_frame [of h _ _ h1 "{}"] by (auto simp: sll_nodes_def [of h1 t1])
  have "fst ` set as \<inter> fst ` set ts1 = {}" using 1(5) sll_nodes_addr [OF assms(1)] by blast
  moreover have "seg (mem h1) (sl_first la) as None" using n1 by (simp add: sll_nodes_def)
  ultimately obtain h2 t2 ts2 where 2: "sll_merge_loop cmp h1 (sl_first la) t1 = Some (h2, t2)"
      "sll_nodes h2 t2 ts2" "map snd ts2 = union_into cmp (map snd ts1) (map snd as)"
      "heap_frame h1 h2 (fst ` set ts1)"
    using sll_merge_loop_nodes [OF 1(2) _ sa(2), of "sl_first la" cmp] by blast
  have "heap_frame h h2 {}" using 1(4) 2(4) by (rule heap_frame_trans) (use 1(5) in blast)
  then have n2: "sll_nodes h2 la as" "sll_nodes h2 lb bs"
    using assms 2(2) sll_nodes_frame [of h _ _ h2 "{}"] by (auto simp: sll_nodes_def [of h2 t2])
  have "sll_merge cmp h la lb = Some (h2, t2)" by (simp add: sll_merge_def 1(1) 2(1))
  then show ?thesis using c n' n2 2(2,3) 1(3) unfolding sll_rep_def by metis
qed

theorem sll_clone_merge_refine_witness:
  "\<exists>h' t. sll_clone two_nodes two_list sll_init = Some (h', t)
     \<and> sll_rep h' t [7, 9] \<and> sll_nodes h' two_list [(0, 7), (1, 9)]"
proof -
  have "sll_nodes two_nodes sll_init []" using two_nodes_rep by (simp add: sll_nodes_def sll_init_def)
  from sll_clone_merge_refine [OF two_nodes_rep this, of "\<lambda>x y. if x = y then 0 else 1"]
  show ?thesis by simp
qed

text \<open>
  C27: \<^verbatim>\<open>sll_clear\<close> frees every node of the list, but keeps the last pointer. Unless the list was
  empty before, the cleared struct represents no list at all; appending to it still works, while
  prepending an element and then appending one writes through the freed last node.
\<close>

theorem sll_clear_keeps_last:
  assumes "sll_nodes h l ns" "ns \<noteq> []"
  shows "\<exists>h' l'. sll_clear h l = Some (h', l') \<and> (\<forall>a \<in> fst ` set ns. mem h' a = None)
    \<and> (\<nexists>xs. sll_rep h' l' xs)
    \<and> (\<exists>h2 l2. sll_append h' l' v = Some (h2, l2) \<and> sll_rep h2 l2 [v])
    \<and> (\<exists>h2 l2. sll_prepend h' l' v = Some (h2, l2) \<and> sll_append h2 l2 w = None)"
proof -
  have sg: "seg (mem h) (sl_first l) ns None" "distinct (map fst ns)" "heap_ok h"
    using assms by (simp_all add: sll_nodes_def)
  obtain b where b: "sl_last l = Some b" "b \<in> fst ` set ns"
    using assms by (auto simp: sll_nodes_def last_addr_def)
  define h' where "h' = h\<lparr>mem := (mem h) |` (- fst ` set ns)\<rparr>"
  have ok: "heap_ok h'" "mem h' b = None" "brk h' = brk h"
    using sg(3) b(2) by (simp_all add: h'_def heap_ok_def restrict_map_def)
  have lt: "b < brk h" using sll_nodes_addr [OF assms(1) b(2)] by simp
  let ?l = "l\<lparr>sl_first := None, sl_size := 0\<rparr>"
  have "sll_clear h l = Some (h', ?l)"
    by (simp add: sll_clear_def sll_clear_loop_seg [OF sg(1,2)] h'_def)
  moreover have "\<forall>a \<in> fst ` set ns. mem h' a = None" by (simp add: h'_def restrict_map_def)
  moreover have "\<not> sll_nodes h' ?l ms" for ms
    using sll_first_None [of h' ?l ms] b(1) by (auto simp: sll_nodes_def)
  moreover have "sll_nodes (h'\<lparr>brk := Suc (brk h'), mem := (mem h')(brk h' \<mapsto> \<lparr>nd_flink = None, nd_val = v\<rparr>)\<rparr>)
      (?l\<lparr>sl_first := Some (brk h'), sl_last := Some (brk h'), sl_size := 1\<rparr>) [(brk h', v)]"
    using ok(1) by (simp add: sll_nodes_def)
  then have "\<exists>h2 l2. sll_append h' ?l v = Some (h2, l2) \<and> sll_rep h2 l2 [v]"
    by (auto simp: sll_append_def heap_calloc_def sll_rep_def intro!: exI [of _ "[(brk h', v)]"])
  moreover have "\<exists>h2 l2. sll_prepend h' ?l v = Some (h2, l2) \<and> sll_append h2 l2 w = None"
    using b ok lt by (simp add: sll_prepend_def sll_append_def heap_calloc_def set_flink_def)
  ultimately show ?thesis by (auto simp: sll_rep_def)
qed

theorem sll_clear_keeps_last_witness:
  "\<exists>h' l'. sll_clear two_nodes two_list = Some (h', l') \<and> (\<nexists>xs. sll_rep h' l' xs)"
  using sll_clear_keeps_last [OF two_nodes_rep, of 5 6] by auto

end
