(* ===== verification/Np_Settings.thy ===== *)
theory Np_Settings
  imports Complex_Main
begin

text \<open>Constants of \<^verbatim>\<open>include/np_settings.h\<close> that several components use. Times are in seconds.\<close>

definition NP_PI :: real where
  "NP_PI = 3.1415926535"

definition BAD_LINK :: real where
  "BAD_LINK = 0.25"

definition MISC_SEND_PINGS_SEC :: real where
  "MISC_SEND_PINGS_SEC = NP_PI * 10"

definition BAD_LINK_REMOVE_GRACETIME :: real where
  "BAD_LINK_REMOVE_GRACETIME = MISC_SEND_PINGS_SEC * 3 + 3"

end
