(* ===== verification/Np_Heap.thy ===== *)
theory Np_Heap
  imports Np_Prelude "HOL-Library.Monad_Syntax"
begin

text \<open>
  The array-embedded binary heap that \<^verbatim>\<open>NP_BINHEAP_GENERATE_IMPLEMENTATION\<close> of
  \<^verbatim>\<open>include/util/np_heap.h\<close> generates for an element type. Slot 0 of the array is a sentinel, the
  elements are in the slots \<open>1..count\<close>. The indices are \<^verbatim>\<open>uint16_t\<close>: the index of a child wraps
  around at \<open>2 ^ 16\<close>, which is written out. An assertion that fails and an access outside of the
  array are \<open>None\<close>. The comparison of the elements \<open>lt\<close>, the priority \<open>prio\<close> and the zeroed element
  \<open>zero\<close> are the element type's part, hence parameters.

  The heap order is \<open>ordered\<close>; \<open>bag\<close> is the multiset of the elements. The locale \<open>pqueue\<close> is the
  contract of a priority queue, which the job queue relies on.
\<close>

section \<open>The heap\<close>

record 'a binheap_node =
  bn_id :: nat
  bn_priority :: nat
  bn_sentinel :: bool
  bn_data :: 'a

record 'a binheap =
  bh_count :: nat
  bh_size :: nat
  bh_elements :: "'a binheap_node list"

definition heap_left :: "nat \<Rightarrow> nat" where
  "heap_left x = (2 * x) mod 65536"

definition heap_right :: "nat \<Rightarrow> nat" where
  "heap_right x = (2 * x + 1) mod 65536"

definition heap_parent :: "nat \<Rightarrow> nat" where
  "heap_parent x = (if x = 1 then 1 else x div 2)"

definition elem_at :: "'a binheap \<Rightarrow> nat \<Rightarrow> 'a binheap_node option" where
  "elem_at h i = (if i < length (bh_elements h) then Some (bh_elements h ! i) else None)"

definition set_at :: "nat \<Rightarrow> 'a binheap_node \<Rightarrow> 'a binheap \<Rightarrow> 'a binheap option" where
  "set_at i n h =
     (if i < length (bh_elements h) then Some (h\<lparr>bh_elements := (bh_elements h)[i := n]\<rparr>) else None)"

definition compare_at :: "('a \<Rightarrow> 'a \<Rightarrow> bool) \<Rightarrow> 'a binheap \<Rightarrow> nat \<Rightarrow> nat \<Rightarrow> bool option" where
  "compare_at lt h i j =
     do { a \<leftarrow> elem_at h i; b \<leftarrow> elem_at h j; Some (lt (bn_data a) (bn_data b)) }"

definition heap_swap :: "'a binheap \<Rightarrow> nat \<Rightarrow> nat \<Rightarrow> 'a binheap option" where
  "heap_swap h x y =
     do { t \<leftarrow> elem_at h x; b \<leftarrow> elem_at h y; h1 \<leftarrow> set_at x b h; set_at y t h1 }"

section \<open>Operations\<close>

partial_function (option) binheapify ::
  "('a \<Rightarrow> 'a \<Rightarrow> bool) \<Rightarrow> 'a binheap \<Rightarrow> nat \<Rightarrow> 'a binheap option" where
  "binheapify lt h i =
     do {
       cl \<leftarrow> (if heap_left i \<le> bh_count h then compare_at lt h (heap_left i) i else Some False);
       let largest = (if cl then heap_left i else i);
       cr \<leftarrow> (if heap_right i \<le> bh_count h then compare_at lt h (heap_right i) largest else Some False);
       let largest' = (if cr then heap_right i else largest);
       (if largest' \<noteq> i
        then do { h1 \<leftarrow> heap_swap h i largest'; binheapify lt h1 largest' }
        else Some h)
     }"

definition binheap_first :: "'a binheap \<Rightarrow> 'a option" where
  "binheap_first h =
     (if bh_count h > 0
      then do { n \<leftarrow> elem_at h 1; (if bn_sentinel n then None else Some (bn_data n)) }
      else None)"

definition binheap_is_empty :: "'a binheap \<Rightarrow> bool" where
  "binheap_is_empty h \<longleftrightarrow> bh_count h = 0"

definition binheap_head :: "('a \<Rightarrow> 'a \<Rightarrow> bool) \<Rightarrow> 'a binheap \<Rightarrow> ('a binheap \<times> 'a) option" where
  "binheap_head lt h =
     do {
       ret \<leftarrow> binheap_first h;
       n \<leftarrow> elem_at h (bh_count h);
       h1 \<leftarrow> set_at 1 n h;
       s \<leftarrow> elem_at h1 0;
       h2 \<leftarrow> set_at (bh_count h) s h1;
       h3 \<leftarrow> binheapify lt (h2\<lparr>bh_count := bh_count h2 - 1\<rparr>) 1;
       Some (h3, ret)
     }"

text \<open>The loop of \<^verbatim>\<open>binheap_insert\<close> that moves the new element towards the root.\<close>

function insert_loop :: "('a \<Rightarrow> 'a \<Rightarrow> bool) \<Rightarrow> 'a binheap \<Rightarrow> nat \<Rightarrow> 'a binheap option" where
  "insert_loop lt h i =
     (if i > 1
      then do {
        c \<leftarrow> compare_at lt h i (heap_parent i);
        (if c then do { h1 \<leftarrow> heap_swap h i (heap_parent i); insert_loop lt h1 (heap_parent i) } else Some h)
      }
      else Some h)"
  by pat_completeness auto
termination by (relation "measure (\<lambda>(lt, h, i). i)") (auto simp: heap_parent_def)

declare insert_loop.simps [simp del]

definition binheap_insert ::
  "('a \<Rightarrow> 'a \<Rightarrow> bool) \<Rightarrow> ('a \<Rightarrow> nat) \<Rightarrow> 'a binheap \<Rightarrow> 'a \<Rightarrow> 'a binheap option" where
  "binheap_insert lt prio h element =
     (if bh_count h < bh_size h
      then do {
        let i = bh_count h + 1;
        n \<leftarrow> elem_at h i;
        h1 \<leftarrow> set_at i (n\<lparr>bn_data := element, bn_sentinel := False, bn_priority := prio element\<rparr>) h;
        insert_loop lt (h1\<lparr>bh_count := i\<rparr>) i
      }
      else None)"

definition binheap_remove ::
  "('a \<Rightarrow> 'a \<Rightarrow> bool) \<Rightarrow> 'a \<Rightarrow> 'a binheap \<Rightarrow> nat \<Rightarrow> ('a binheap \<times> 'a) option" where
  "binheap_remove lt zero h i =
     (if i \<le> bh_count h \<and> i \<ge> 1
      then do {
        d \<leftarrow> elem_at h i;
        h1 \<leftarrow> heap_swap h i (bh_count h);
        h2 \<leftarrow> binheapify lt (h1\<lparr>bh_count := bh_count h1 - 1\<rparr>) i;
        Some (h2, bn_data d)
      }
      else Some (h, zero))"

definition binheap_increase_idx_priority ::
  "('a \<Rightarrow> 'a \<Rightarrow> bool) \<Rightarrow> ('a \<Rightarrow> nat) \<Rightarrow> 'a binheap \<Rightarrow> nat \<Rightarrow> 'a binheap option" where
  "binheap_increase_idx_priority lt prio h i =
     (if i \<le> bh_count h \<and> i \<ge> 1
      then do {
        n \<leftarrow> elem_at h i;
        h1 \<leftarrow> set_at i (n\<lparr>bn_priority := prio (bn_data n)\<rparr>) h;
        h2 \<leftarrow> heap_swap h1 i (bh_count h1);
        binheapify lt h2 i
      }
      else None)"

definition binheap_init :: "'a \<Rightarrow> nat \<Rightarrow> 'a binheap" where
  "binheap_init zero max_nodes =
     (let z = \<lparr>bn_id = 0, bn_priority = 0, bn_sentinel = False, bn_data = zero\<rparr>
      in \<lparr>bh_count = 0, bh_size = max_nodes,
          bh_elements = (replicate (max_nodes + 1) z)[0 := z\<lparr>bn_sentinel := True\<rparr>]\<rparr>)"

text \<open>
  \<^verbatim>\<open>memset\<close> clears the first \<open>size\<close> bytes of the array only; which nodes these touch depends on the
  layout of the element type, so that its effect is the parameter \<open>zap\<close>.
\<close>

definition binheap_clear ::
  "('a binheap_node list \<Rightarrow> 'a binheap_node list) \<Rightarrow> 'a binheap \<Rightarrow> 'a binheap option" where
  "binheap_clear zap h =
     do {
       let h1 = h\<lparr>bh_elements := zap (bh_elements h)\<rparr>;
       n \<leftarrow> elem_at h1 0;
       h2 \<leftarrow> set_at 0 (n\<lparr>bn_sentinel := True\<rparr>) h1;
       Some (h2\<lparr>bh_count := 0\<rparr>)
     }"

definition binheap_compare_priority :: "'a binheap_node \<Rightarrow> 'a binheap_node \<Rightarrow> bool" where
  "binheap_compare_priority i j \<longleftrightarrow> bn_priority i < bn_priority j"

definition binheap_find :: "'a binheap \<Rightarrow> nat \<Rightarrow> nat" where
  "binheap_find h uid =
     (case find (\<lambda>i. bn_id (bh_elements h ! i) = uid) [1..<Suc (bh_count h)] of
        None \<Rightarrow> 0 | Some i \<Rightarrow> i)"

section \<open>Order and contents\<close>

text \<open>
  The order is stated over the data as a function \<open>d\<close> of the index, for \<open>n\<close> elements. In the middle
  of a loop it holds apart from the place \<open>i\<close> at which the loop is.
\<close>

definition ordered_upto :: "('a \<Rightarrow> 'a \<Rightarrow> bool) \<Rightarrow> nat \<Rightarrow> (nat \<Rightarrow> 'a) \<Rightarrow> bool" where
  "ordered_upto lt n d \<longleftrightarrow> (\<forall>j. 2 \<le> j \<longrightarrow> j \<le> n \<longrightarrow> \<not> lt (d j) (d (j div 2)))"

definition down_inv :: "('a \<Rightarrow> 'a \<Rightarrow> bool) \<Rightarrow> nat \<Rightarrow> (nat \<Rightarrow> 'a) \<Rightarrow> nat \<Rightarrow> bool" where
  "down_inv lt n d i \<longleftrightarrow>
     (\<forall>j. 2 \<le> j \<longrightarrow> j \<le> n \<longrightarrow> j div 2 \<noteq> i \<longrightarrow> \<not> lt (d j) (d (j div 2)))
     \<and> (\<forall>j. 2 \<le> i \<longrightarrow> j \<le> n \<longrightarrow> j div 2 = i \<longrightarrow> \<not> lt (d j) (d (i div 2)))"

definition up_inv :: "('a \<Rightarrow> 'a \<Rightarrow> bool) \<Rightarrow> nat \<Rightarrow> (nat \<Rightarrow> 'a) \<Rightarrow> nat \<Rightarrow> bool" where
  "up_inv lt n d i \<longleftrightarrow>
     (\<forall>j. 2 \<le> j \<longrightarrow> j \<le> n \<longrightarrow> j \<noteq> i \<longrightarrow> \<not> lt (d j) (d (j div 2)))
     \<and> (\<forall>j. 2 \<le> i \<longrightarrow> j \<le> n \<longrightarrow> j div 2 = i \<longrightarrow> \<not> lt (d j) (d (i div 2)))"

definition dat :: "'a binheap \<Rightarrow> nat \<Rightarrow> 'a" where
  "dat h i = bn_data (bh_elements h ! i)"

definition ordered :: "('a \<Rightarrow> 'a \<Rightarrow> bool) \<Rightarrow> 'a binheap \<Rightarrow> bool" where
  "ordered lt h \<longleftrightarrow> ordered_upto lt (bh_count h) (dat h)"

definition bag :: "'a binheap \<Rightarrow> 'a multiset" where
  "bag h = mset (map bn_data (take (bh_count h) (tl (bh_elements h))))"

text \<open>The bound on the size keeps the index of a child from wrapping around.\<close>

definition heap_wf :: "'a binheap \<Rightarrow> bool" where
  "heap_wf h \<longleftrightarrow> length (bh_elements h) = bh_size h + 1 \<and> bh_count h \<le> bh_size h
     \<and> bh_size h < 32768 \<and> (\<forall>i. 1 \<le> i \<longrightarrow> i \<le> bh_count h \<longrightarrow> \<not> bn_sentinel (bh_elements h ! i))"

definition heap_inv :: "('a \<Rightarrow> 'a \<Rightarrow> bool) \<Rightarrow> 'a binheap \<Rightarrow> bool" where
  "heap_inv lt h \<longleftrightarrow> heap_wf h \<and> ordered lt h"

definition swapped :: "'a binheap \<Rightarrow> nat \<Rightarrow> nat \<Rightarrow> 'a binheap" where
  "swapped h i j = h\<lparr>bh_elements := (bh_elements h)[i := bh_elements h ! j, j := bh_elements h ! i]\<rparr>"

lemma heap_swap_eq:
  "heap_wf h \<Longrightarrow> i \<le> bh_size h \<Longrightarrow> j \<le> bh_size h \<Longrightarrow> heap_swap h i j = Some (swapped h i j)"
  by (simp add: heap_swap_def elem_at_def set_at_def heap_wf_def swapped_def)

lemma compare_at_eq:
  "heap_wf h \<Longrightarrow> i \<le> bh_size h \<Longrightarrow> j \<le> bh_size h \<Longrightarrow> compare_at lt h i j = Some (lt (dat h i) (dat h j))"
  by (simp add: compare_at_def elem_at_def heap_wf_def dat_def)

lemma swapped_fields [simp]:
  "bh_count (swapped h i j) = bh_count h" "bh_size (swapped h i j) = bh_size h"
  by (simp_all add: swapped_def)

lemma swapped_dat:
  "heap_wf h \<Longrightarrow> i \<le> bh_size h \<Longrightarrow> j \<le> bh_size h \<Longrightarrow>
   dat (swapped h i j) = (dat h)(i := dat h j, j := dat h i)"
  by (auto simp: dat_def swapped_def heap_wf_def nth_list_update fun_eq_iff)

lemma swapped_wf:
  "heap_wf h \<Longrightarrow> 1 \<le> i \<Longrightarrow> i \<le> bh_count h \<Longrightarrow> 1 \<le> j \<Longrightarrow> j \<le> bh_count h \<Longrightarrow> heap_wf (swapped h i j)"
  by (auto simp: swapped_def heap_wf_def nth_list_update)

lemma swapped_bag:
  assumes "heap_wf h" "1 \<le> i" "i \<le> bh_count h" "1 \<le> j" "j \<le> bh_count h"
  shows "bag (swapped h i j) = bag h"
proof -
  let ?xs = "take (bh_count h) (tl (bh_elements h))"
  have len: "length ?xs = bh_count h" using assms(1) by (simp add: heap_wf_def)
  have el: "bh_elements h = hd (bh_elements h) # tl (bh_elements h)"
    using assms(1) by (cases "bh_elements h") (auto simp: heap_wf_def)
  have nth: "?xs ! (k - 1) = bh_elements h ! k" if "1 \<le> k" "k \<le> bh_count h" for k
    using that by (subst (2) el) (simp add: nth_Cons')
  have tl_upd: "tl (xs[k := y]) = (tl xs)[k - 1 := y]" if "1 \<le> k" for xs :: "'a binheap_node list" and k y
    using that by (cases xs; cases k) auto
  have "take (bh_count h) (tl (bh_elements (swapped h i j))) = ?xs[i - 1 := ?xs ! (j - 1), j - 1 := ?xs ! (i - 1)]"
    using assms nth by (simp add: swapped_def tl_upd take_update_swap)
  moreover have "mset (?xs[i - 1 := ?xs ! (j - 1), j - 1 := ?xs ! (i - 1)]) = mset ?xs"
    by (rule mset_swap) (use assms(2-5) len in linarith)+
  ultimately show ?thesis by (simp only: bag_def mset_map swapped_fields)
qed

lemma bag_dat:
  assumes "bh_count h < length (bh_elements h)"
  shows "bag h = mset (map (dat h) [1..<Suc (bh_count h)])"
proof -
  have "map bn_data (take (bh_count h) (tl (bh_elements h))) = map (dat h) [1..<Suc (bh_count h)]"
    using assms by (intro nth_equalityI) (auto simp: nth_tl dat_def simp del: upt_Suc)
  then show ?thesis by (simp only: bag_def)
qed

lemma bag_wf: "heap_wf h \<Longrightarrow> bag h = mset (map (dat h) [1..<Suc (bh_count h)])"
  by (rule bag_dat) (simp add: heap_wf_def)

lemma mset_dat_cong:
  "(\<And>j. 1 \<le> j \<Longrightarrow> j \<le> n \<Longrightarrow> d j = e j) \<Longrightarrow> mset (map d [1..<Suc n]) = mset (map e [1..<Suc n])"
  by (rule arg_cong [where f = mset]) (auto simp del: upt_Suc)

lemma bag_empty [simp]: "bh_count h = 0 \<Longrightarrow> bag h = {#}"
  by (simp add: bag_def)

lemma bag_size: "heap_wf h \<Longrightarrow> size (bag h) = bh_count h"
  by (simp add: bag_wf del: upt_Suc)

lemma binheap_first_eq: "heap_wf h \<Longrightarrow> bh_count h > 0 \<Longrightarrow> binheap_first h = Some (dat h 1)"
  by (simp add: binheap_first_def elem_at_def heap_wf_def dat_def)

lemma binheap_init_wf:
  "max_nodes < 32768 \<Longrightarrow> heap_wf (binheap_init zero max_nodes) \<and> bag (binheap_init zero max_nodes) = {#}"
  by (simp add: binheap_init_def heap_wf_def Let_def)

section \<open>The loops restore the order\<close>

fun insert_all :: "('a \<Rightarrow> 'a \<Rightarrow> bool) \<Rightarrow> ('a \<Rightarrow> nat) \<Rightarrow> 'a binheap \<Rightarrow> 'a list \<Rightarrow> 'a binheap option" where
  "insert_all lt prio h [] = Some h"
| "insert_all lt prio h (x # xs) = do { h1 \<leftarrow> binheap_insert lt prio h x; insert_all lt prio h1 xs }"

fun drain :: "('a \<Rightarrow> 'a \<Rightarrow> bool) \<Rightarrow> nat \<Rightarrow> 'a binheap \<Rightarrow> 'a list option" where
  "drain lt 0 h = Some []"
| "drain lt (Suc n) h = do { (h1, x) \<leftarrow> binheap_head lt h; xs \<leftarrow> drain lt n h1; Some (x # xs) }"

locale weak_order =
  fixes lt :: "'a \<Rightarrow> 'a \<Rightarrow> bool"
  assumes asym: "lt a b \<Longrightarrow> \<not> lt b a"
    and ntrans: "\<not> lt a b \<Longrightarrow> \<not> lt b c \<Longrightarrow> \<not> lt a c"
begin

lemma down_step:
  assumes "down_inv lt n d i" "1 \<le> i" "m div 2 = i" "m \<le> n" "lt (d m) (d i)"
    "\<And>k. k div 2 = i \<Longrightarrow> k \<le> n \<Longrightarrow> \<not> lt (d k) (d m)"
  shows "down_inv lt n (d(i := d m, m := d i)) m"
proof -
  have m: "i < m" "2 \<le> m" using assms(2,3) by auto
  have one: "\<not> lt (d j) (d (j div 2))" if "2 \<le> j" "j \<le> n" "j div 2 \<noteq> i" for j
    using assms(1) that by (simp add: down_inv_def)
  have two: "\<not> lt (d m) (d (i div 2))" if "2 \<le> i"
    using assms(1,3,4) that by (simp add: down_inv_def)
  have 3: "j div 2 \<noteq> j" if "2 \<le> j" for j :: nat using that by auto
  show ?thesis unfolding down_inv_def
  proof (intro conjI allI impI)
    fix j assume j: "2 \<le> j" "j \<le> n" "j div 2 \<noteq> m"
    consider "j = m" | "j = i" | "j \<noteq> m" "j \<noteq> i" "j div 2 = i" | "j \<noteq> m" "j \<noteq> i" "j div 2 \<noteq> i"
      by blast
    then show "\<not> lt ((d(i := d m, m := d i)) j) ((d(i := d m, m := d i)) (j div 2))"
    proof cases
      case 1
      then show ?thesis using asym [OF assms(5)] assms(3) m by simp
    next
      case 2
      then have "i div 2 \<noteq> i" "i div 2 \<noteq> m" using 3 [OF j(1)] m by simp_all
      then show ?thesis using 2 two j(1) m by simp
    next
      case 3
      then show ?thesis using assms(6) [OF 3(3) j(2)] m by simp
    next
      case 4
      then show ?thesis using one [OF j(1,2)] j(3) by simp
    qed
  next
    fix j assume j: "2 \<le> m" "j \<le> n" "j div 2 = m"
    then have "j \<noteq> m" "j \<noteq> i" "2 \<le> j" using 3 [of j] m by auto
    then show "\<not> lt ((d(i := d m, m := d i)) j) ((d(i := d m, m := d i)) (m div 2))"
      using one [of j] j m assms(3) by simp
  qed
qed

lemma down_done:
  assumes "down_inv lt n d i" "\<And>k. k div 2 = i \<Longrightarrow> 2 \<le> k \<Longrightarrow> k \<le> n \<Longrightarrow> \<not> lt (d k) (d i)"
  shows "ordered_upto lt n d"
  using assms unfolding down_inv_def ordered_upto_def by blast

lemma up_step:
  assumes "up_inv lt n d i" "2 \<le> i" "i \<le> n" "lt (d i) (d (i div 2))"
  shows "up_inv lt n (d(i := d (i div 2), i div 2 := d i)) (i div 2)"
proof -
  define p where "p = i div 2"
  have p: "p < i" "1 \<le> p" using assms(2) by (auto simp: p_def)
  have one: "\<not> lt (d j) (d (j div 2))" if "2 \<le> j" "j \<le> n" "j \<noteq> i" for j
    using assms(1) that by (simp add: up_inv_def)
  have two: "\<not> lt (d j) (d p)" if "j \<le> n" "j div 2 = i" for j
    using assms(1,2) that by (simp add: up_inv_def p_def)
  have four: "\<not> lt (d p) (d i)" using asym [OF assms(4)] by (simp add: p_def)
  show ?thesis unfolding up_inv_def p_def [symmetric]
  proof (intro conjI allI impI)
    fix j assume j: "2 \<le> j" "j \<le> n" "j \<noteq> p"
    consider "j = i" | "j \<noteq> i" "j div 2 = i" | "j \<noteq> i" "j div 2 = p" | "j \<noteq> i" "j div 2 \<noteq> i" "j div 2 \<noteq> p"
      by blast
    then show "\<not> lt ((d(i := d p, p := d i)) j) ((d(i := d p, p := d i)) (j div 2))"
    proof cases
      case 1
      then have "j div 2 = p" by (simp add: p_def)
      then show ?thesis using 1 four p by simp
    next
      case 2
      then show ?thesis using two [OF j(2)] j(3) p by simp
    next
      case 3
      then have "\<not> lt (d j) (d p)" using one [OF j(1,2)] by simp
      then show ?thesis using 3 j(3) p four ntrans [of "d j" "d p" "d i"] by simp
    next
      case 4
      then show ?thesis using one [OF j(1,2)] j(3) by simp
    qed
  next
    fix j assume j: "2 \<le> p" "j \<le> n" "j div 2 = p"
    have pp: "\<not> lt (d p) (d (p div 2))" using one [of p] j p assms(3) by simp
    have ne: "p div 2 \<noteq> p" "p div 2 \<noteq> i" "2 \<le> j" "j \<noteq> p" using j p by auto
    have "\<not> lt (d j) (d (p div 2))" if "j \<noteq> i"
      using one [OF ne(3) j(2) that] j(3) pp ntrans [of "d j" "d p" "d (p div 2)"] by simp
    then show "\<not> lt ((d(i := d p, p := d i)) j) ((d(i := d p, p := d i)) (p div 2))"
      using pp ne p by simp
  qed
qed

lemma up_done:
  assumes "up_inv lt n d i" "i < 2 \<or> \<not> lt (d i) (d (i div 2))"
  shows "ordered_upto lt n d"
  using assms unfolding up_inv_def ordered_upto_def by fastforce

lemma ordered_root_least:
  assumes "ordered_upto lt n d" "1 \<le> j" "j \<le> n"
  shows "\<not> lt (d j) (d 1)"
  using assms(2,3)
proof (induction j rule: less_induct)
  case (less j)
  show ?case
  proof (cases "j = 1")
    case True
    then show ?thesis using asym by blast
  next
    case False
    then have "2 \<le> j" using less.prems by simp
    then show ?thesis
      using less.IH [of "j div 2"] less.prems assms(1) ntrans [of "d j" "d (j div 2)" "d 1"]
      by (auto simp: ordered_upto_def)
  qed
qed

lemma binheapify_unfold:
  assumes "heap_wf h" "1 \<le> i" "i \<le> bh_size h"
  shows "binheapify lt h i =
    (let a = (if 2 * i \<le> bh_count h \<and> lt (dat h (2 * i)) (dat h i) then 2 * i else i);
         b = (if 2 * i + 1 \<le> bh_count h \<and> lt (dat h (2 * i + 1)) (dat h a) then 2 * i + 1 else a)
     in if b \<noteq> i then binheapify lt (swapped h i b) b else Some h)"
proof -
  have bnd: "bh_count h \<le> bh_size h" "bh_size h < 32768" using assms(1) by (simp_all add: heap_wf_def)
  have lr: "heap_left i = 2 * i" "heap_right i = 2 * i + 1"
    using assms(3) bnd by (simp_all add: heap_left_def heap_right_def)
  define a where "a = (if 2 * i \<le> bh_count h \<and> lt (dat h (2 * i)) (dat h i) then 2 * i else i)"
  define b where "b = (if 2 * i + 1 \<le> bh_count h \<and> lt (dat h (2 * i + 1)) (dat h a) then 2 * i + 1 else a)"
  have cl: "(if 2 * i \<le> bh_count h then compare_at lt h (2 * i) i else Some False)
      = Some (2 * i \<le> bh_count h \<and> lt (dat h (2 * i)) (dat h i))"
    using assms bnd lr by (simp add: compare_at_eq)
  have "a \<le> bh_size h" using assms(3) bnd by (simp add: a_def)
  then have cr: "(if 2 * i + 1 \<le> bh_count h then compare_at lt h (2 * i + 1) a else Some False)
      = Some (2 * i + 1 \<le> bh_count h \<and> lt (dat h (2 * i + 1)) (dat h a))"
    using assms(1) bnd lr by (simp add: compare_at_eq)
  have "b \<le> bh_size h" using \<open>a \<le> bh_size h\<close> bnd by (simp add: b_def)
  then have sw: "heap_swap h i b = Some (swapped h i b)" using heap_swap_eq assms by blast
  have main: "binheapify lt h i = (if b \<noteq> i then heap_swap h i b \<bind> (\<lambda>h1. binheapify lt h1 b) else Some h)"
    by (subst binheapify.simps) (simp only: cl cr lr Let_def bind.simps a_def [symmetric] b_def [symmetric])
  show ?thesis unfolding Let_def a_def [symmetric] b_def [symmetric] by (rule main [unfolded sw bind.simps])
qed

lemma irr: "\<not> lt a a"
  using asym by blast

lemma lt_trans: "lt a b \<Longrightarrow> lt b c \<Longrightarrow> lt a c"
  using asym ntrans by blast

lemma binheapify_restores:
  assumes "heap_wf h" "1 \<le> i" "i \<le> bh_size h"
  shows "\<exists>h'. binheapify lt h i = Some h' \<and> heap_wf h' \<and> bag h' = bag h
    \<and> bh_count h' = bh_count h \<and> bh_size h' = bh_size h
    \<and> (down_inv lt (bh_count h) (dat h) i \<longrightarrow> ordered lt h')"
  using assms
proof (induction "bh_size h - i" arbitrary: h i rule: less_induct)
  case less
  let ?n = "bh_count h" and ?d = "dat h"
  define a where "a = (if 2 * i \<le> ?n \<and> lt (?d (2 * i)) (?d i) then 2 * i else i)"
  define b where "b = (if 2 * i + 1 \<le> ?n \<and> lt (?d (2 * i + 1)) (?d a) then 2 * i + 1 else a)"
  have step: "binheapify lt h i = (if b \<noteq> i then binheapify lt (swapped h i b) b else Some h)"
    using binheapify_unfold [OF less.prems(1-3)] unfolding Let_def b_def a_def .
  have kids: "\<not> lt (?d k) (?d b)" if k: "k div 2 = i" "k \<le> ?n" for k
  proof -
    have "k = 2 * i \<or> k = 2 * i + 1" using k(1) by auto
    moreover have "\<not> lt (?d (2 * i)) (?d b)" if le: "2 * i \<le> ?n"
    proof (cases "2 * i + 1 \<le> ?n \<and> lt (?d (2 * i + 1)) (?d a)")
      case True
      then have b: "b = 2 * i + 1" by (simp add: b_def)
      show ?thesis
        using True le asym [of "?d (2 * i + 1)"] ntrans [of "?d (2 * i)" "?d i" "?d (2 * i + 1)"]
        by (cases "lt (?d (2 * i)) (?d i)") (simp_all add: b a_def)
    next
      case False
      then have "b = a" by (auto simp: b_def)
      then show ?thesis using le irr by (simp add: a_def)
    qed
    moreover have "\<not> lt (?d (2 * i + 1)) (?d b)" if "2 * i + 1 \<le> ?n"
      using that irr by (simp add: b_def)
    ultimately show ?thesis using k(2) by blast
  qed
  show ?case
  proof (cases "b = i")
    case True
    then have "down_inv lt ?n ?d i \<longrightarrow> ordered_upto lt ?n ?d" using down_done [of ?n ?d i] kids by blast
    then show ?thesis using step True less.prems(1) by (simp add: ordered_def)
  next
    case False
    then have b: "b = 2 * i \<or> b = 2 * i + 1" "b \<le> ?n" "lt (?d b) (?d i)"
      using lt_trans [of "?d (2 * i + 1)" "?d (2 * i)" "?d i"] by (simp_all add: b_def a_def split: if_splits)
    then have bi: "b div 2 = i" "i < b" "1 \<le> b" using less.prems(2) by auto
    have n: "?n \<le> bh_size h" using less.prems(1) by (simp add: heap_wf_def)
    have wf: "heap_wf (swapped h i b)"
      by (rule swapped_wf [OF less.prems(1,2)]) (use b bi in linarith)+
    have bag: "bag (swapped h i b) = bag h"
      by (rule swapped_bag [OF less.prems(1,2)]) (use b bi in linarith)+
    have inv: "down_inv lt ?n (dat (swapped h i b)) b" if "down_inv lt ?n ?d i"
      using down_step [OF that less.prems(2) bi(1) b(2,3) kids]
        swapped_dat [OF less.prems(1,3), of b] b(2) n by simp
    have "\<exists>h'. binheapify lt (swapped h i b) b = Some h' \<and> heap_wf h' \<and> bag h' = bag (swapped h i b)
        \<and> bh_count h' = bh_count (swapped h i b) \<and> bh_size h' = bh_size (swapped h i b)
        \<and> (down_inv lt (bh_count (swapped h i b)) (dat (swapped h i b)) b \<longrightarrow> ordered lt h')"
      by (rule less.hyps) (use wf bi b n less.prems(3) in auto)
    then show ?thesis using step False bag inv by auto
  qed
qed

lemma insert_loop_restores:
  assumes "heap_wf h" "1 \<le> i" "i \<le> bh_count h" "up_inv lt (bh_count h) (dat h) i"
  shows "\<exists>h'. insert_loop lt h i = Some h' \<and> heap_inv lt h' \<and> bag h' = bag h
    \<and> bh_count h' = bh_count h \<and> bh_size h' = bh_size h"
  using assms
proof (induction i arbitrary: h rule: less_induct)
  case (less i)
  have n: "bh_count h \<le> bh_size h" using less.prems(1) by (simp add: heap_wf_def)
  let ?p = "i div 2"
  have cmp: "compare_at lt h i ?p = Some (lt (dat h i) (dat h ?p))"
    using compare_at_eq [OF less.prems(1)] less.prems(3) n by simp
  show ?case
  proof (cases "1 < i \<and> lt (dat h i) (dat h ?p)")
    case False
    then have "ordered_upto lt (bh_count h) (dat h)"
      by (intro up_done [OF less.prems(4)]) auto
    then show ?thesis
      using less.prems(1) False cmp
      by (subst insert_loop.simps) (auto simp: heap_inv_def ordered_def heap_parent_def)
  next
    case True
    then have p: "1 \<le> ?p" "?p < i" "?p \<le> bh_count h" "heap_parent i = ?p"
      using less.prems(3) by (auto simp: heap_parent_def)
    have sw: "heap_swap h i ?p = Some (swapped h i ?p)"
      using heap_swap_eq [OF less.prems(1)] less.prems(3) p n by simp
    have "up_inv lt (bh_count h) ((dat h)(i := dat h ?p, ?p := dat h i)) ?p"
      using up_step [OF less.prems(4) _ less.prems(3)] True by simp
    then have inv: "up_inv lt (bh_count h) (dat (swapped h i ?p)) ?p"
      using swapped_dat [OF less.prems(1), of i ?p] less.prems(3) p n by simp
    have "\<exists>h'. insert_loop lt (swapped h i ?p) ?p = Some h' \<and> heap_inv lt h' \<and> bag h' = bag (swapped h i ?p)
        \<and> bh_count h' = bh_count (swapped h i ?p) \<and> bh_size h' = bh_size (swapped h i ?p)"
      using less.IH [OF p(2) swapped_wf [OF less.prems(1-3) p(1,3)]] p inv by simp
    then show ?thesis
      using True cmp sw p(4) swapped_bag [OF less.prems(1-3) p(1,3)]
      by (subst insert_loop.simps) simp
  qed
qed

lemma insert_correct:
  assumes "heap_inv lt h" "bh_count h < bh_size h"
  shows "\<exists>h'. binheap_insert lt prio h x = Some h' \<and> heap_inv lt h' \<and> bag h' = add_mset x (bag h)
    \<and> bh_count h' = Suc (bh_count h) \<and> bh_size h' = bh_size h"
proof -
  have wf: "heap_wf h" and ord: "ordered_upto lt (bh_count h) (dat h)"
    using assms(1) by (simp_all add: heap_inv_def ordered_def)
  define i where "i = Suc (bh_count h)"
  define n where "n = (bh_elements h ! i)\<lparr>bn_data := x, bn_sentinel := False, bn_priority := prio x\<rparr>"
  define h1 where "h1 = h\<lparr>bh_elements := (bh_elements h)[i := n], bh_count := i\<rparr>"
  have len: "i < length (bh_elements h)" using wf assms(2) by (simp add: heap_wf_def i_def)
  have d: "dat h1 = (dat h)(i := x)" using len by (auto simp: dat_def h1_def n_def nth_list_update fun_eq_iff)
  have wf1: "heap_wf h1" using wf assms(2) by (auto simp: heap_wf_def h1_def n_def i_def nth_list_update)
  have "j div 2 \<noteq> i" if "j \<le> bh_count h" for j
    using that div_le_dividend [of j 2] by (simp add: i_def)
  then have "ordered_upto lt (bh_count h) ((dat h)(i := x))"
    using ord by (auto simp: ordered_upto_def i_def)
  then have inv: "up_inv lt i (dat h1) i"
    by (auto simp: up_inv_def ordered_upto_def d i_def)
  have "bag h1 = mset (map ((dat h)(i := x)) [1..<Suc i])" using bag_wf [OF wf1] d by (simp add: h1_def del: upt_Suc)
  also have "\<dots> = add_mset x (mset (map ((dat h)(i := x)) [1..<i]))"
    by (subst upt_Suc_append) (simp_all add: i_def del: upt_Suc)
  also have "mset (map ((dat h)(i := x)) [1..<i]) = mset (map (dat h) [1..<i])"
    by (rule arg_cong [where f = mset]) auto
  finally have bag: "bag h1 = add_mset x (bag h)" using bag_wf [OF wf] by (simp add: i_def del: upt_Suc)
  have "binheap_insert lt prio h x = insert_loop lt h1 i"
    using assms(2) len by (simp add: binheap_insert_def elem_at_def set_at_def h1_def n_def i_def)
  moreover have "bh_count h1 = i" "bh_size h1 = bh_size h" by (simp_all add: h1_def)
  ultimately show ?thesis
    using insert_loop_restores [OF wf1, of i] inv bag by (simp add: i_def)
qed

lemma head_correct:
  assumes "heap_inv lt h" "bh_count h > 0"
  shows "\<exists>h'. binheap_head lt h = Some (h', dat h 1) \<and> heap_inv lt h' \<and> bag h = add_mset (dat h 1) (bag h')
    \<and> bh_count h' = bh_count h - 1 \<and> bh_size h' = bh_size h"
proof -
  have wf: "heap_wf h" and ord: "ordered_upto lt (bh_count h) (dat h)"
    using assms(1) by (simp_all add: heap_inv_def ordered_def)
  define c where "c = bh_count h"
  define es where "es = (bh_elements h)[1 := bh_elements h ! c, c := bh_elements h ! 0]"
  define h2 where "h2 = h\<lparr>bh_elements := es, bh_count := c - 1\<rparr>"
  have len: "c < length (bh_elements h)" "1 \<le> c" "1 < length (bh_elements h)" "bh_elements h \<noteq> []"
    using wf assms(2) by (auto simp: heap_wf_def c_def)
  have d: "dat h2 j = ((dat h)(1 := dat h c)) j" if "1 \<le> j" "j < c" for j
    using len that by (simp add: dat_def h2_def es_def nth_list_update)
  have wf2: "heap_wf h2" using wf len by (auto simp: heap_wf_def h2_def es_def c_def nth_list_update)
  have o2: "\<not> lt (dat h j) (dat h (j div 2))" if "2 \<le> j" "j < c" for j
    using ord that by (simp add: ordered_upto_def c_def)
  have "\<not> lt (dat h2 j) (dat h2 (j div 2))" if "2 \<le> j" "j \<le> c - 1" "j div 2 \<noteq> 1" for j
    using that o2 [of j] d [of j] d [of "j div 2"] len by (auto split: if_splits)
  then have inv: "down_inv lt (bh_count h2) (dat h2) 1"
    by (auto simp: down_inv_def h2_def)
  have "bag h2 = mset (map (dat h2) [1..<Suc (c - 1)])" using bag_wf [OF wf2] by (simp add: h2_def del: upt_Suc)
  also have "\<dots> = mset (map ((dat h)(1 := dat h c)) [1..<Suc (c - 1)])"
    by (rule mset_dat_cong) (use d len in auto)
  finally have b2: "bag h2 = mset (map ((dat h)(1 := dat h c)) [1..<c])" using len by simp
  have b1: "bag h = add_mset (dat h c) (mset (map (dat h) [1..<c]))"
    using bag_wf [OF wf] len by (simp add: c_def [symmetric])
  have bag: "bag h = add_mset (dat h 1) (bag h2)"
  proof (cases "c = 1")
    case False
    then have "[1..<c] = 1 # [2..<c]" using len by (simp add: upt_rec numeral_2_eq_2)
    moreover have "map ((dat h)(1 := dat h c)) [2..<c] = map (dat h) [2..<c]" by simp
    ultimately show ?thesis unfolding b1 b2 by (simp only: list.map mset.simps fun_upd_same add_mset_commute)
  qed (use b1 b2 in simp)
  have "binheap_head lt h = map_option (\<lambda>h3. (h3, dat h 1)) (binheapify lt h2 1)"
    using len assms(2) binheap_first_eq [OF wf assms(2)]
    by (cases "binheapify lt h2 1")
       (simp_all add: binheap_head_def elem_at_def set_at_def h2_def es_def c_def [symmetric])
  then show ?thesis
    using binheapify_restores [OF wf2, of 1] inv bag len wf
    by (auto simp: heap_inv_def h2_def c_def heap_wf_def)
qed

lemma first_least:
  assumes "heap_inv lt h" "y \<in># bag h"
  shows "\<not> lt y (dat h 1)"
  using assms ordered_root_least [of "bh_count h" "dat h"] bag_wf [of h]
  by (auto simp: heap_inv_def ordered_def simp del: upt_Suc)

lemma insert_all_correct:
  assumes "heap_inv lt h" "bh_count h + length xs \<le> bh_size h"
  shows "\<exists>h'. insert_all lt prio h xs = Some h' \<and> heap_inv lt h' \<and> bag h' = mset xs + bag h
    \<and> bh_count h' = bh_count h + length xs \<and> bh_size h' = bh_size h"
  using assms
proof (induction xs arbitrary: h)
  case (Cons x xs)
  obtain h1 where h1: "binheap_insert lt prio h x = Some h1" "heap_inv lt h1" "bag h1 = add_mset x (bag h)"
      "bh_count h1 = Suc (bh_count h)" "bh_size h1 = bh_size h"
    using insert_correct [OF Cons.prems(1), of prio x] Cons.prems(2) by auto
  then show ?case using Cons.IH [OF h1(2)] Cons.prems(2) by auto
qed simp

lemma drain_sorts:
  assumes "heap_inv lt h"
  shows "\<exists>xs. drain lt (bh_count h) h = Some xs \<and> mset xs = bag h \<and> sorted_wrt (\<lambda>x y. \<not> lt y x) xs"
  using assms
proof (induction "bh_count h" arbitrary: h)
  case 0
  then show ?case by simp
next
  case (Suc n)
  obtain h' where h': "binheap_head lt h = Some (h', dat h 1)" "heap_inv lt h'"
      "bag h = add_mset (dat h 1) (bag h')" "bh_count h' = n"
    using head_correct [OF Suc.prems] Suc.hyps(2) by force
  obtain xs where xs: "drain lt n h' = Some xs" "mset xs = bag h'" "sorted_wrt (\<lambda>x y. \<not> lt y x) xs"
    using Suc.hyps(1) [OF h'(4) [symmetric] h'(2)] h'(4) by auto
  have "\<not> lt y (dat h 1)" if "y \<in> set xs" for y
    using first_least [OF Suc.prems, of y] h'(3) xs(2) that by (metis set_mset_mset insert_DiffM2 union_iff add_mset_add_single)
  then show ?case using Suc.hyps(2) [symmetric] h' xs by simp
qed

lemma remove_correct:
  assumes "heap_inv lt h" "1 \<le> i" "i \<le> bh_count h"
  shows "\<exists>h'. binheap_remove lt zero h i = Some (h', dat h i) \<and> heap_wf h'
    \<and> bag h = add_mset (dat h i) (bag h') \<and> bh_count h' = bh_count h - 1
    \<and> (i = 1 \<or> i = bh_count h \<or> \<not> lt (dat h (bh_count h)) (dat h (i div 2)) \<longrightarrow> ordered lt h')"
proof -
  have wf: "heap_wf h" and ord: "ordered_upto lt (bh_count h) (dat h)"
    using assms(1) by (simp_all add: heap_inv_def ordered_def)
  define c where "c = bh_count h"
  define h2 where "h2 = (swapped h i c)\<lparr>bh_count := c - 1\<rparr>"
  have c: "1 \<le> c" "i \<le> c" "c \<le> bh_size h" using assms wf by (auto simp: c_def heap_wf_def)
  have wfs: "heap_wf (swapped h i c)" and bags: "bag (swapped h i c) = bag h"
    using swapped_wf [OF wf assms(2)] swapped_bag [OF wf assms(2)] c by (simp_all add: c_def)
  have wf2: "heap_wf h2" using wfs c by (auto simp: h2_def heap_wf_def c_def)
  have d: "dat h2 = (dat h)(i := dat h c, c := dat h i)"
    using swapped_dat [OF wf, of i c] c by (simp add: h2_def dat_def [abs_def])
  have "bag h = mset (map (dat (swapped h i c)) [1..<Suc c])"
    using bag_wf [OF wfs] bags by (simp add: c_def del: upt_Suc)
  also have "dat (swapped h i c) = dat h2" using swapped_dat [OF wf, of i c] c d by simp
  also have "mset (map (dat h2) [1..<Suc c]) = add_mset (dat h2 c) (mset (map (dat h2) [1..<Suc (c - 1)]))"
    using c by (subst upt_Suc_append) (simp_all del: upt_Suc)
  also have "dat h2 c = dat h i" using d by simp
  finally have bag: "bag h = add_mset (dat h i) (bag h2)"
    using bag_wf [OF wf2] by (simp add: h2_def del: upt_Suc)
  have inv: "down_inv lt (c - 1) (dat h2) i"
    if asm: "i = 1 \<or> i = c \<or> \<not> lt (dat h c) (dat h (i div 2))"
    unfolding down_inv_def
  proof (intro conjI allI impI)
    fix j assume j: "2 \<le> j" "j \<le> c - 1" "j div 2 \<noteq> i"
    have ne: "j \<noteq> c" "j div 2 \<noteq> c" "i div 2 \<noteq> c" using j c by auto
    show "\<not> lt (dat h2 j) (dat h2 (j div 2))"
    proof (cases "j = i")
      case True
      then show ?thesis using asm j ne by (auto simp: d)
    next
      case False
      then show ?thesis using ord j ne by (auto simp: d ordered_upto_def c_def)
    qed
  next
    fix j assume j: "2 \<le> i" "j \<le> c - 1" "j div 2 = i"
    have ne: "j \<noteq> c" "j \<noteq> i" "i div 2 \<noteq> c" "i div 2 \<noteq> i" "2 \<le> j" "j \<le> c" using j c by auto
    have "\<not> lt (dat h j) (dat h i)" "\<not> lt (dat h i) (dat h (i div 2))"
      using ord j ne c by (auto simp: ordered_upto_def c_def)
    then show "\<not> lt (dat h2 j) (dat h2 (i div 2))" using ne ntrans by (auto simp: d)
  qed
  have "binheap_remove lt zero h i = map_option (\<lambda>h3. (h3, dat h i)) (binheapify lt h2 i)"
    using assms c heap_swap_eq [OF wf, of i c] wf
    by (cases "binheapify lt h2 i")
       (simp_all add: binheap_remove_def elem_at_def h2_def c_def [symmetric] dat_def heap_wf_def)
  then show ?thesis
    using binheapify_restores [OF wf2 assms(2)] inv bag c
    by (auto simp: h2_def c_def)
qed

end

section \<open>Properties\<close>

text \<open>
  C5: for every comparison that is a strict weak order, filling an initialised heap and taking the
  head until it is empty returns exactly the inserted elements in order. None of the assertions of
  the heap fires on the way, as long as the elements fit into a heap of less than 32768 slots.
\<close>

theorem binheap_sorts:
  assumes "weak_order lt" "length xs \<le> max_nodes" "max_nodes < 32768"
  shows "\<exists>h ys. insert_all lt prio (binheap_init zero max_nodes) xs = Some h
    \<and> drain lt (length xs) h = Some ys \<and> mset ys = mset xs \<and> sorted_wrt (\<lambda>x y. \<not> lt y x) ys"
proof -
  let ?h0 = "binheap_init zero max_nodes"
  have "heap_wf ?h0" "bag ?h0 = {#}" using binheap_init_wf [OF assms(3), of zero] by auto
  moreover have cnt: "bh_count ?h0 = 0" "bh_size ?h0 = max_nodes"
    by (simp_all add: binheap_init_def Let_def)
  ultimately have "heap_inv lt ?h0" by (simp add: heap_inv_def ordered_def ordered_upto_def)
  then obtain h where h: "insert_all lt prio ?h0 xs = Some h" "heap_inv lt h" "bag h = mset xs"
      "bh_count h = length xs"
    using weak_order.insert_all_correct [OF assms(1), of ?h0 xs prio] cnt assms(2) \<open>bag ?h0 = {#}\<close> by auto
  then show ?thesis using weak_order.drain_sorts [OF assms(1) h(2)] by auto
qed

lemma weak_order_nat: "weak_order ((<) :: nat \<Rightarrow> nat \<Rightarrow> bool)"
  by unfold_locales auto

theorem binheap_sorts_witness:
  "\<exists>h ys. insert_all (<) id (binheap_init 0 4) [3, 1, 2 :: nat] = Some h
    \<and> drain (<) (length [3, 1, 2 :: nat]) h = Some ys \<and> mset ys = mset [3, 1, 2] \<and> sorted_wrt (\<lambda>x y. \<not> y < x) ys"
  by (rule binheap_sorts [OF weak_order_nat]) simp_all

definition six_heap :: "nat binheap" where
  "six_heap = \<lparr>bh_count = 6, bh_size = 6,
     bh_elements = map (\<lambda>x. \<lparr>bn_id = 0, bn_priority = x, bn_sentinel = (x = 0), bn_data = x\<rparr>) [0, 1, 10, 2, 11, 12, 3]\<rparr>"

lemma upto_six: "1 \<le> i \<Longrightarrow> i \<le> (6 :: nat) \<Longrightarrow> i = 1 \<or> i = 2 \<or> i = 3 \<or> i = 4 \<or> i = 5 \<or> i = 6"
  by auto

lemma six_heap_inv: "heap_inv (<) six_heap"
proof -
  have "\<not> bn_sentinel (bh_elements six_heap ! i)" if "1 \<le> i" "i \<le> 6" for i
    using upto_six [OF that] by (auto simp: six_heap_def)
  moreover have "\<not> dat six_heap i < dat six_heap (i div 2)" if "2 \<le> i" "i \<le> 6" for i
    using upto_six [of i] that by (auto simp: six_heap_def dat_def)
  moreover have "bh_count six_heap = 6" "bh_size six_heap = 6" "length (bh_elements six_heap) = 7"
    by (simp_all add: six_heap_def)
  ultimately show ?thesis by (simp add: heap_inv_def heap_wf_def ordered_def ordered_upto_def)
qed

lemma six_heap_remove:
  "\<exists>h'. binheap_remove (<) 0 six_heap 4 = Some (h', 11) \<and> bh_count h' = 5 \<and> dat h' 4 = 3 \<and> dat h' 2 = 10"
  by (simp add: binheap_remove_def elem_at_def heap_swap_def set_at_def six_heap_def, subst binheapify.simps)
     (simp add: heap_left_def heap_right_def dat_def)

text \<open>
  C28: removing the element at a valid index returns that element and removes nothing else. The hole
  is filled with the last element, which is only moved towards the leaves: the heap order is kept
  when the last element belongs below the parent of the hole, and a heap of six elements shows that
  it breaks otherwise.
\<close>

theorem binheap_remove_keeps_order_partly:
  assumes "weak_order lt" "heap_inv lt h" "1 \<le> i" "i \<le> bh_count h"
  shows "(\<exists>h'. binheap_remove lt zero h i = Some (h', dat h i) \<and> bag h = add_mset (dat h i) (bag h')
      \<and> (i = 1 \<or> i = bh_count h \<or> \<not> lt (dat h (bh_count h)) (dat h (i div 2)) \<longrightarrow> heap_inv lt h'))
    \<and> heap_inv (<) six_heap
    \<and> \<not> ordered (<) (fst (the (binheap_remove (<) 0 six_heap 4)))"
proof (intro conjI)
  show "\<exists>h'. binheap_remove lt zero h i = Some (h', dat h i) \<and> bag h = add_mset (dat h i) (bag h')
      \<and> (i = 1 \<or> i = bh_count h \<or> \<not> lt (dat h (bh_count h)) (dat h (i div 2)) \<longrightarrow> heap_inv lt h')"
    using weak_order.remove_correct [OF assms] by (auto simp: heap_inv_def)
  show "heap_inv (<) six_heap" by (rule six_heap_inv)
  obtain h' where "binheap_remove (<) 0 six_heap 4 = Some (h', 11)" "bh_count h' = 5" "dat h' 4 = 3" "dat h' 2 = 10"
    using six_heap_remove by blast
  then show "\<not> ordered (<) (fst (the (binheap_remove (<) 0 six_heap 4)))"
    by (auto simp: ordered_def ordered_upto_def intro!: exI [of _ 4])
qed

theorem binheap_remove_keeps_order_partly_witness:
  "\<exists>h'. binheap_remove (<) 0 six_heap 1 = Some (h', dat six_heap 1)
    \<and> bag six_heap = add_mset (dat six_heap 1) (bag h') \<and> heap_inv (<) h'"
proof -
  have "(1 :: nat) \<le> bh_count six_heap" by (simp add: six_heap_def)
  from binheap_remove_keeps_order_partly [OF weak_order_nat six_heap_inv le_refl this, of 0]
  show ?thesis by auto
qed

end
