(* ===== verification/Np_Jobqueue.thy ===== *)
theory Np_Jobqueue
  imports Np_Settings Np_Dhkey Np_Heap
begin

text \<open>
  The job queue of \<^verbatim>\<open>src/np_jobqueue.c\<close>: five binary heaps of jobs, one for each priority, ordered by
  the time before which a job must not run. Times are real numbers here, doubles in the source. What
  a callback does is the parameter \<open>cb\<close>, what the event runtime does with an event is the parameter
  \<open>rt\<close>, and further parameters are the readings of the clock and the outcome of each \<^verbatim>\<open>_TRYLOCK_ACCESS\<close>. Assertions and \<^verbatim>\<open>ABORT\<close> are \<open>None\<close>.

  The reference count of the user data a job carries is part of the state; the condition variable
  is signalled when the flag of the insertion's result says so.
\<close>

section \<open>Jobs and their order\<close>

record np_job =
  jb_type :: nat
  jb_tstamp :: real
  jb_interval :: real
  jb_is_periodic :: bool
  jb_user_data :: "nat option"
  jb_next :: np_dhkey
  jb_priority :: nat
  jb_del_funcs :: bool
  jb_funcs :: "nat option list option"

definition job_zero :: np_job where
  "job_zero = \<lparr>jb_type = 0, jb_tstamp = 0, jb_interval = 0, jb_is_periodic = False, jb_user_data = None,
     jb_next = dhkey_zero, jb_priority = 0, jb_del_funcs = False, jb_funcs = None\<rparr>"

definition job_compare_job_scheduling :: "np_job \<Rightarrow> np_job \<Rightarrow> int" where
  "job_compare_job_scheduling job1 new_job =
     (if jb_tstamp job1 > jb_tstamp new_job then -1
      else if jb_tstamp job1 < jb_tstamp new_job then 1
      else if jb_priority job1 > jb_priority new_job then -1
      else if jb_priority job1 < jb_priority new_job then 1
      else 0)"

definition np_job_compare :: "np_job \<Rightarrow> np_job \<Rightarrow> bool" where
  "np_job_compare i j \<longleftrightarrow> job_compare_job_scheduling j i = -1"

definition np_job_get_priority :: "np_job \<Rightarrow> nat" where
  "np_job_get_priority job = jb_priority job"

section \<open>The queue\<close>

definition NP_PRIORITY_MAX_QUEUES :: nat where
  "NP_PRIORITY_MAX_QUEUES = 4"

definition NP_SLEEP_MIN :: real where
  "NP_SLEEP_MIN = NP_PI / 1000"

record np_jobqueue =
  jq_queues :: "np_job binheap list"
  jq_periodic_jobs :: nat
  jq_refs :: "nat \<Rightarrow> int"

definition job_free :: "np_job \<Rightarrow> np_jobqueue \<Rightarrow> np_jobqueue" where
  "job_free n q =
     (case jb_user_data n of None \<Rightarrow> q
      | Some u \<Rightarrow> q\<lparr>jq_refs := (jq_refs q)(u := jq_refs q u - 1)\<rparr>)"

text \<open>
  The loop of \<^verbatim>\<open>__np_jobqueue_select_job_to_run\<close> over the queue indices: the result is the time to
  sleep, the job that was copied to the buffer, if any, and the new state.
\<close>

fun select_loop ::
  "(nat \<Rightarrow> bool) \<Rightarrow> real \<Rightarrow> nat list \<Rightarrow> real \<Rightarrow> np_jobqueue \<Rightarrow> (real \<times> np_job option \<times> np_jobqueue) option" where
  "select_loop trylock now [] ret q = Some (ret, None, q)"
| "select_loop trylock now (queue_idx # rest) ret q =
     (if trylock queue_idx \<and> \<not> binheap_is_empty (jq_queues q ! queue_idx)
      then do {
        next_job \<leftarrow> binheap_first (jq_queues q ! queue_idx);
        (if now \<le> jb_tstamp next_job
         then select_loop trylock now rest (min ret (jb_tstamp next_job - now)) q
         else do {
           (h, buffer) \<leftarrow> binheap_head np_job_compare (jq_queues q ! queue_idx);
           Some (0, Some buffer, q\<lparr>jq_queues := (jq_queues q)[queue_idx := h]\<rparr>)
         })
      }
      else select_loop trylock now rest ret q)"

definition np_jobqueue_select_job_to_run ::
  "(nat \<Rightarrow> bool) \<Rightarrow> nat \<Rightarrow> real \<Rightarrow> np_jobqueue \<Rightarrow> (real \<times> np_job option \<times> np_jobqueue) option" where
  "np_jobqueue_select_job_to_run trylock max_prio now q =
     (if max_prio \<le> NP_PRIORITY_MAX_QUEUES
      then select_loop trylock now [0..<Suc max_prio] (NP_PI / 100) q
      else None)"

text \<open>\<^verbatim>\<open>_np_jobqueue_insert\<close>: the result says whether the job was taken and whether a worker is signalled.\<close>

definition np_jobqueue_insert ::
  "nat \<Rightarrow> np_job \<Rightarrow> bool \<Rightarrow> np_jobqueue \<Rightarrow> (bool \<times> bool \<times> np_jobqueue) option" where
  "np_jobqueue_insert n_threads new_job0 exec_asap q =
     (if jb_priority new_job0 \<le> NP_PRIORITY_MAX_QUEUES
      then do {
        let new_job = (if n_threads = 0 then new_job0\<lparr>jb_priority := 0\<rparr> else new_job0);
        let job_list = jq_queues q ! jb_priority new_job;
        (if \<not> jb_is_periodic new_job
            \<and> int (bh_count job_list) + 1 \<ge> int (bh_size job_list) - int (jq_periodic_jobs q)
         then Some (False, False, q)
         else do {
           h \<leftarrow> binheap_insert np_job_compare np_job_get_priority job_list new_job;
           Some (True, exec_asap, q\<lparr>jq_queues := (jq_queues q)[jb_priority new_job := h]\<rparr>)
         })
      }
      else None)"

definition np_jobqueue_submit_event_callbacks ::
  "nat \<Rightarrow> real \<Rightarrow> real \<Rightarrow> np_dhkey \<Rightarrow> nat option \<Rightarrow> nat option list \<Rightarrow> np_jobqueue \<Rightarrow> np_jobqueue option" where
  "np_jobqueue_submit_event_callbacks n_threads now delay next_key user_data callbacks q =
     do {
       let new_job = job_zero\<lparr>jb_user_data := user_data, jb_next := next_key, jb_priority := 3,
             jb_tstamp := now, jb_type := 2, jb_is_periodic := False, jb_interval := delay,
             jb_funcs := Some callbacks, jb_del_funcs := False\<rparr>;
       (ret, _, q1) \<leftarrow> np_jobqueue_insert n_threads new_job (delay = 0) q;
       Some (if ret then q1 else job_free new_job q1)
     }"

text \<open>
  \<^verbatim>\<open>periodic_jobs = periodic_jobs++\<close> has two unsequenced writes; the value it leaves behind is \<open>bump\<close>
  of the old one.
\<close>

definition np_jobqueue_submit_event_periodic ::
  "(nat \<Rightarrow> nat) \<Rightarrow> nat \<Rightarrow> real \<Rightarrow> nat \<Rightarrow> real \<Rightarrow> real \<Rightarrow> nat \<Rightarrow> np_jobqueue \<Rightarrow> np_jobqueue option" where
  "np_jobqueue_submit_event_periodic bump n_threads now priority first_delay interval callback q =
     do {
       let new_job = job_zero\<lparr>jb_priority := priority,
             jb_tstamp := now + (if first_delay = 0 then 0 else max NP_SLEEP_MIN first_delay),
             jb_type := 2, jb_interval := max NP_SLEEP_MIN interval, jb_funcs := Some [Some callback],
             jb_is_periodic := True, jb_del_funcs := True\<rparr>;
       let q1 = q\<lparr>jq_periodic_jobs := bump (jq_periodic_jobs q)\<rparr>;
       (ret, _, q2) \<leftarrow> np_jobqueue_insert n_threads new_job (first_delay = 0) q1;
       Some (if ret then q2 else job_free new_job q2)
     }"

definition np_jobqueue_submit_event_with_prio ::
  "nat \<Rightarrow> real \<Rightarrow> real \<Rightarrow> np_dhkey \<Rightarrow> nat option \<Rightarrow> nat \<Rightarrow> np_jobqueue \<Rightarrow> (bool \<times> np_jobqueue) option" where
  "np_jobqueue_submit_event_with_prio n_threads now delay next_key user_data priority q =
     do {
       let q1 = (case user_data of None \<Rightarrow> q
                 | Some u \<Rightarrow> q\<lparr>jq_refs := (jq_refs q)(u := jq_refs q u + 1)\<rparr>);
       let new_job = job_zero\<lparr>jb_user_data := user_data, jb_next := next_key, jb_type := 1,
             jb_tstamp := now + delay, jb_priority := priority, jb_interval := 0,
             jb_is_periodic := False, jb_funcs := None, jb_del_funcs := False\<rparr>;
       (ret, _, q2) \<leftarrow> np_jobqueue_insert n_threads new_job (delay = 0) q1;
       Some (ret, if ret then q2 else job_free new_job q2)
     }"

definition np_jobqueue_submit_event ::
  "nat \<Rightarrow> real \<Rightarrow> real \<Rightarrow> np_dhkey \<Rightarrow> nat option \<Rightarrow> np_jobqueue \<Rightarrow> (bool \<times> np_jobqueue) option" where
  "np_jobqueue_submit_event n_threads now delay next_key user_data q =
     np_jobqueue_submit_event_with_prio n_threads now delay next_key user_data 3 q"

definition np_jobqueue_count :: "np_jobqueue \<Rightarrow> u32" where
  "np_jobqueue_count q = (\<Sum>h \<leftarrow> jq_queues q. of_nat (bh_count h))"

text \<open>The work of a job: the loop over its callbacks, or the event runtime when it has none.\<close>

fun run_callbacks ::
  "(nat \<Rightarrow> nat option \<Rightarrow> np_jobqueue \<Rightarrow> np_jobqueue option) \<Rightarrow> nat option \<Rightarrow> nat option list \<Rightarrow> np_jobqueue \<Rightarrow> np_jobqueue option" where
  "run_callbacks cb evt [] q = Some q"
| "run_callbacks cb evt (None # fs) q = run_callbacks cb evt fs q"
| "run_callbacks cb evt (Some f # fs) q = do { q1 \<leftarrow> cb f evt q; run_callbacks cb evt fs q1 }"

definition run_job ::
  "(nat \<Rightarrow> nat option \<Rightarrow> np_jobqueue \<Rightarrow> np_jobqueue option) \<Rightarrow> (np_dhkey \<Rightarrow> nat option \<Rightarrow> np_jobqueue \<Rightarrow> np_jobqueue option)
     \<Rightarrow> np_job \<Rightarrow> np_jobqueue \<Rightarrow> np_jobqueue option" where
  "run_job cb rt job q =
     (case jb_funcs job of
        Some fs \<Rightarrow> run_callbacks cb (jb_user_data job) fs q
      | None \<Rightarrow> rt (jb_next job) (jb_user_data job) q)"

text \<open>\<^verbatim>\<open>__np_jobqueue_run_once\<close>; \<open>started_at\<close> and \<open>now\<close> are the clock before and after the job ran.\<close>

definition np_jobqueue_run_once ::
  "(nat \<Rightarrow> nat option \<Rightarrow> np_jobqueue \<Rightarrow> np_jobqueue option) \<Rightarrow> (np_dhkey \<Rightarrow> nat option \<Rightarrow> np_jobqueue \<Rightarrow> np_jobqueue option)
     \<Rightarrow> nat \<Rightarrow> real \<Rightarrow> real \<Rightarrow> np_job \<Rightarrow> np_jobqueue \<Rightarrow> np_jobqueue option" where
  "np_jobqueue_run_once cb rt n_threads started_at now job q =
     do {
       q1 \<leftarrow> run_job cb rt job q;
       (if jb_is_periodic job
        then do {
          (ret, _, q2) \<leftarrow> np_jobqueue_insert n_threads (job\<lparr>jb_tstamp := max (started_at + jb_interval job) now\<rparr>) False q1;
          (if ret then Some q2 else None)
        }
        else Some (job_free job q1))
     }"

definition np_jobqueue_run_jobs_once ::
  "(nat \<Rightarrow> nat option \<Rightarrow> np_jobqueue \<Rightarrow> np_jobqueue option) \<Rightarrow> (np_dhkey \<Rightarrow> nat option \<Rightarrow> np_jobqueue \<Rightarrow> np_jobqueue option)
     \<Rightarrow> nat \<Rightarrow> (nat \<Rightarrow> bool) \<Rightarrow> nat \<Rightarrow> real \<Rightarrow> real \<Rightarrow> real \<Rightarrow> np_jobqueue
     \<Rightarrow> (real \<times> np_jobqueue) option" where
  "np_jobqueue_run_jobs_once cb rt n_threads trylock max_job_priority now started_at later q =
     do {
       (ret, buffer, q1) \<leftarrow> np_jobqueue_select_job_to_run trylock max_job_priority now q;
       let next_job = (case buffer of None \<Rightarrow> job_zero | Some j \<Rightarrow> j);
       (if ret = 0
        then do { q2 \<leftarrow> np_jobqueue_run_once cb rt n_threads started_at later next_job q1; Some (ret, q2) }
        else Some (ret, q1))
     }"

text \<open>\<^verbatim>\<open>_np_jobqueue_init\<close> creates the heaps and submits the four periodic jobs of the library.\<close>

definition np_jobqueue_init :: "(nat \<Rightarrow> nat) \<Rightarrow> nat \<Rightarrow> real \<Rightarrow> nat \<Rightarrow> (nat \<Rightarrow> int) \<Rightarrow> np_jobqueue option" where
  "np_jobqueue_init bump n_threads now jobqueue_size refs =
     do {
       let q0 = \<lparr>jq_queues = replicate (Suc NP_PRIORITY_MAX_QUEUES) (binheap_init job_zero jobqueue_size),
                 jq_periodic_jobs = 0, jq_refs = refs\<rparr>;
       q1 \<leftarrow> np_jobqueue_submit_event_periodic bump n_threads now 4 180 180 0 q0;
       q2 \<leftarrow> np_jobqueue_submit_event_periodic bump n_threads now 4 0 60 1 q1;
       q3 \<leftarrow> np_jobqueue_submit_event_periodic bump n_threads now 0 (10 / 100) (100 / 1000) 2 q2;
       np_jobqueue_submit_event_periodic bump n_threads now 1 (NP_PI / 31) (NP_PI / 31) 3 q3
     }"

fun free_jobs :: "np_job binheap_node list \<Rightarrow> np_jobqueue \<Rightarrow> np_jobqueue" where
  "free_jobs [] q = q"
| "free_jobs (n # ns) q = free_jobs ns (job_free (bn_data n) q)"

fun destroy_queues :: "np_job binheap list \<Rightarrow> np_jobqueue \<Rightarrow> np_jobqueue" where
  "destroy_queues [] q = q"
| "destroy_queues (h # hs) q = destroy_queues hs (free_jobs (take (bh_count h) (tl (bh_elements h))) q)"

definition np_jobqueue_destroy :: "np_jobqueue \<Rightarrow> np_jobqueue" where
  "np_jobqueue_destroy q = (destroy_queues (jq_queues q) q)\<lparr>jq_queues := []\<rparr>"

section \<open>Order and invariant\<close>

lemma np_job_compare_iff [np_simps]:
  "np_job_compare i j \<longleftrightarrow>
     jb_tstamp i < jb_tstamp j \<or> jb_tstamp i = jb_tstamp j \<and> jb_priority i < jb_priority j"
  by (auto simp: np_job_compare_def job_compare_job_scheduling_def)

interpretation jobs: weak_order np_job_compare
  by unfold_locales (auto simp: np_simps)

definition jq_inv :: "np_jobqueue \<Rightarrow> bool" where
  "jq_inv q \<longleftrightarrow> length (jq_queues q) = Suc NP_PRIORITY_MAX_QUEUES
     \<and> (\<forall>h \<in> set (jq_queues q). heap_inv np_job_compare h)"

abbreviation queue_bag :: "np_jobqueue \<Rightarrow> nat \<Rightarrow> np_job multiset" where
  "queue_bag q i \<equiv> bag (jq_queues q ! i)"

lemma jq_inv_nth: "jq_inv q \<Longrightarrow> i \<le> NP_PRIORITY_MAX_QUEUES \<Longrightarrow> heap_inv np_job_compare (jq_queues q ! i)"
  by (simp add: jq_inv_def)

lemma jq_inv_upd:
  "jq_inv q \<Longrightarrow> heap_inv np_job_compare h \<Longrightarrow> jq_inv (q\<lparr>jq_queues := (jq_queues q)[i := h]\<rparr>)"
  using set_update_subset_insert [of "jq_queues q" i h] by (auto simp: jq_inv_def)

lemma jq_inv_cong [simp]:
  "jq_inv (q\<lparr>jq_refs := r\<rparr>) = jq_inv q" "jq_inv (q\<lparr>jq_periodic_jobs := n\<rparr>) = jq_inv q"
  by (simp_all add: jq_inv_def)

lemma first_not_due:
  "heap_inv np_job_compare h \<Longrightarrow> now \<le> jb_tstamp (dat h 1) \<Longrightarrow> j \<in># bag h \<Longrightarrow> jb_tstamp (dat h 1) \<le> jb_tstamp j"
  using jobs.first_least [of h j] by (auto simp: np_simps)

text \<open>What a run of the selection over the indices \<open>idxs\<close> promises.\<close>

definition selected :: "(nat \<Rightarrow> bool) \<Rightarrow> real \<Rightarrow> nat list \<Rightarrow> np_jobqueue \<Rightarrow> np_job \<Rightarrow> np_jobqueue \<Rightarrow> bool" where
  "selected trylock now idxs q j q' \<longleftrightarrow>
     (\<exists>pre i post h. idxs = pre @ i # post \<and> trylock i \<and> q' = q\<lparr>jq_queues := (jq_queues q)[i := h]\<rparr>
        \<and> queue_bag q i = add_mset j (bag h) \<and> (\<forall>k \<in># queue_bag q i. \<not> np_job_compare k j)
        \<and> jb_tstamp j < now
        \<and> (\<forall>k \<in> set pre. trylock k \<longrightarrow> (\<forall>l \<in># queue_bag q k. now \<le> jb_tstamp l)))"

lemma selected_later:
  assumes "selected trylock now idxs q j q'" "trylock i \<longrightarrow> (\<forall>l \<in># queue_bag q i. now \<le> jb_tstamp l)"
  shows "selected trylock now (i # idxs) q j q'"
proof -
  from assms(1) obtain pre k post h where *: "idxs = pre @ k # post" "trylock k"
      "q' = q\<lparr>jq_queues := (jq_queues q)[k := h]\<rparr>" "queue_bag q k = add_mset j (bag h)"
      "\<forall>l \<in># queue_bag q k. \<not> np_job_compare l j" "jb_tstamp j < now"
      "\<forall>k \<in> set pre. trylock k \<longrightarrow> (\<forall>l \<in># queue_bag q k. now \<le> jb_tstamp l)"
    unfolding selected_def by blast
  show ?thesis unfolding selected_def
    by (rule exI [of _ "i # pre"], rule exI [of _ k], rule exI [of _ post], rule exI [of _ h])
       (use * assms(2) in simp)
qed

definition select_post ::
  "(nat \<Rightarrow> bool) \<Rightarrow> real \<Rightarrow> nat list \<Rightarrow> real \<Rightarrow> np_jobqueue \<Rightarrow> real \<times> np_job option \<times> np_jobqueue \<Rightarrow> bool" where
  "select_post trylock now idxs ret q r \<longleftrightarrow>
     (case r of (ret', b, q') \<Rightarrow> jq_inv q' \<and>
       (case b of
         None \<Rightarrow> q' = q \<and> ret' \<le> ret \<and> (0 \<le> ret \<longrightarrow> 0 \<le> ret')
           \<and> (\<forall>i \<in> set idxs. trylock i \<longrightarrow> (\<forall>j \<in># queue_bag q i. now \<le> jb_tstamp j \<and> ret' \<le> jb_tstamp j - now))
       | Some j \<Rightarrow> ret' = 0 \<and> selected trylock now idxs q j q'))"

lemma select_post_later:
  assumes "select_post trylock now idxs ret1 q r" "ret1 \<le> ret" "0 \<le> ret \<longrightarrow> 0 \<le> ret1"
    "trylock i \<longrightarrow> (\<forall>j \<in># queue_bag q i. now \<le> jb_tstamp j \<and> ret1 \<le> jb_tstamp j - now)"
  shows "select_post trylock now (i # idxs) ret q r"
proof -
  obtain ret' b q' where r: "r = (ret', b, q')" by (cases r)
  show ?thesis
  proof (cases b)
    case None
    then show ?thesis using assms r by (fastforce simp: select_post_def)
  next
    case (Some j)
    then show ?thesis using assms r selected_later [of trylock now idxs q j q' i]
      by (simp add: select_post_def)
  qed
qed

lemma select_loop_correct:
  assumes "jq_inv q" "\<forall>i \<in> set idxs. i \<le> NP_PRIORITY_MAX_QUEUES"
  shows "\<exists>r. select_loop trylock now idxs ret q = Some r \<and> select_post trylock now idxs ret q r"
  using assms(2)
proof (induction idxs arbitrary: ret)
  case Nil
  then show ?case using assms(1) by (simp add: select_post_def)
next
  case (Cons i idxs)
  let ?h = "jq_queues q ! i"
  have inv: "heap_inv np_job_compare ?h" using jq_inv_nth assms(1) Cons.prems by simp
  then have wf: "heap_wf ?h" by (simp add: heap_inv_def)
  have idx: "\<forall>i \<in> set idxs. i \<le> NP_PRIORITY_MAX_QUEUES" using Cons.prems by simp
  consider (skip) "\<not> trylock i \<or> bh_count ?h = 0" | (wait) "trylock i" "bh_count ?h > 0" "now \<le> jb_tstamp (dat ?h 1)"
    | (take) "trylock i" "bh_count ?h > 0" "jb_tstamp (dat ?h 1) < now" by fastforce
  then show ?case
  proof cases
    case skip
    obtain r where r: "select_loop trylock now idxs ret q = Some r" "select_post trylock now idxs ret q r"
      using Cons.IH [OF idx] by blast
    have "select_post trylock now (i # idxs) ret q r"
      by (rule select_post_later [OF r(2)]) (use skip in auto)
    moreover have "select_loop trylock now (i # idxs) ret q = Some r"
      using r(1) skip by (auto simp: binheap_is_empty_def)
    ultimately show ?thesis by blast
  next
    case wait
    let ?ret = "min ret (jb_tstamp (dat ?h 1) - now)"
    obtain r where r: "select_loop trylock now idxs ?ret q = Some r" "select_post trylock now idxs ?ret q r"
      using Cons.IH [OF idx] by blast
    have "now \<le> jb_tstamp j \<and> ?ret \<le> jb_tstamp j - now" if "j \<in># queue_bag q i" for j
      using first_not_due [OF inv wait(3) that] wait(3) by (simp add: min_def)
    then have "select_post trylock now (i # idxs) ret q r"
      by (intro select_post_later [OF r(2)]) (use wait(3) in auto)
    moreover have "select_loop trylock now (i # idxs) ret q = Some r"
      using wait r(1) binheap_first_eq [OF wf] by (simp add: binheap_is_empty_def)
    ultimately show ?thesis by blast
  next
    case take
    obtain h' where h': "binheap_head np_job_compare ?h = Some (h', dat ?h 1)" "heap_inv np_job_compare h'"
        "queue_bag q i = add_mset (dat ?h 1) (bag h')"
      using jobs.head_correct [OF inv take(2)] by blast
    let ?q = "q\<lparr>jq_queues := (jq_queues q)[i := h']\<rparr>"
    have "selected trylock now (i # idxs) q (dat ?h 1) ?q"
      unfolding selected_def
      by (rule exI [of _ "[]"], rule exI [of _ i], rule exI [of _ idxs], rule exI [of _ h'])
         (use take h' jobs.first_least [OF inv] in auto)
    moreover have "select_loop trylock now (i # idxs) ret q = Some (0, Some (dat ?h 1), ?q)"
      using take h'(1) binheap_first_eq [OF wf] by (simp add: binheap_is_empty_def)
    ultimately show ?thesis using jq_inv_upd [OF assms(1) h'(2)] by (simp add: select_post_def)
  qed
qed

lemma insert_periodic_or_room:
  assumes "jq_inv q" "jb_priority j \<le> NP_PRIORITY_MAX_QUEUES"
    "p = (if n_threads = 0 then 0 else jb_priority j)" "h = jq_queues q ! p"
    "bh_count h < bh_size h" "jb_is_periodic j \<or> bh_count h + 1 + jq_periodic_jobs q < bh_size h"
  shows "\<exists>h'. np_jobqueue_insert n_threads j asap q = Some (True, asap, q\<lparr>jq_queues := (jq_queues q)[p := h']\<rparr>)
    \<and> heap_inv np_job_compare h' \<and> bag h' = add_mset (j\<lparr>jb_priority := p\<rparr>) (bag h)"
proof -
  have p: "p \<le> NP_PRIORITY_MAX_QUEUES" using assms(2,3) by (simp split: if_splits)
  have inv: "heap_inv np_job_compare h" using jq_inv_nth [OF assms(1) p] assms(4) by simp
  obtain h' where h': "binheap_insert np_job_compare np_job_get_priority h (j\<lparr>jb_priority := p\<rparr>) = Some h'"
      "heap_inv np_job_compare h'" "bag h' = add_mset (j\<lparr>jb_priority := p\<rparr>) (bag h)"
    using jobs.insert_correct [OF inv assms(5)] by blast
  have j: "(if n_threads = 0 then j\<lparr>jb_priority := 0\<rparr> else j) = j\<lparr>jb_priority := p\<rparr>"
    using assms(3) by (cases j) simp
  have q: "jq_queues q ! p = h" using assms(4) by simp
  have room: "\<not> (\<not> jb_is_periodic (j\<lparr>jb_priority := p\<rparr>)
      \<and> int (bh_count h) + 1 \<ge> int (bh_size h) - int (jq_periodic_jobs q))"
    using assms(6) by auto
  show ?thesis
    unfolding np_jobqueue_insert_def Let_def j using h' room assms(2)
    by (intro exI [of _ h']) (simp add: q)
qed

lemma insert_full:
  assumes "jb_priority j \<le> NP_PRIORITY_MAX_QUEUES" "h = jq_queues q ! (if n_threads = 0 then 0 else jb_priority j)"
    "\<not> jb_is_periodic j" "bh_size h \<le> bh_count h + 1 + jq_periodic_jobs q"
  shows "np_jobqueue_insert n_threads j asap q = Some (False, False, q)"
  using assms by (auto simp: np_jobqueue_insert_def Let_def)

section \<open>Reference counts\<close>

text \<open>The queued jobs that hold a reference to the object \<open>u\<close>.\<close>

definition refs_in :: "np_job multiset \<Rightarrow> nat \<Rightarrow> int" where
  "refs_in M u = int (size (filter_mset (\<lambda>j. jb_user_data j = Some u) M))"

definition queued_refs :: "np_jobqueue \<Rightarrow> nat \<Rightarrow> int" where
  "queued_refs q u = (\<Sum>h \<leftarrow> jq_queues q. refs_in (bag h) u)"

definition balance :: "np_jobqueue \<Rightarrow> nat \<Rightarrow> int" where
  "balance q u = jq_refs q u - queued_refs q u"

lemma refs_in_add:
  "refs_in (add_mset j M) u = refs_in M u + (if jb_user_data j = Some u then 1 else 0)"
  by (simp add: refs_in_def)

lemma sum_list_update_int:
  "i < length xs \<Longrightarrow> (\<Sum>x \<leftarrow> xs[i := y]. f x) = (\<Sum>x \<leftarrow> xs. f x) - f (xs ! i) + (f y :: int)"
  by (induction xs arbitrary: i) (auto split: nat.split)

lemma balance_upd:
  assumes "jq_inv q" "i \<le> NP_PRIORITY_MAX_QUEUES"
  shows "balance (q\<lparr>jq_queues := (jq_queues q)[i := h]\<rparr>) u
    = balance q u + refs_in (queue_bag q i) u - refs_in (bag h) u"
  using assms by (simp add: balance_def queued_refs_def jq_inv_def sum_list_update_int)

lemma balance_refs: "balance (q\<lparr>jq_refs := r\<rparr>) u = balance q u + r u - jq_refs q u"
  by (simp add: balance_def queued_refs_def)

lemma job_free_balance:
  "balance (job_free j q) u = balance q u - (if jb_user_data j = Some u then 1 else 0)"
  "jq_inv (job_free j q) = jq_inv q"
  by (auto simp: job_free_def balance_refs split: option.splits)

lemma insert_balance:
  assumes "jq_inv q" "np_jobqueue_insert n_threads j asap q = Some (ret, sig, q')"
  shows "jq_inv q' \<and> balance q' u = balance q u - (if ret \<and> jb_user_data j = Some u then 1 else 0)"
proof -
  define p where "p = (if n_threads = 0 then 0 else jb_priority j)"
  let ?h = "jq_queues q ! p" and ?j = "if n_threads = 0 then j\<lparr>jb_priority := 0\<rparr> else j"
  have prio: "jb_priority j \<le> NP_PRIORITY_MAX_QUEUES" and p: "p \<le> NP_PRIORITY_MAX_QUEUES" "jb_priority ?j = p"
    using assms(2) by (auto simp: np_jobqueue_insert_def p_def split: if_splits)
  show ?thesis
  proof (cases "\<not> jb_is_periodic ?j \<and> int (bh_count ?h) + 1 \<ge> int (bh_size ?h) - int (jq_periodic_jobs q)")
    case True
    then show ?thesis using assms prio p(2) by (auto simp: np_jobqueue_insert_def Let_def)
  next
    case False
    then obtain h' where h': "binheap_insert np_job_compare np_job_get_priority ?h ?j = Some h'"
        "ret" "q' = q\<lparr>jq_queues := (jq_queues q)[p := h']\<rparr>"
      using assms(2) prio p(2) unfolding np_jobqueue_insert_def Let_def by (auto simp: bind_eq_Some_conv)
    have inv: "heap_inv np_job_compare ?h" using jq_inv_nth [OF assms(1) p(1)] .
    have "bh_count ?h < bh_size ?h" using h'(1) by (simp add: binheap_insert_def split: if_splits)
    then have "heap_inv np_job_compare h'" "bag h' = add_mset ?j (queue_bag q p)"
      using jobs.insert_correct [OF inv, of np_job_get_priority ?j] h'(1) by auto
    moreover have "jb_user_data ?j = jb_user_data j" by simp
    ultimately show ?thesis
      using h'(2,3) jq_inv_upd [OF assms(1)] balance_upd [OF assms(1) p(1)] by (simp add: refs_in_add)
  qed
qed

lemma selected_balance:
  assumes "jq_inv q" "selected trylock now idxs q j q'" "\<forall>i \<in> set idxs. i \<le> NP_PRIORITY_MAX_QUEUES"
  shows "balance q' u = balance q u + (if jb_user_data j = Some u then 1 else 0)"
  using assms balance_upd [OF assms(1)] by (auto simp: selected_def refs_in_add)

lemma free_jobs_refs:
  "jq_refs (free_jobs ns q) u = jq_refs q u - refs_in (mset (map bn_data ns)) u
    \<and> jq_queues (free_jobs ns q) = jq_queues q"
  by (induction ns arbitrary: q) (auto simp: refs_in_add refs_in_def job_free_def split: option.splits)

lemma destroy_queues_refs:
  "jq_refs (destroy_queues hs q) u = jq_refs q u - (\<Sum>h \<leftarrow> hs. refs_in (bag h) u)"
  by (induction hs arbitrary: q) (auto simp: free_jobs_refs bag_def)

section \<open>Properties\<close>

definition idle_queue :: "nat \<Rightarrow> np_jobqueue" where
  "idle_queue n = \<lparr>jq_queues = replicate 5 (binheap_init job_zero n), jq_periodic_jobs = 0, jq_refs = (\<lambda>_. 0)\<rparr>"

lemma idle_queue_inv: "n < 32768 \<Longrightarrow> jq_inv (idle_queue n)"
  using binheap_init_wf [of n job_zero]
  by (simp add: jq_inv_def idle_queue_def NP_PRIORITY_MAX_QUEUES_def heap_inv_def ordered_def ordered_upto_def
      binheap_init_def Let_def)

text \<open>
  C10: the selection never fails on a well-formed job queue. When it returns a job, that job is due, is
  the first in scheduling order of its queue, is the only thing taken out, and no queue of a lower
  index that could be locked has a due job. When it returns none, no job within reach is due, and
  the time to sleep does not exceed the waiting time of any of them.
\<close>

theorem jobqueue_select_earliest:
  assumes "jq_inv q" "max_prio \<le> NP_PRIORITY_MAX_QUEUES"
  shows "\<exists>ret b q'. np_jobqueue_select_job_to_run trylock max_prio now q = Some (ret, b, q') \<and> jq_inv q'
    \<and> (case b of
         None \<Rightarrow> q' = q \<and> 0 \<le> ret
           \<and> (\<forall>i \<le> max_prio. trylock i \<longrightarrow> (\<forall>j \<in># queue_bag q i. now \<le> jb_tstamp j \<and> ret \<le> jb_tstamp j - now))
       | Some j \<Rightarrow> ret = 0 \<and> selected trylock now [0..<Suc max_prio] q j q')"
proof -
  have "\<forall>i \<in> set [0..<Suc max_prio]. i \<le> NP_PRIORITY_MAX_QUEUES" using assms(2) by auto
  then obtain ret b q' where r: "select_loop trylock now [0..<Suc max_prio] (NP_PI / 100) q = Some (ret, b, q')"
      "select_post trylock now [0..<Suc max_prio] (NP_PI / 100) q (ret, b, q')"
    using select_loop_correct [OF assms(1), of "[0..<Suc max_prio]" trylock now "NP_PI / 100"] by (metis prod_cases3)
  have "np_jobqueue_select_job_to_run trylock max_prio now q = Some (ret, b, q')"
    using assms(2) r(1) by (simp only: np_jobqueue_select_job_to_run_def if_True)
  moreover have "0 \<le> NP_PI / 100" by (simp add: NP_PI_def)
  ultimately show ?thesis
    using r(2) by (cases b) (auto simp: select_post_def less_Suc_eq_le simp del: upt_Suc)
qed

text \<open>
  C29: when no job within reach is due but one becomes due exactly now, the selection reports a sleep
  time of zero without having copied a job, and the worker then runs the zeroed job buffer.
\<close>

theorem jobqueue_runs_empty_job:
  assumes "jq_inv q" "max_prio \<le> NP_PRIORITY_MAX_QUEUES"
    "\<And>i j. i \<le> max_prio \<Longrightarrow> j \<in># queue_bag q i \<Longrightarrow> now \<le> jb_tstamp j"
    "i \<le> max_prio" "trylock i" "j \<in># queue_bag q i" "jb_tstamp j = now"
  shows "np_jobqueue_run_jobs_once cb rt n_threads trylock max_prio now started_at later q
    = map_option (Pair 0) (np_jobqueue_run_once cb rt n_threads started_at later job_zero q)"
proof -
  have "\<forall>i \<in> set [0..<Suc max_prio]. i \<le> NP_PRIORITY_MAX_QUEUES" using assms(2) by auto
  then obtain ret b q' where r: "select_loop trylock now [0..<Suc max_prio] (NP_PI / 100) q = Some (ret, b, q')"
      "select_post trylock now [0..<Suc max_prio] (NP_PI / 100) q (ret, b, q')"
    using select_loop_correct [OF assms(1), of "[0..<Suc max_prio]" trylock now "NP_PI / 100"] by (metis prod_cases3)
  have nosel: "\<not> selected trylock now [0..<Suc max_prio] q k q'" for k
  proof
    assume "selected trylock now [0..<Suc max_prio] q k q'"
    then obtain l where "l \<in> set [0..<Suc max_prio]" "k \<in># queue_bag q l" "jb_tstamp k < now"
      unfolding selected_def by fastforce
    then show False using assms(3) [of l k] by (simp del: upt_Suc)
  qed
  then have b: "b = None" using r(2) by (cases b) (auto simp: select_post_def)
  have i: "i \<in> set [0..<Suc max_prio]" using assms(4) by auto
  have post: "q' = q" "0 \<le> NP_PI / 100 \<longrightarrow> 0 \<le> ret"
      "\<forall>i \<in> set [0..<Suc max_prio]. trylock i \<longrightarrow> (\<forall>j \<in># queue_bag q i. ret \<le> jb_tstamp j - now)"
    using r(2) b by (simp_all add: select_post_def del: upt_Suc set_upt)
  have "0 \<le> NP_PI / 100" by (simp add: NP_PI_def)
  moreover have "ret \<le> jb_tstamp j - now" using post(3) i assms(5,6) by blast
  ultimately have "ret = 0" "q' = q" using post(1,2) assms(7) by simp_all
  then have "np_jobqueue_select_job_to_run trylock max_prio now q = Some (0, None, q)"
    using assms(2) r(1) b by (simp only: np_jobqueue_select_job_to_run_def if_True)
  then show ?thesis
    by (cases "np_jobqueue_run_once cb rt n_threads started_at later job_zero q")
       (simp_all add: np_jobqueue_run_jobs_once_def)
qed

lemma due_now_inv:
  "jq_inv (idle_queue 8) \<Longrightarrow> \<exists>q. np_jobqueue_insert 2 (job_zero\<lparr>jb_tstamp := 10\<rparr>) False (idle_queue 8) = Some (True, False, q)
     \<and> jq_inv q \<and> queue_bag q 0 = {#job_zero\<lparr>jb_tstamp := 10\<rparr>#} \<and> (\<forall>i. 0 < i \<longrightarrow> i \<le> 4 \<longrightarrow> queue_bag q i = {#})"
proof -
  assume inv: "jq_inv (idle_queue 8)"
  let ?j = "job_zero\<lparr>jb_tstamp := 10\<rparr>"
  have 0: "jq_queues (idle_queue 8) ! i = binheap_init job_zero 8" if "i \<le> 4" for i
    using that by (simp add: idle_queue_def)
  obtain h' where h': "np_jobqueue_insert 2 ?j False (idle_queue 8)
        = Some (True, False, (idle_queue 8)\<lparr>jq_queues := (jq_queues (idle_queue 8))[0 := h']\<rparr>)"
      "heap_inv np_job_compare h'" "bag h' = add_mset (?j\<lparr>jb_priority := 0\<rparr>) (bag (binheap_init job_zero 8))"
    using insert_periodic_or_room [OF inv, of ?j 0 2 "binheap_init job_zero 8" False] 0 [of 0]
    by (auto simp: job_zero_def binheap_init_def Let_def idle_queue_def)
  have len: "length (jq_queues (idle_queue 8)) = 5" by (simp add: idle_queue_def)
  have "bag (binheap_init job_zero 8) = {#}" using binheap_init_wf [of 8 job_zero] by simp
  then show ?thesis
    using h' len jq_inv_upd [OF inv h'(2), of 0] 0 by (auto simp: job_zero_def nth_list_update)
qed

theorem jobqueue_select_earliest_witness:
  "\<exists>q j q'. np_jobqueue_insert 2 (job_zero\<lparr>jb_tstamp := 10\<rparr>) False (idle_queue 8) = Some (True, False, q)
     \<and> np_jobqueue_select_job_to_run (\<lambda>_. True) 4 11 q = Some (0, Some j, q') \<and> jq_inv q'"
proof -
  obtain q where q: "np_jobqueue_insert 2 (job_zero\<lparr>jb_tstamp := 10\<rparr>) False (idle_queue 8) = Some (True, False, q)"
      "jq_inv q" "queue_bag q 0 = {#job_zero\<lparr>jb_tstamp := 10\<rparr>#}" using due_now_inv idle_queue_inv [of 8] by auto
  obtain ret b q' where r: "np_jobqueue_select_job_to_run (\<lambda>_. True) 4 11 q = Some (ret, b, q')" "jq_inv q'"
      "case b of None \<Rightarrow> q' = q \<and> 0 \<le> ret \<and> (\<forall>i \<le> 4. True \<longrightarrow> (\<forall>j \<in># queue_bag q i. 11 \<le> jb_tstamp j \<and> ret \<le> jb_tstamp j - 11))
        | Some j \<Rightarrow> ret = 0 \<and> selected (\<lambda>_. True) 11 [0..<Suc 4] q j q'"
    using jobqueue_select_earliest [OF q(2), of 4 "\<lambda>_. True" 11] unfolding NP_PRIORITY_MAX_QUEUES_def by blast
  then obtain j where "b = Some j" "ret = 0" using q(3) by (cases b) auto
  then show ?thesis using q(1) r(1,2) by blast
qed

theorem jobqueue_runs_empty_job_witness:
  "\<exists>q. np_jobqueue_insert 2 (job_zero\<lparr>jb_tstamp := 10\<rparr>) False (idle_queue 8) = Some (True, False, q)
     \<and> np_jobqueue_run_jobs_once (\<lambda>_ _. Some) (\<lambda>_ _. Some) 2 (\<lambda>_. True) 4 10 10 11 q = Some (0, q)"
proof -
  obtain q where q: "np_jobqueue_insert 2 (job_zero\<lparr>jb_tstamp := 10\<rparr>) False (idle_queue 8) = Some (True, False, q)"
      "jq_inv q" "queue_bag q 0 = {#job_zero\<lparr>jb_tstamp := 10\<rparr>#}" "\<forall>i. 0 < i \<longrightarrow> i \<le> 4 \<longrightarrow> queue_bag q i = {#}"
    using due_now_inv idle_queue_inv [of 8] by auto
  have "np_jobqueue_run_jobs_once (\<lambda>_ _. Some) (\<lambda>_ _. Some) 2 (\<lambda>_. True) 4 10 10 11 q
      = map_option (Pair 0) (np_jobqueue_run_once (\<lambda>_ _. Some) (\<lambda>_ _. Some) 2 10 11 job_zero q)"
  proof (rule jobqueue_runs_empty_job [OF q(2), where i = 0 and j = "job_zero\<lparr>jb_tstamp := 10\<rparr>"])
    show "10 \<le> jb_tstamp j" if "i \<le> 4" "j \<in># queue_bag q i" for i j
      using that q(3,4) by (cases i) auto
  qed (use q in \<open>simp_all add: NP_PRIORITY_MAX_QUEUES_def\<close>)
  moreover have "np_jobqueue_run_once (\<lambda>_ _. Some) (\<lambda>_ _. Some) 2 10 11 job_zero q = Some q"
    by (simp add: np_jobqueue_run_once_def run_job_def job_zero_def job_free_def)
  ultimately show ?thesis using q(1) by simp
qed

lemma submit_balance:
  assumes "jq_inv q" "np_jobqueue_submit_event_with_prio n_threads now delay key user_data priority q = Some (ret, q')"
  shows "jq_inv q' \<and> balance q' u = balance q u"
proof -
  define q1 where "q1 = (case user_data of None \<Rightarrow> q
      | Some u \<Rightarrow> q\<lparr>jq_refs := (jq_refs q)(u := jq_refs q u + 1)\<rparr>)"
  define j where "j = job_zero\<lparr>jb_user_data := user_data, jb_next := key, jb_type := 1,
      jb_tstamp := now + delay, jb_priority := priority, jb_interval := 0,
      jb_is_periodic := False, jb_funcs := None, jb_del_funcs := False\<rparr>"
  obtain sig q2 where ins: "np_jobqueue_insert n_threads j (delay = 0) q1 = Some (ret, sig, q2)"
      "q' = (if ret then q2 else job_free j q2)"
    using assms(2) unfolding np_jobqueue_submit_event_with_prio_def Let_def j_def [symmetric] q1_def [symmetric]
    by (auto simp: bind_eq_Some_conv)
  have inv1: "jq_inv q1" "balance q1 u = balance q u + (if user_data = Some u then 1 else 0)"
    using assms(1) by (auto simp: q1_def balance_refs split: option.splits)
  have "jb_user_data j = user_data" by (simp add: j_def)
  then show ?thesis
    using insert_balance [OF inv1(1) ins(1), of u] inv1(2) ins(2) by (auto simp: job_free_balance)
qed

lemma submit_callbacks_balance:
  assumes "jq_inv q" "np_jobqueue_submit_event_callbacks n_threads now delay key user_data callbacks q = Some q'"
  shows "jq_inv q' \<and> balance q' u = balance q u - (if user_data = Some u then 1 else 0)"
proof -
  define j where "j = job_zero\<lparr>jb_user_data := user_data, jb_next := key, jb_priority := 3, jb_tstamp := now, jb_type := 2,
      jb_is_periodic := False, jb_interval := delay, jb_funcs := Some callbacks, jb_del_funcs := False\<rparr>"
  obtain ret sig q2 where ins: "np_jobqueue_insert n_threads j (delay = 0) q = Some (ret, sig, q2)" "q' = (if ret then q2 else job_free j q2)"
    using assms(2) unfolding np_jobqueue_submit_event_callbacks_def Let_def j_def [symmetric] by (auto simp: bind_eq_Some_conv)
  have "jb_user_data j = user_data" by (simp add: j_def)
  then show ?thesis using insert_balance [OF assms(1) ins(1), of u] ins(2) by (auto simp: job_free_balance)
qed

lemma submit_periodic_balance:
  assumes "jq_inv q" "np_jobqueue_submit_event_periodic bump n_threads now priority first_delay interval callback q = Some q'"
  shows "jq_inv q' \<and> balance q' u = balance q u"
proof -
  define j where "j = job_zero\<lparr>jb_priority := priority, jb_tstamp := now + (if first_delay = 0 then 0 else max NP_SLEEP_MIN first_delay),
      jb_type := 2, jb_interval := max NP_SLEEP_MIN interval, jb_funcs := Some [Some callback], jb_is_periodic := True, jb_del_funcs := True\<rparr>"
  let ?q1 = "q\<lparr>jq_periodic_jobs := bump (jq_periodic_jobs q)\<rparr>"
  obtain ret sig q2 where ins: "np_jobqueue_insert n_threads j (first_delay = 0) ?q1 = Some (ret, sig, q2)" "q' = (if ret then q2 else job_free j q2)"
    using assms(2) unfolding np_jobqueue_submit_event_periodic_def Let_def j_def [symmetric] by (auto simp: bind_eq_Some_conv)
  have "jb_user_data j = None" "jq_inv ?q1" "balance ?q1 u = balance q u"
    using assms(1) by (simp_all add: j_def job_zero_def balance_def queued_refs_def)
  then show ?thesis using insert_balance [OF _ ins(1), of u] ins(2) by (auto simp: job_free_balance)
qed

text \<open>
  What the code that a job runs can do to the queue: it counts references up and down, and it submits events. The
  queue itself is private to its source file. A callback or an event handler is the list of these steps, which may
  depend on the event.
\<close>

datatype queue_op =
  Op_ref nat int
| Op_submit real real np_dhkey "nat option" nat
| Op_callbacks real real np_dhkey "nat option" "nat option list"
| Op_periodic real nat real real nat

fun run_op :: "(nat \<Rightarrow> nat) \<Rightarrow> nat \<Rightarrow> queue_op \<Rightarrow> np_jobqueue \<Rightarrow> np_jobqueue option" where
  "run_op bump n_threads (Op_ref u d) q = Some (q\<lparr>jq_refs := (jq_refs q)(u := jq_refs q u + d)\<rparr>)"
| "run_op bump n_threads (Op_submit now delay key user_data priority) q =
     map_option snd (np_jobqueue_submit_event_with_prio n_threads now delay key user_data priority q)"
| "run_op bump n_threads (Op_callbacks now delay key user_data callbacks) q =
     np_jobqueue_submit_event_callbacks n_threads now delay key user_data callbacks q"
| "run_op bump n_threads (Op_periodic now priority first_delay interval callback) q =
     np_jobqueue_submit_event_periodic bump n_threads now priority first_delay interval callback q"

fun run_ops :: "(nat \<Rightarrow> nat) \<Rightarrow> nat \<Rightarrow> queue_op list \<Rightarrow> np_jobqueue \<Rightarrow> np_jobqueue option" where
  "run_ops bump n_threads [] q = Some q"
| "run_ops bump n_threads (c # cs) q = do { q1 \<leftarrow> run_op bump n_threads c q; run_ops bump n_threads cs q1 }"

text \<open>The references that a step leaves without an owner (positive) or takes from one (negative).\<close>

fun op_change :: "nat \<Rightarrow> queue_op \<Rightarrow> int" where
  "op_change u (Op_ref v d) = (if v = u then d else 0)"
| "op_change u (Op_callbacks now delay key user_data callbacks) = (if user_data = Some u then - 1 else 0)"
| "op_change u _ = 0"

lemma run_op_balance:
  assumes "jq_inv q" "run_op bump n_threads c q = Some q'"
  shows "jq_inv q' \<and> balance q' u = balance q u + op_change u c"
proof (cases c)
  case (Op_ref v d)
  then show ?thesis using assms by (auto simp: balance_refs)
next
  case (Op_submit now delay key user_data priority)
  then show ?thesis using assms submit_balance [OF assms(1)] by fastforce
next
  case (Op_callbacks now delay key user_data callbacks)
  then show ?thesis using assms submit_callbacks_balance [OF assms(1)] by fastforce
next
  case (Op_periodic now priority first_delay interval callback)
  then show ?thesis using assms submit_periodic_balance [OF assms(1)] by fastforce
qed

lemma run_ops_balance:
  assumes "jq_inv q" "run_ops bump n_threads cs q = Some q'"
  shows "jq_inv q' \<and> balance q' u = balance q u + (\<Sum>c \<leftarrow> cs. op_change u c)"
  using assms
proof (induction cs arbitrary: q)
  case (Cons c cs)
  then obtain q1 where q1: "run_op bump n_threads c q = Some q1" "run_ops bump n_threads cs q1 = Some q'"
    by (auto simp: bind_eq_Some_conv)
  note b = run_op_balance [OF Cons.prems(1) q1(1), of u]
  then have "jq_inv q' \<and> balance q' u = balance q1 u + (\<Sum>c \<leftarrow> cs. op_change u c)" using Cons.IH [OF _ q1(2)] by blast
  then show ?case using b by simp
qed simp

text \<open>The steps of a job: those of its callbacks one after the other, or those of the handling of its event.\<close>

definition job_ops :: "(nat \<Rightarrow> nat option \<Rightarrow> queue_op list) \<Rightarrow> (np_dhkey \<Rightarrow> nat option \<Rightarrow> queue_op list) \<Rightarrow> np_job \<Rightarrow> queue_op list" where
  "job_ops callback handler job = (case jb_funcs job of
     Some fs \<Rightarrow> concat (map (\<lambda>f. case f of None \<Rightarrow> [] | Some g \<Rightarrow> callback g (jb_user_data job)) fs)
   | None \<Rightarrow> handler (jb_next job) (jb_user_data job))"

lemma run_ops_append: "run_ops bump n (xs @ ys) q = do { q1 \<leftarrow> run_ops bump n xs q; run_ops bump n ys q1 }"
  by (induction xs arbitrary: q) (auto split: bind_splits)

lemma run_callbacks_ops:
  "run_callbacks (\<lambda>f e. run_ops bump n (callback f e)) evt fs q
    = run_ops bump n (concat (map (\<lambda>f. case f of None \<Rightarrow> [] | Some g \<Rightarrow> callback g evt) fs)) q"
proof (induction fs arbitrary: q)
  case (Cons f fs)
  then show ?case by (cases f) (auto simp: run_ops_append split: bind_splits)
qed simp

lemma run_job_ops:
  "run_job (\<lambda>f e. run_ops bump n (callback f e)) (\<lambda>k e. run_ops bump n (handler k e)) job q = run_ops bump n (job_ops callback handler job) q"
  by (simp add: run_job_def job_ops_def run_callbacks_ops split: option.splits)

text \<open>Running a job ends with its reference given back, or with the job queued again.\<close>

lemma run_once_balance:
  assumes "jq_inv q" "np_jobqueue_run_once (\<lambda>f e. run_ops bump n (callback f e)) (\<lambda>k e. run_ops bump n (handler k e))
      n_threads started_at later job q = Some q'"
  shows "jq_inv q' \<and> balance q' u = balance q u + (\<Sum>c \<leftarrow> job_ops callback handler job. op_change u c)
    - (if jb_user_data job = Some u then 1 else 0)"
proof -
  obtain q1 where q1: "run_ops bump n (job_ops callback handler job) q = Some q1"
    using assms(2) by (auto simp: np_jobqueue_run_once_def bind_eq_Some_conv run_job_ops)
  note inv = run_ops_balance [OF assms(1) q1, of u]
  show ?thesis
  proof (cases "jb_is_periodic job")
    case True
    let ?j = "job\<lparr>jb_tstamp := max (started_at + jb_interval job) later\<rparr>"
    obtain sig where "np_jobqueue_insert n_threads ?j False q1 = Some (True, sig, q')"
      using assms(2) q1 True by (auto simp: np_jobqueue_run_once_def bind_eq_Some_conv run_job_ops split: if_splits)
    from insert_balance [OF conjunct1 [OF inv] this, of u] show ?thesis using inv by simp
  next
    case False
    then have "q' = job_free job q1" using assms(2) q1 by (simp add: np_jobqueue_run_once_def run_job_ops)
    then show ?thesis using inv by (simp add: job_free_balance)
  qed
qed

text \<open>
  C17: the books of references. Every queued job with user data holds one reference to it: submitting an event takes
  that reference and gives it back when the queue rejects the job, and a periodic job holds none. A submission with
  callbacks takes no reference: the job then holds one that was taken from somebody else, also when it is rejected.
  A worker that runs a job changes the references without an owner by what the steps of the job's callbacks or of
  the handling of its event change, and by nothing else: the reference of the job is given back after the job ran
  or goes back into the queue with it. Destroying the queue releases the references that the queued jobs hold.
\<close>

theorem jobqueue_references_balanced:
  assumes "jq_inv q"
  shows "(\<forall>ret q'. np_jobqueue_submit_event_with_prio n_threads now delay key user_data priority q = Some (ret, q')
            \<longrightarrow> jq_inv q' \<and> balance q' u = balance q u)
    \<and> (\<forall>q'. np_jobqueue_submit_event_periodic bump n_threads now priority delay interval f q = Some q'
            \<longrightarrow> jq_inv q' \<and> balance q' u = balance q u)
    \<and> (\<forall>q'. np_jobqueue_submit_event_callbacks n_threads now delay key user_data callbacks q = Some q'
            \<longrightarrow> jq_inv q' \<and> balance q' u = balance q u - (if user_data = Some u then 1 else 0))
    \<and> (\<forall>ret q'. np_jobqueue_run_jobs_once (\<lambda>f e. run_ops bump n_threads (callback f e)) (\<lambda>k e. run_ops bump n_threads (handler k e))
              n_threads trylock max_prio now started_at later q = Some (ret, q')
            \<longrightarrow> (\<exists>b q1. np_jobqueue_select_job_to_run trylock max_prio now q = Some (ret, b, q1) \<and> jq_inv q'
              \<and> balance q' u = balance q u + (if ret = 0
                  then \<Sum>c \<leftarrow> job_ops callback handler (case b of None \<Rightarrow> job_zero | Some j \<Rightarrow> j). op_change u c else 0)))
    \<and> jq_refs (np_jobqueue_destroy q) = balance q"
proof (intro conjI allI impI)
  fix ret q'
  assume "np_jobqueue_submit_event_with_prio n_threads now delay key user_data priority q = Some (ret, q')"
  from submit_balance [OF assms(1) this] show "jq_inv q'" "balance q' u = balance q u" by auto
next
  fix q'
  assume "np_jobqueue_submit_event_periodic bump n_threads now priority delay interval f q = Some q'"
  from submit_periodic_balance [OF assms(1) this] show "jq_inv q'" "balance q' u = balance q u" by auto
next
  fix q'
  assume "np_jobqueue_submit_event_callbacks n_threads now delay key user_data callbacks q = Some q'"
  from submit_callbacks_balance [OF assms(1) this]
  show "jq_inv q'" "balance q' u = balance q u - (if user_data = Some u then 1 else 0)" by auto
next
  fix ret q'
  assume run: "np_jobqueue_run_jobs_once (\<lambda>f e. run_ops bump n_threads (callback f e)) (\<lambda>k e. run_ops bump n_threads (handler k e))
      n_threads trylock max_prio now started_at later q = Some (ret, q')"
  then have max: "max_prio \<le> NP_PRIORITY_MAX_QUEUES"
    by (simp add: np_jobqueue_run_jobs_once_def np_jobqueue_select_job_to_run_def split: if_splits)
  then have idx: "\<forall>i \<in> set [0..<Suc max_prio]. i \<le> NP_PRIORITY_MAX_QUEUES" by auto
  then obtain t b q1 where r: "select_loop trylock now [0..<Suc max_prio] (NP_PI / 100) q = Some (t, b, q1)"
      "select_post trylock now [0..<Suc max_prio] (NP_PI / 100) q (t, b, q1)"
    using select_loop_correct [OF assms(1), of "[0..<Suc max_prio]" trylock now "NP_PI / 100"] by (metis prod_cases3)
  have inv1: "jq_inv q1" using r(2) by (simp add: select_post_def)
  define job where "job = (case b of None \<Rightarrow> job_zero | Some j \<Rightarrow> j)"
  have bal1: "balance q1 u = balance q u + (if jb_user_data job = Some u then 1 else 0)"
    using r(2) selected_balance [OF assms(1) _ idx]
    by (cases b) (auto simp: select_post_def job_def job_zero_def simp del: upt_Suc)
  have b_none: "t \<noteq> 0 \<Longrightarrow> b = None" using r(2) by (cases b) (auto simp: select_post_def)
  have sel: "np_jobqueue_select_job_to_run trylock max_prio now q = Some (t, b, q1)"
    using max r(1) by (simp only: np_jobqueue_select_job_to_run_def if_True)
  then consider "t = 0" "ret = 0" "np_jobqueue_run_once (\<lambda>f e. run_ops bump n_threads (callback f e)) (\<lambda>k e. run_ops bump n_threads (handler k e))
      n_threads started_at later job q1 = Some q'" | "t \<noteq> 0" "ret = t" "q' = q1"
    using run by (auto simp: np_jobqueue_run_jobs_once_def job_def [symmetric] bind_eq_Some_conv split: if_splits)
  then have "ret = t \<and> jq_inv q' \<and> balance q' u = balance q u + (if ret = 0 then \<Sum>c \<leftarrow> job_ops callback handler job. op_change u c else 0)"
  proof cases
    case 1
    then show ?thesis using run_once_balance [OF inv1 1(3), of u] bal1 by auto
  next
    case 2
    then show ?thesis using inv1 bal1 b_none by (simp add: job_def job_zero_def)
  qed
  then show "\<exists>b q1. np_jobqueue_select_job_to_run trylock max_prio now q = Some (ret, b, q1) \<and> jq_inv q'
      \<and> balance q' u = balance q u + (if ret = 0
          then \<Sum>c \<leftarrow> job_ops callback handler (case b of None \<Rightarrow> job_zero | Some j \<Rightarrow> j). op_change u c else 0)"
    using sel unfolding job_def by blast
next
  show "jq_refs (np_jobqueue_destroy q) = balance q"
    by (simp add: fun_eq_iff np_jobqueue_destroy_def destroy_queues_refs balance_def queued_refs_def)
qed

text \<open>An event with the user data 7 is submitted, taken out by a worker and handled; no reference is left.\<close>

lemma submitted_job:
  "\<exists>q. np_jobqueue_submit_event_with_prio 2 5 0 dhkey_zero (Some 7) 3 (idle_queue 8) = Some (True, q) \<and> jq_inv q
     \<and> queued_refs q 7 = 1 \<and> jq_refs q 7 = 1 \<and> (\<forall>i \<le> 4. \<forall>j \<in># queue_bag q i. \<not> jb_is_periodic j)"
proof -
  let ?q = "(idle_queue 8)\<lparr>jq_refs := (jq_refs (idle_queue 8))(7 := jq_refs (idle_queue 8) 7 + 1)\<rparr>"
  let ?j = "job_zero\<lparr>jb_user_data := Some 7, jb_next := dhkey_zero, jb_type := 1, jb_tstamp := 5 + 0, jb_priority := 3, jb_interval := 0,
      jb_is_periodic := False, jb_funcs := None, jb_del_funcs := False\<rparr>"
  have inv: "jq_inv ?q" using idle_queue_inv [of 8] by simp
  have h: "jq_queues ?q ! i = binheap_init job_zero 8" if "i \<le> 4" for i using that by (simp add: idle_queue_def)
  obtain h' where h': "np_jobqueue_insert 2 ?j True ?q = Some (True, True, ?q\<lparr>jq_queues := (jq_queues ?q)[3 := h']\<rparr>)"
      "bag h' = add_mset (?j\<lparr>jb_priority := 3\<rparr>) (bag (binheap_init job_zero 8))"
    using insert_periodic_or_room [OF inv, of ?j 3 2 "binheap_init job_zero 8" True] h [of 3]
    by (auto simp: binheap_init_def Let_def idle_queue_def NP_PRIORITY_MAX_QUEUES_def)
  let ?q' = "?q\<lparr>jq_queues := (jq_queues ?q)[3 := h']\<rparr>"
  have s: "np_jobqueue_submit_event_with_prio 2 5 0 dhkey_zero (Some 7) 3 (idle_queue 8) = Some (True, ?q')"
    using h'(1) by (simp add: np_jobqueue_submit_event_with_prio_def Let_def)
  have e: "bag (binheap_init job_zero 8) = {#}" using binheap_init_wf [of 8 job_zero] by simp
  have len: "length (jq_queues ?q) = 5" by (simp add: idle_queue_def)
  have "balance (idle_queue 8) 7 = 0" by (simp add: balance_def queued_refs_def idle_queue_def e refs_in_def sum_list_replicate)
  then have "jq_inv ?q' \<and> balance ?q' 7 = 0" using submit_balance [OF _ s, of 7] idle_queue_inv [of 8] by simp
  moreover have "jq_refs ?q' 7 = 1" by (simp add: idle_queue_def)
  moreover have "\<not> jb_is_periodic j" if "i \<le> 4" "j \<in># queue_bag ?q' i" for i j
    using that h'(2) e h [of i] len by (cases "i = 3") auto
  ultimately show ?thesis using s by (auto simp: balance_def)
qed

lemma run_returns:
  assumes "jq_inv q" "\<forall>i \<le> 4. \<forall>j \<in># queue_bag q i. \<not> jb_is_periodic j" "\<And>job q1. run_job cb rt job q1 \<noteq> None"
  shows "\<exists>ret q'. np_jobqueue_run_jobs_once cb rt n_threads trylock 4 now started_at later q = Some (ret, q')"
proof -
  have idx: "\<forall>i \<in> set [0..<Suc 4]. i \<le> NP_PRIORITY_MAX_QUEUES" by (auto simp: NP_PRIORITY_MAX_QUEUES_def)
  then obtain t b q1 where r: "select_loop trylock now [0..<Suc 4] (NP_PI / 100) q = Some (t, b, q1)"
      "select_post trylock now [0..<Suc 4] (NP_PI / 100) q (t, b, q1)"
    using select_loop_correct [OF assms(1), of "[0..<Suc 4]" trylock now "NP_PI / 100"] by (metis prod_cases3)
  define job where "job = (case b of None \<Rightarrow> job_zero | Some j \<Rightarrow> j)"
  have "\<not> jb_is_periodic job"
  proof (cases b)
    case None
    then show ?thesis by (simp add: job_def job_zero_def)
  next
    case (Some j)
    then have "selected trylock now [0..<Suc 4] q j q1" using r(2) by (simp add: select_post_def)
    then obtain pre i post where "[0..<Suc 4] = pre @ i # post" "j \<in># queue_bag q i" by (auto simp: selected_def)
    then have "i \<in> set [0..<Suc 4]" "j \<in># queue_bag q i" by simp_all
    then have "i \<le> 4" "j \<in># queue_bag q i" by (simp_all del: upt_Suc)
    then show ?thesis using assms(2) Some by (simp add: job_def)
  qed
  moreover obtain q2 where "run_job cb rt job q1 = Some q2" using assms(3) by blast
  ultimately have "np_jobqueue_run_once cb rt n_threads started_at later job q1 = Some (job_free job q2)"
    by (simp add: np_jobqueue_run_once_def)
  then show ?thesis using r(1)
    by (cases "t = 0") (simp_all add: np_jobqueue_run_jobs_once_def np_jobqueue_select_job_to_run_def NP_PRIORITY_MAX_QUEUES_def job_def
        del: upt_Suc upt_rec_numeral)
qed

theorem jobqueue_references_balanced_witness:
  "\<exists>q. np_jobqueue_submit_event_with_prio 2 5 0 dhkey_zero (Some 7) 3 (idle_queue 8) = Some (True, q)
     \<and> queued_refs q 7 = 1 \<and> jq_refs q 7 = 1 \<and> jq_refs (np_jobqueue_destroy q) 7 = 0
     \<and> (\<exists>ret q'. np_jobqueue_run_jobs_once (\<lambda>f e. run_ops Suc 2 []) (\<lambda>k e. run_ops Suc 2 [Op_ref 7 1, Op_ref 7 (- 1)])
          2 (\<lambda>_. True) 4 6 6 7 q = Some (ret, q') \<and> balance q' 7 = 0)"
proof -
  let ?cb = "\<lambda>f e. run_ops Suc 2 []" and ?rt = "\<lambda>k e. run_ops Suc 2 [Op_ref 7 1, Op_ref 7 (- 1)]"
  obtain q where q: "np_jobqueue_submit_event_with_prio 2 5 0 dhkey_zero (Some 7) 3 (idle_queue 8) = Some (True, q)" "jq_inv q"
      "queued_refs q 7 = 1" "jq_refs q 7 = 1" "\<forall>i \<le> 4. \<forall>j \<in># queue_bag q i. \<not> jb_is_periodic j" using submitted_job by blast
  have b: "balance q 7 = 0" using q by (simp add: balance_def)
  note w = jobqueue_references_balanced [OF q(2), where u = 7 and bump = Suc and n_threads = 2 and callback = "\<lambda>f e. []"
      and handler = "\<lambda>k e. [Op_ref 7 1, Op_ref 7 (- 1)]" and trylock = "\<lambda>_. True" and max_prio = 4 and now = 6 and started_at = 6 and later = 7]
  have none: "concat (map (\<lambda>f. case f of None \<Rightarrow> [] | Some g \<Rightarrow> []) fs) = []" for fs :: "nat option list"
    by (auto split: option.splits)
  have "run_job ?cb ?rt job q1 \<noteq> None" for job q1
    by (simp add: run_job_ops [where callback = "\<lambda>f e. []" and handler = "\<lambda>k e. [Op_ref 7 1, Op_ref 7 (- 1)]"] job_ops_def none split: option.splits)
  then obtain ret q' where run: "np_jobqueue_run_jobs_once ?cb ?rt 2 (\<lambda>_. True) 4 6 6 7 q = Some (ret, q')"
    using run_returns [OF q(2,5), of ?cb ?rt] by blast
  obtain b' where "balance q' 7 = balance q 7 + (if ret = 0
      then \<Sum>c \<leftarrow> job_ops (\<lambda>f e. []) (\<lambda>k e. [Op_ref 7 1, Op_ref 7 (- 1)]) (case b' of None \<Rightarrow> job_zero | Some j \<Rightarrow> j). op_change 7 c else 0)"
    using w run by blast
  moreover have "(\<Sum>c \<leftarrow> job_ops (\<lambda>f e. []) (\<lambda>k e. [Op_ref 7 1, Op_ref 7 (- 1)]) j. op_change 7 c) = 0" for j
    by (simp add: job_ops_def none split: option.splits)
  ultimately have "balance q' 7 = 0" using b by simp
  moreover have "jq_refs (np_jobqueue_destroy q) 7 = 0" using w b by simp
  ultimately show ?thesis using q run by blast
qed

end
