(* ===== verification/Np_Leafset.thy ===== *)
theory Np_Leafset
  imports Np_Keysort Np_Sll
begin

text \<open>
  The routing module's state (\<^verbatim>\<open>np_module_struct(route)\<close> of \<^verbatim>\<open>src/np_route.c\<close>) and the operations on
  its two leafsets. A key object is represented by its dhkey, of which the key cache holds at most
  one object; the leafsets are single linked lists, used here through the list operations their
  refinement in \<open>Np_Sll\<close> justifies. The references \<^verbatim>\<open>ref_route_inroute\<close> and \<^verbatim>\<open>ref_route_inleafset\<close> are
  counted for each key.

  The invariant \<open>leaf_inv\<close> says what a leafset is: short enough, without doubles, sorted by distance,
  on its side of the ring, with the range and counters that go with it.
\<close>

section \<open>State\<close>

record np_route =
  my_key :: np_dhkey
  table :: "np_dhkey option list"
  route_count :: u32
  left_leafset :: "np_dhkey list"
  right_leafset :: "np_dhkey list"
  leafset_size :: nat
  Rrange :: np_dhkey
  Lrange :: np_dhkey
  leafset_left_count :: u32
  leafset_right_count :: u32
  inroute_refs :: "np_dhkey \<Rightarrow> int"
  inleafset_refs :: "np_dhkey \<Rightarrow> int"

definition NP_ROUTES_TABLE_SIZE :: nat where
  "NP_ROUTES_TABLE_SIZE = 64 * 16 * 3"

definition np_route_init :: "np_dhkey \<Rightarrow> nat \<Rightarrow> np_route" where
  "np_route_init me settings_leafset_size =
     \<lparr>my_key = me, table = replicate NP_ROUTES_TABLE_SIZE None, route_count = 0,
      left_leafset = [], right_leafset = [], leafset_size = settings_leafset_size,
      Rrange = np_dhkey_assign me, Lrange = np_dhkey_assign me,
      leafset_left_count = 0, leafset_right_count = 0,
      inroute_refs = (\<lambda>_. 0), inleafset_refs = (\<lambda>_. 0)\<rparr>"

section \<open>Operations\<close>

definition np_key_cmp :: "np_dhkey option \<Rightarrow> np_dhkey option \<Rightarrow> int" where
  "np_key_cmp k1 k2 =
     (case k1 of None \<Rightarrow> -1
      | Some a \<Rightarrow> (case k2 of None \<Rightarrow> 1 | Some b \<Rightarrow> np_dhkey_cmp_ptr (Some a) (Some b)))"

definition np_key_cmp_inv :: "np_dhkey option \<Rightarrow> np_dhkey option \<Rightarrow> int" where
  "np_key_cmp_inv k1 k2 = - 1 * np_key_cmp k1 k2"

definition np_route_leafset_range_update :: "np_route \<Rightarrow> np_route" where
  "np_route_leafset_range_update r =
     (let r1 = r\<lparr>Rrange := (if right_leafset r \<noteq> [] then np_dhkey_assign (last (right_leafset r))
                           else np_dhkey_assign (my_key r))\<rparr>
      in r1\<lparr>Lrange := (if left_leafset r1 \<noteq> [] then np_dhkey_assign (last (left_leafset r1))
                       else np_dhkey_assign (my_key r1))\<rparr>)"

text \<open>
  Adding a key to one side: prepend and sort when there is room or the key lies within the range,
  then cut the side back to its size. The result has the added and the deleted key.
\<close>

definition leafset_add ::
  "np_dhkey \<Rightarrow> nat \<Rightarrow> bool \<Rightarrow> np_dhkey \<Rightarrow> np_dhkey list \<Rightarrow> np_dhkey list \<times> np_dhkey option \<times> np_dhkey option" where
  "leafset_add me max_size in_range node_key leafset =
     (let (leafset1, add_to) =
            (if length leafset < max_size \<or> in_range
             then (np_keycache_sort_keys_kd (node_key # leafset) me, Some node_key)
             else (leafset, None))
      in if length leafset1 > max_size then (butlast leafset1, add_to, Some (last leafset1))
         else (leafset1, add_to, None))"

definition leafset_leave ::
  "np_dhkey \<Rightarrow> np_route \<Rightarrow> np_route \<times> np_dhkey option \<times> np_dhkey option" where
  "leafset_leave node_key r =
     (let find_right = find (\<lambda>x. np_key_cmp (Some x) (Some node_key) = 0) (right_leafset r);
          find_left = find (\<lambda>x. np_key_cmp (Some x) (Some node_key) = 0) (left_leafset r)
      in if find_right \<noteq> None
         then (r\<lparr>right_leafset := remove_first (\<lambda>x. np_key_cmp_inv (Some x) (Some node_key) = 0) (right_leafset r)\<rparr>,
               None, Some node_key)
         else if find_left \<noteq> None
         then (r\<lparr>left_leafset := remove_first (\<lambda>x. np_key_cmp (Some x) (Some node_key) = 0) (left_leafset r)\<rparr>,
               None, Some node_key)
         else (r, None, None))"

definition leafset_join ::
  "np_dhkey \<Rightarrow> np_route \<Rightarrow> np_route \<times> np_dhkey option \<times> np_dhkey option" where
  "leafset_join node_key r =
     (let find_right = find (\<lambda>x. np_key_cmp (Some x) (Some node_key) = 0) (right_leafset r);
          find_left = find (\<lambda>x. np_key_cmp (Some x) (Some node_key) = 0) (left_leafset r)
      in if find_right \<noteq> None \<or> find_left \<noteq> None then (r, None, None)
         else
           let my_inverse_dhkey = np_dhkey_add (my_key r) np_dhkey_half;
               (r1, add_to, deleted_from) =
                 (if np_dhkey_between node_key (my_key r) my_inverse_dhkey True
                  then (let (l, a, d) = leafset_add (my_key r) (leafset_size r)
                                (np_dhkey_between node_key (my_key r) (Rrange r) False) node_key (right_leafset r)
                        in (r\<lparr>right_leafset := l\<rparr>, a, d))
                  else (let (l, a, d) = leafset_add (my_key r) (leafset_size r)
                                (np_dhkey_between node_key (Lrange r) (my_key r) False) node_key (left_leafset r)
                        in (r\<lparr>left_leafset := l\<rparr>, a, d)))
           in if deleted_from \<noteq> None \<and> np_key_cmp deleted_from add_to = 0 then (r1, None, None)
              else (r1, add_to, deleted_from))"

text \<open>
  \<^verbatim>\<open>_np_route_leafset_update\<close>: the out-parameters keep their old values \<open>deleted\<close> and \<open>added\<close> when the
  function returns early.
\<close>

definition np_route_leafset_update ::
  "np_dhkey \<Rightarrow> bool \<Rightarrow> np_dhkey option \<Rightarrow> np_dhkey option \<Rightarrow> np_route \<Rightarrow> np_route \<times> np_dhkey option \<times> np_dhkey option" where
  "np_route_leafset_update node_key joined deleted added r =
     (if np_key_cmp (Some node_key) (Some (my_key r)) = 0 then (r, deleted, added)
      else
        let (r1, add_to, deleted_from) = (if \<not> joined then leafset_leave node_key r else leafset_join node_key r);
            r2 = (if deleted_from \<noteq> None \<or> add_to \<noteq> None then np_route_leafset_range_update r1 else r1);
            r3 = (case add_to of None \<Rightarrow> r2
                  | Some k \<Rightarrow> r2\<lparr>inleafset_refs := (inleafset_refs r2)(k := inleafset_refs r2 k + 1)\<rparr>);
            r4 = (case deleted_from of None \<Rightarrow> r3
                  | Some k \<Rightarrow> r3\<lparr>inleafset_refs := (inleafset_refs r3)(k := inleafset_refs r3 k - 1)\<rparr>)
        in (r4\<lparr>leafset_left_count := of_nat (length (left_leafset r4)),
               leafset_right_count := of_nat (length (right_leafset r4))\<rparr>,
            deleted_from, add_to))"

definition np_route_append_leafset_to_sll :: "np_dhkey list \<Rightarrow> np_dhkey list \<Rightarrow> np_dhkey list" where
  "np_route_append_leafset_to_sll leafset result = result @ leafset"

definition np_route_neighbors :: "np_route \<Rightarrow> np_dhkey list" where
  "np_route_neighbors r =
     np_keycache_sort_keys_kd
       (np_route_append_leafset_to_sll (right_leafset r) (np_route_append_leafset_to_sll (left_leafset r) []))
       (my_key r)"

text \<open>The loop of \<^verbatim>\<open>_np_route_leafset_clear\<close>, with its assertion on the deleted key.\<close>

fun leafset_clear_loop :: "np_dhkey list \<Rightarrow> np_dhkey option \<Rightarrow> np_dhkey option \<Rightarrow> np_route \<Rightarrow> np_route option" where
  "leafset_clear_loop [] deleted added r = Some r"
| "leafset_clear_loop (x # xs) deleted added r =
     (let (r1, deleted1, added1) = np_route_leafset_update x False deleted added r
      in if deleted1 = Some x then leafset_clear_loop xs deleted1 added1 r1 else None)"

definition np_route_leafset_clear :: "np_route \<Rightarrow> np_route option" where
  "np_route_leafset_clear r = leafset_clear_loop (np_route_neighbors r) None None r"

definition np_route_my_key_count_neighbors :: "np_route \<Rightarrow> u32 \<times> u32 \<times> u32" where
  "np_route_my_key_count_neighbors r =
     (leafset_left_count r + leafset_right_count r, leafset_left_count r, leafset_right_count r)"

section \<open>The invariant\<close>

definition right_side :: "np_route \<Rightarrow> np_dhkey \<Rightarrow> bool" where
  "right_side r x \<longleftrightarrow> np_dhkey_between x (my_key r) (np_dhkey_add (my_key r) np_dhkey_half) True"

definition side_ok :: "np_dhkey \<Rightarrow> nat \<Rightarrow> np_dhkey list \<Rightarrow> bool" where
  "side_ok me n xs \<longleftrightarrow> length xs \<le> n \<and> distinct xs \<and> sorted (map (kd_rank me) xs) \<and> me \<notin> set xs"

text \<open>The range is a key of the side that no other one exceeds in distance, or the own key.\<close>

definition range_ok :: "np_dhkey \<Rightarrow> np_dhkey set \<Rightarrow> np_dhkey \<Rightarrow> bool" where
  "range_ok me S rng \<longleftrightarrow>
     (if S = {} then rng = me else rng \<in> S \<and> (\<forall>x \<in> S. kd_rank me x \<le> kd_rank me rng))"

definition leaf_set :: "np_route \<Rightarrow> np_dhkey set" where
  "leaf_set r = set (left_leafset r) \<union> set (right_leafset r)"

definition leaf_inv :: "np_route \<Rightarrow> bool" where
  "leaf_inv r \<longleftrightarrow>
     side_ok (my_key r) (leafset_size r) (left_leafset r)
     \<and> side_ok (my_key r) (leafset_size r) (right_leafset r)
     \<and> (\<forall>x \<in> set (left_leafset r). \<not> right_side r x) \<and> (\<forall>x \<in> set (right_leafset r). right_side r x)
     \<and> range_ok (my_key r) (set (left_leafset r)) (Lrange r)
     \<and> range_ok (my_key r) (set (right_leafset r)) (Rrange r)
     \<and> leafset_left_count r = of_nat (length (left_leafset r))
     \<and> leafset_right_count r = of_nat (length (right_leafset r))
     \<and> inleafset_refs r = (\<lambda>k. if k \<in> leaf_set r then 1 else 0)"

lemma np_key_cmp_zero [simp]:
  "np_key_cmp (Some a) (Some b) = 0 \<longleftrightarrow> a = b" "np_key_cmp (Some a) None = 1"
  "np_key_cmp_inv (Some a) (Some b) = 0 \<longleftrightarrow> a = b"
  by (auto simp: np_key_cmp_def np_key_cmp_inv_def np_simps)

lemma find_eq_None [simp]: "find (\<lambda>x. x = a) xs = None \<longleftrightarrow> a \<notin> set xs"
  by (auto simp: find_None_iff)

lemma find_eq_Some [simp]: "find (\<lambda>x. x = a) xs = Some y \<longleftrightarrow> y = a \<and> a \<in> set xs"
  by (induction xs) auto

lemma remove_first_eq: "remove_first (\<lambda>x. x = a) xs = remove1 a xs"
  by (induction xs) auto

lemma sorted_last_max: "sorted (map f xs) \<Longrightarrow> x \<in> set xs \<Longrightarrow> f x \<le> f (last xs)"
  by (induction xs) auto

lemma range_ok_last:
  "side_ok me n xs \<Longrightarrow> range_ok me (set xs) (if xs \<noteq> [] then last xs else me)"
  by (auto simp: range_ok_def side_ok_def intro: sorted_last_max)

lemma side_ok_remove1: "side_ok me n xs \<Longrightarrow> side_ok me n (remove1 a xs)"
  by (auto simp: side_ok_def length_remove1 distinct_remove1 sorted_map_remove1 dest: notin_set_remove1)

lemma side_ok_butlast: "side_ok me (Suc n) xs \<Longrightarrow> side_ok me n (butlast xs)"
  by (auto simp: side_ok_def distinct_butlast map_butlast dest: in_set_butlastD sorted_butlast)

lemma leafset_add_ok:
  assumes "side_ok me n xs" "node \<notin> set xs" "node \<noteq> me"
  shows "\<exists>l a d. leafset_add me n in_range node xs = (l, a, d) \<and> side_ok me n l
    \<and> (a = None \<and> d = None \<and> l = xs \<and> length xs = n \<and> \<not> in_range
       \<or> a = Some node \<and> d = None \<and> set l = insert node (set xs)
       \<or> (\<exists>z. a = Some node \<and> d = Some z \<and> z \<in> insert node (set xs) \<and> set l = insert node (set xs) - {z}
            \<and> length xs = n))"
proof (cases "length xs < n \<or> in_range")
  case False
  then show ?thesis using assms(1) by (auto simp: leafset_add_def side_ok_def)
next
  case True
  let ?l = "np_keycache_sort_keys_kd (node # xs) me"
  have ok: "side_ok me (Suc n) ?l"
    using assms sort_keys_kd_correct(2) [where key = me and xs = "node # xs"] by (auto simp: side_ok_def)
  have st: "set ?l = insert node (set xs)" by simp
  show ?thesis
  proof (cases "length ?l > n")
    case False
    then have "side_ok me n ?l" using ok by (simp add: side_ok_def)
    then show ?thesis using True False st by (simp add: leafset_add_def)
  next
    case len: True
    then have "length xs = n" using assms(1) by (simp add: side_ok_def)
    obtain ys z where l: "?l = ys @ [z]" using len by (cases ?l rule: rev_cases) auto
    have "z \<notin> set ys" using ok l by (simp add: side_ok_def)
    moreover have "insert z (set ys) = insert node (set xs)" using st unfolding l by simp
    ultimately have "set ys = insert node (set xs) - {z}" "z \<in> insert node (set xs)" by auto
    moreover have "leafset_add me n in_range node xs = (ys, Some node, Some z)"
      using True len l by (simp add: leafset_add_def)
    moreover have "side_ok me n ys" using side_ok_butlast [OF ok] l by simp
    ultimately show ?thesis using \<open>length xs = n\<close> by simp
  qed
qed

text \<open>What leaving and joining do before ranges, references and counters are brought up to date.\<close>

definition leaf_sides :: "np_route \<Rightarrow> bool" where
  "leaf_sides r \<longleftrightarrow>
     side_ok (my_key r) (leafset_size r) (left_leafset r)
     \<and> side_ok (my_key r) (leafset_size r) (right_leafset r)
     \<and> (\<forall>x \<in> set (left_leafset r). \<not> right_side r x) \<and> (\<forall>x \<in> set (right_leafset r). right_side r x)"

definition only_leafsets :: "np_route \<Rightarrow> np_route \<Rightarrow> bool" where
  "only_leafsets r r' \<longleftrightarrow> (\<exists>ls rs. r' = r\<lparr>left_leafset := ls, right_leafset := rs\<rparr>)"

definition leaf_change :: "np_route \<Rightarrow> np_dhkey \<Rightarrow> np_route \<times> np_dhkey option \<times> np_dhkey option \<Rightarrow> bool" where
  "leaf_change r node res \<longleftrightarrow>
     (case res of (r1, a, d) \<Rightarrow>
        only_leafsets r r1 \<and> leaf_sides r1
        \<and> leaf_set r1 = (leaf_set r \<union> set_option a) - set_option d
        \<and> (a = None \<or> a = Some node \<and> node \<notin> leaf_set r)
        \<and> (case d of None \<Rightarrow> True | Some z \<Rightarrow> z \<in> leaf_set r)
        \<and> (a = None \<and> d = None \<longrightarrow> set (left_leafset r1) = set (left_leafset r)
              \<and> set (right_leafset r1) = set (right_leafset r)))"

lemma leaf_sides_disjoint:
  "leaf_sides r \<Longrightarrow> set (left_leafset r) \<inter> set (right_leafset r) = {}"
  by (auto simp: leaf_sides_def)

lemma right_side_upd [simp]:
  "right_side (r\<lparr>left_leafset := ls\<rparr>) = right_side r" "right_side (r\<lparr>right_leafset := rs\<rparr>) = right_side r"
  by (auto simp: right_side_def fun_eq_iff)

lemma only_leafsets_upd [simp]:
  "only_leafsets r r" "only_leafsets r (r\<lparr>left_leafset := ls\<rparr>)" "only_leafsets r (r\<lparr>right_leafset := rs\<rparr>)"
  unfolding only_leafsets_def
  by (rule exI [of _ "left_leafset r"], rule exI [of _ "right_leafset r"], simp,
      rule exI [of _ ls], rule exI [of _ "right_leafset r"], simp,
      rule exI [of _ "left_leafset r"], rule exI [of _ rs], simp)

lemma leafset_leave_change:
  assumes "leaf_sides r"
  shows "leaf_change r node (leafset_leave node r)
    \<and> (case leafset_leave node r of (r1, a, d) \<Rightarrow> a = None \<and> d = (if node \<in> leaf_set r then Some node else None))"
proof (cases "node \<in> set (right_leafset r)")
  case True
  then have "node \<notin> set (left_leafset r)" using leaf_sides_disjoint [OF assms] by blast
  moreover have "distinct (right_leafset r)" using assms by (simp add: leaf_sides_def side_ok_def)
  ultimately show ?thesis using True assms
    by (auto simp: leaf_change_def leafset_leave_def remove_first_eq leaf_set_def leaf_sides_def side_ok_remove1)
next
  case False
  moreover have "distinct (left_leafset r)" using assms by (simp add: leaf_sides_def side_ok_def)
  ultimately show ?thesis using assms
    by (auto simp: leaf_change_def leafset_leave_def remove_first_eq leaf_set_def leaf_sides_def side_ok_remove1)
qed

lemma leafset_join_change:
  assumes "leaf_sides r" "node \<noteq> my_key r"
  shows "leaf_change r node (leafset_join node r)
    \<and> (case leafset_join node r of (r1, a, d) \<Rightarrow>
        node \<in> leaf_set r1 \<or> length (if right_side r node then right_leafset r else left_leafset r) = leafset_size r)"
proof (cases "node \<in> leaf_set r")
  case True
  then show ?thesis using assms by (auto simp: leaf_change_def leafset_join_def leaf_set_def)
next
  case False
  then have no: "node \<notin> set (left_leafset r)" "node \<notin> set (right_leafset r)" by (simp_all add: leaf_set_def)
  note dis = leaf_sides_disjoint [OF assms(1)]
  have side: "side_ok (my_key r) (leafset_size r) (left_leafset r)" "side_ok (my_key r) (leafset_size r) (right_leafset r)"
    using assms(1) by (simp_all add: leaf_sides_def)
  show ?thesis
  proof (cases "right_side r node")
    case True
    obtain l a d where add: "leafset_add (my_key r) (leafset_size r)
        (np_dhkey_between node (my_key r) (Rrange r) False) node (right_leafset r) = (l, a, d)"
      "side_ok (my_key r) (leafset_size r) l"
      "a = None \<and> d = None \<and> l = right_leafset r \<and> length (right_leafset r) = leafset_size r
         \<and> \<not> np_dhkey_between node (my_key r) (Rrange r) False
       \<or> a = Some node \<and> d = None \<and> set l = insert node (set (right_leafset r))
       \<or> (\<exists>z. a = Some node \<and> d = Some z \<and> z \<in> insert node (set (right_leafset r))
            \<and> set l = insert node (set (right_leafset r)) - {z} \<and> length (right_leafset r) = leafset_size r)"
      using leafset_add_ok [OF side(2) no(2) assms(2), of "np_dhkey_between node (my_key r) (Rrange r) False"] by blast
    have eq: "leafset_join node r = (let r1 = r\<lparr>right_leafset := l\<rparr> in
        if d \<noteq> None \<and> np_key_cmp d a = 0 then (r1, None, None) else (r1, a, d))"
      using True no by (simp add: leafset_join_def add(1) right_side_def Let_def)
    show ?thesis using add(2,3) True no dis assms
      by (auto simp: eq leaf_change_def leaf_set_def leaf_sides_def Let_def)
  next
    case False
    obtain l a d where add: "leafset_add (my_key r) (leafset_size r)
        (np_dhkey_between node (Lrange r) (my_key r) False) node (left_leafset r) = (l, a, d)"
      "side_ok (my_key r) (leafset_size r) l"
      "a = None \<and> d = None \<and> l = left_leafset r \<and> length (left_leafset r) = leafset_size r
         \<and> \<not> np_dhkey_between node (Lrange r) (my_key r) False
       \<or> a = Some node \<and> d = None \<and> set l = insert node (set (left_leafset r))
       \<or> (\<exists>z. a = Some node \<and> d = Some z \<and> z \<in> insert node (set (left_leafset r))
            \<and> set l = insert node (set (left_leafset r)) - {z} \<and> length (left_leafset r) = leafset_size r)"
      using leafset_add_ok [OF side(1) no(1) assms(2), of "np_dhkey_between node (Lrange r) (my_key r) False"] by blast
    have eq: "leafset_join node r = (let r1 = r\<lparr>left_leafset := l\<rparr> in
        if d \<noteq> None \<and> np_key_cmp d a = 0 then (r1, None, None) else (r1, a, d))"
      using False no by (simp add: leafset_join_def add(1) right_side_def Let_def)
    show ?thesis using add(2,3) False no dis assms
      by (auto simp: eq leaf_change_def leaf_set_def leaf_sides_def Let_def)
  qed
qed

text \<open>The second half of the update, as a function of the change.\<close>

definition leafset_finish :: "np_route \<times> np_dhkey option \<times> np_dhkey option \<Rightarrow> np_route" where
  "leafset_finish res =
     (case res of (r1, add_to, deleted_from) \<Rightarrow>
        let r2 = (if deleted_from \<noteq> None \<or> add_to \<noteq> None then np_route_leafset_range_update r1 else r1);
            r3 = (case add_to of None \<Rightarrow> r2
                  | Some k \<Rightarrow> r2\<lparr>inleafset_refs := (inleafset_refs r2)(k := inleafset_refs r2 k + 1)\<rparr>);
            r4 = (case deleted_from of None \<Rightarrow> r3
                  | Some k \<Rightarrow> r3\<lparr>inleafset_refs := (inleafset_refs r3)(k := inleafset_refs r3 k - 1)\<rparr>)
        in r4\<lparr>leafset_left_count := of_nat (length (left_leafset r4)),
              leafset_right_count := of_nat (length (right_leafset r4))\<rparr>)"

lemma leafset_update_finish:
  "node \<noteq> my_key r \<Longrightarrow> np_route_leafset_update node joined deleted added r =
     (let res = (if \<not> joined then leafset_leave node r else leafset_join node r)
      in (leafset_finish res, snd (snd res), fst (snd res)))"
  by (simp add: np_route_leafset_update_def leafset_finish_def Let_def case_prod_unfold)

lemma leafset_finish_fields:
  "my_key (leafset_finish (r1, a, d)) = my_key r1" "table (leafset_finish (r1, a, d)) = table r1"
  "route_count (leafset_finish (r1, a, d)) = route_count r1"
  "inroute_refs (leafset_finish (r1, a, d)) = inroute_refs r1"
  "left_leafset (leafset_finish (r1, a, d)) = left_leafset r1"
  "right_leafset (leafset_finish (r1, a, d)) = right_leafset r1"
  "leafset_size (leafset_finish (r1, a, d)) = leafset_size r1"
  "leafset_left_count (leafset_finish (r1, a, d)) = of_nat (length (left_leafset r1))"
  "leafset_right_count (leafset_finish (r1, a, d)) = of_nat (length (right_leafset r1))"
  "Rrange (leafset_finish (r1, a, d)) = (if a = None \<and> d = None then Rrange r1
     else if right_leafset r1 \<noteq> [] then last (right_leafset r1) else my_key r1)"
  "Lrange (leafset_finish (r1, a, d)) = (if a = None \<and> d = None then Lrange r1
     else if left_leafset r1 \<noteq> [] then last (left_leafset r1) else my_key r1)"
  "inleafset_refs (leafset_finish (r1, a, d)) = (\<lambda>k. inleafset_refs r1 k
     + (if a = Some k then 1 else 0) - (if d = Some k then 1 else 0))"
  by (auto simp: leafset_finish_def np_route_leafset_range_update_def Let_def np_simps fun_eq_iff split: option.splits)

lemma leaf_set_finish [simp]: "leaf_set (leafset_finish (r1, a, d)) = leaf_set r1"
  by (simp add: leaf_set_def leafset_finish_fields)

lemma only_leafsets_my_key: "only_leafsets r r' \<Longrightarrow> my_key r' = my_key r"
  by (auto simp: only_leafsets_def)

lemma leaf_inv_sides: "leaf_inv r \<Longrightarrow> leaf_sides r"
  by (simp add: leaf_inv_def leaf_sides_def)

lemma leafset_finish_inv:
  assumes "leaf_inv r" "leaf_change r node (r1, a, d)"
  shows "leaf_inv (leafset_finish (r1, a, d))"
proof -
  from assms(2) obtain ls rs where r1: "r1 = r\<lparr>left_leafset := ls, right_leafset := rs\<rparr>"
    by (auto simp: leaf_change_def only_leafsets_def)
  have sides: "leaf_sides r1" and st: "leaf_set r1 = (leaf_set r \<union> set_option a) - set_option d"
    and a: "a = None \<or> a = Some node \<and> node \<notin> leaf_set r"
    and d: "case d of None \<Rightarrow> True | Some z \<Rightarrow> z \<in> leaf_set r"
    and same: "a = None \<and> d = None \<longrightarrow> set ls = set (left_leafset r) \<and> set rs = set (right_leafset r)"
    using assms(2) by (simp_all add: leaf_change_def r1)
  have so: "side_ok (my_key r) (leafset_size r) ls" "side_ok (my_key r) (leafset_size r) rs"
    using sides by (simp_all add: leaf_sides_def r1)
  have refs: "inleafset_refs r k + (if a = Some k then 1 else 0) - (if d = Some k then 1 else 0)
      = (if k \<in> leaf_set r1 then 1 else 0)" for k
    using assms(1) st a d by (auto simp: leaf_inv_def split: option.splits)
  have rng: "range_ok (my_key r) (set ls) (Lrange (leafset_finish (r1, a, d)))"
      "range_ok (my_key r) (set rs) (Rrange (leafset_finish (r1, a, d)))"
    using range_ok_last [OF so(1)] range_ok_last [OF so(2)] same assms(1)
    by (auto simp: leafset_finish_fields r1 leaf_inv_def)
  have rs: "right_side (leafset_finish (r1, a, d)) = right_side r"
    by (simp add: right_side_def fun_eq_iff leafset_finish_fields r1)
  show ?thesis
    using sides rng refs unfolding leaf_inv_def rs leaf_set_finish
    by (simp add: leafset_finish_fields leaf_sides_def r1 fun_eq_iff)
qed

section \<open>Properties\<close>

text \<open>
  C9: the leafset update keeps the leafset invariant: neither side grows beyond its size, no key is
  in twice or on the wrong side of the ring, both sides stay sorted by distance with their ranges and
  counters up to date, and each member holds exactly one reference. The members change exactly by the
  reported keys; a leaving key is gone afterwards, and a joining key is a member unless its side is full.
\<close>

theorem leafset_update_invariant:
  assumes "leaf_inv r" "node \<noteq> my_key r"
    "np_route_leafset_update node joined deleted0 added0 r = (r', deleted, added)"
  shows "leaf_inv r' \<and> leaf_set r' = (leaf_set r \<union> set_option added) - set_option deleted
    \<and> (if joined
       then (added = None \<or> added = Some node)
         \<and> (node \<in> leaf_set r' \<or> length (if right_side r node then right_leafset r else left_leafset r) = leafset_size r)
       else added = None \<and> node \<notin> leaf_set r' \<and> deleted = (if node \<in> leaf_set r then Some node else None))"
proof -
  obtain r1 where res: "(if \<not> joined then leafset_leave node r else leafset_join node r) = (r1, added, deleted)"
      "r' = leafset_finish (r1, added, deleted)"
    using assms(3) leafset_update_finish [OF assms(2), of joined deleted0 added0]
    by (cases "if \<not> joined then leafset_leave node r else leafset_join node r") (auto simp: Let_def)
  note sides = leaf_inv_sides [OF assms(1)]
  have ch: "leaf_change r node (r1, added, deleted)"
    using leafset_leave_change [OF sides, of node] leafset_join_change [OF sides assms(2)] res(1)
    by (auto split: if_splits)
  have ls: "leaf_set r' = leaf_set r1" by (simp add: res(2))
  have "leaf_inv r'" using leafset_finish_inv [OF assms(1) ch] res(2) by simp
  moreover have "leaf_set r' = (leaf_set r \<union> set_option added) - set_option deleted"
    using ch ls by (simp add: leaf_change_def)
  moreover have "(added = None \<or> added = Some node)
      \<and> (node \<in> leaf_set r' \<or> length (if right_side r node then right_leafset r else left_leafset r) = leafset_size r)"
    if joined
    using that res(1) ch leafset_join_change [OF sides assms(2)] ls by (auto simp: leaf_change_def)
  moreover have "added = None \<and> deleted = (if node \<in> leaf_set r then Some node else None)" if "\<not> joined"
    using that res(1) leafset_leave_change [OF sides, of node] by simp
  ultimately show ?thesis by auto
qed

lemma init_leaf_inv: "leaf_inv (np_route_init me n)"
  by (simp add: leaf_inv_def np_route_init_def side_ok_def range_ok_def leaf_set_def np_simps)

theorem leafset_update_invariant_witness:
  "\<exists>r' d a. np_route_leafset_update np_dhkey_half True None None (np_route_init np_dhkey_min 7) = (r', d, a)
     \<and> leaf_inv r' \<and> np_dhkey_half \<in> leaf_set r'"
proof -
  obtain r' d a where u: "np_route_leafset_update np_dhkey_half True None None (np_route_init np_dhkey_min 7) = (r', d, a)"
    by (metis prod_cases3)
  have "np_dhkey_half \<noteq> my_key (np_route_init np_dhkey_min 7)" by (simp add: np_route_init_def dhkey_consts)
  from leafset_update_invariant [OF init_leaf_inv this u] u show ?thesis
    by (auto simp: np_route_init_def split: if_splits)
qed

text \<open>The fields that belong to the routing table.\<close>

definition same_table :: "np_route \<Rightarrow> np_route \<Rightarrow> bool" where
  "same_table r r' \<longleftrightarrow> my_key r' = my_key r \<and> table r' = table r \<and> route_count r' = route_count r
     \<and> inroute_refs r' = inroute_refs r"

lemma only_leafsets_table: "only_leafsets r r' \<Longrightarrow> same_table r r'"
  by (auto simp: only_leafsets_def same_table_def)

lemma leafset_clear_loop_empties:
  assumes "leaf_inv r" "distinct xs" "set xs = leaf_set r"
  shows "\<exists>r'. leafset_clear_loop xs deleted added r = Some r' \<and> leaf_inv r' \<and> leaf_set r' = {}
    \<and> same_table r r'"
  using assms
proof (induction xs arbitrary: r deleted added)
  case Nil
  then show ?case by (simp add: same_table_def)
next
  case (Cons x xs)
  note sides = leaf_inv_sides [OF Cons.prems(1)]
  have mem: "x \<in> leaf_set r" and ne: "x \<noteq> my_key r"
    using Cons.prems(1,3) by (auto simp: leaf_inv_def side_ok_def leaf_set_def)
  obtain r1 where lv: "leafset_leave x r = (r1, None, Some x)" "leaf_change r x (r1, None, Some x)"
    using leafset_leave_change [OF sides, of x] mem by (cases "leafset_leave x r") auto
  let ?r = "leafset_finish (r1, None, Some x)"
  have upd: "np_route_leafset_update x False deleted added r = (?r, Some x, None)"
    using leafset_update_finish [OF ne, of False deleted added] lv(1) by (simp add: Let_def)
  have inv: "leaf_inv ?r" using leafset_finish_inv [OF Cons.prems(1) lv(2)] .
  have "leaf_set r1 = leaf_set r - {x}" using lv(2) by (simp add: leaf_change_def)
  then have st: "leaf_set ?r = leaf_set r - {x}" by simp
  have ol: "only_leafsets r r1" using lv(2) by (simp add: leaf_change_def)
  have same: "same_table r ?r" using only_leafsets_table [OF ol] by (simp only: same_table_def leafset_finish_fields)
  have "distinct xs" "set xs = leaf_set ?r" using st Cons.prems(2,3) by auto
  from Cons.IH [OF inv this, of "Some x" None] obtain r' where
    "leafset_clear_loop xs (Some x) None ?r = Some r'" "leaf_inv r'" "leaf_set r' = {}" "same_table ?r r'" by blast
  then show ?case using same by (simp add: upd same_table_def)
qed

lemma leafset_clear_spec:
  assumes "leaf_inv r"
  shows "\<exists>r'. np_route_leafset_clear r = Some r' \<and> leaf_inv r' \<and> leaf_set r' = {} \<and> same_table r r'"
proof -
  note sides = leaf_inv_sides [OF assms]
  have "distinct (left_leafset r @ right_leafset r)"
    using leaf_sides_disjoint [OF sides] sides by (auto simp: leaf_sides_def side_ok_def)
  then have "distinct (np_route_neighbors r)" "set (np_route_neighbors r) = leaf_set r"
    by (auto simp: np_route_neighbors_def np_route_append_leafset_to_sll_def leaf_set_def)
  from leafset_clear_loop_empties [OF assms this, of None None] show ?thesis
    by (simp add: np_route_leafset_clear_def)
qed

text \<open>
  C30: clearing the leafset of a routing module with the leafset invariant never trips its assertion
  and leaves both sides empty, the ranges at the own key and no reference behind.
\<close>

theorem leafset_clear_empties:
  assumes "leaf_inv r"
  shows "\<exists>r'. np_route_leafset_clear r = Some r' \<and> left_leafset r' = [] \<and> right_leafset r' = []
    \<and> Lrange r' = my_key r \<and> Rrange r' = my_key r \<and> inleafset_refs r' = (\<lambda>_. 0)"
  using leafset_clear_spec [OF assms] by (auto simp: leaf_inv_def leaf_set_def range_ok_def same_table_def)

theorem leafset_clear_empties_witness:
  "\<exists>r'. np_route_leafset_clear (np_route_init np_dhkey_min 7) = Some r' \<and> left_leafset r' = []"
  using leafset_clear_empties [OF init_leaf_inv] by blast

end
