(* ===== verification/Np_Route.thy ===== *)
theory Np_Route
  imports Np_Settings Np_Leafset "HOL-Library.Monad_Syntax"
begin

text \<open>
  The prefix routing table of \<^verbatim>\<open>src/np_route.c\<close>: 64 rows for the length of the common prefix with the
  own key, 16 columns for the next digit, three entries for each slot. What the module reads from a
  key's node is the parameter \<open>nd\<close>: a key without a node gives \<open>None\<close>, and following that pointer
  makes the operation \<open>None\<close>, as does an assertion that fails or an access outside of the table.
  Latency and success average are doubles in the source and real numbers here.

  The invariant \<open>table_inv\<close> puts every entry into the slot its key belongs to and ties the counter and
  the references to the entries. The interpretation \<open>dhk\<close> of \<open>prefix_keys\<close> gives what makes this
  routing work: an entry of the target's slot has a longer common prefix with the target.
\<close>

section \<open>Nodes, slots\<close>

record np_node =
  latency :: real
  success_avg :: real

definition route_slot :: "np_dhkey \<Rightarrow> np_dhkey \<Rightarrow> nat option" where
  "route_slot me key =
     (let i = np_dhkey_index me key
      in if i < 64 then do { j \<leftarrow> np_dhkey_hexalpha_at key (int i); Some (3 * (unat j + 16 * i)) } else None)"

section \<open>Updating the table\<close>

datatype join_result = Entry_Empty | Entry_Present | Entry_Full "(nat \<times> np_dhkey) option"

fun join_loop ::
  "(np_dhkey \<Rightarrow> np_node option) \<Rightarrow> nat \<Rightarrow> np_dhkey \<Rightarrow> nat list \<Rightarrow> np_dhkey option list \<Rightarrow> (nat \<times> np_dhkey) option
    \<Rightarrow> (np_dhkey option list \<times> join_result) option" where
  "join_loop nd index key [] tbl slowest_node = Some (tbl, Entry_Full slowest_node)"
| "join_loop nd index key (k # ks) tbl slowest_node =
     (case tbl ! (index + k) of
        None \<Rightarrow> Some (tbl[index + k := Some key], Entry_Empty)
      | Some k_node \<Rightarrow>
          if np_dhkey_equal k_node key then Some (tbl, Entry_Present)
          else (case slowest_node of
                  None \<Rightarrow> join_loop nd index key ks tbl (Some (k, k_node))
                | Some (pick, slowest) \<Rightarrow>
                    do {
                      a \<leftarrow> nd k_node;
                      b \<leftarrow> nd slowest;
                      join_loop nd index key ks tbl
                        (if latency a > latency b then Some (k, k_node) else Some (pick, slowest))
                    }))"

text \<open>The part of the update for a joining key: the new table, the added and the deleted key.\<close>

definition route_join ::
  "(np_dhkey \<Rightarrow> np_node option) \<Rightarrow> nat \<Rightarrow> np_dhkey \<Rightarrow> np_dhkey option list
    \<Rightarrow> (np_dhkey option list \<times> np_dhkey option \<times> np_dhkey option) option" where
  "route_join nd index key tbl =
     do {
       (tbl1, res) \<leftarrow> join_loop nd index key [0, 1, 2] tbl None;
       (case res of
          Entry_Empty \<Rightarrow> Some (tbl1, Some key, None)
        | Entry_Present \<Rightarrow> Some (tbl1, None, None)
        | Entry_Full None \<Rightarrow> None
        | Entry_Full (Some (pick, slowest_node)) \<Rightarrow>
            do {
              s \<leftarrow> nd slowest_node;
              n \<leftarrow> nd key;
              Some (if latency s - latency n > NP_PI / 1000
                    then (tbl1[index + pick := Some key], Some key, Some slowest_node)
                    else (tbl1, None, None))
            })
     }"

fun leave_loop :: "nat \<Rightarrow> np_dhkey \<Rightarrow> nat list \<Rightarrow> np_dhkey option list \<Rightarrow> np_dhkey option list \<times> np_dhkey option" where
  "leave_loop index key [] tbl = (tbl, None)"
| "leave_loop index key (k # ks) tbl =
     (case tbl ! (index + k) of
        None \<Rightarrow> leave_loop index key ks tbl
      | Some x \<Rightarrow> if np_dhkey_equal x key then (tbl[index + k := None], Some key)
                 else leave_loop index key ks tbl)"

definition np_route_update ::
  "(np_dhkey \<Rightarrow> np_node option) \<Rightarrow> np_dhkey \<Rightarrow> bool \<Rightarrow> np_dhkey option \<Rightarrow> np_dhkey option \<Rightarrow> np_route
    \<Rightarrow> (np_route \<times> np_dhkey option \<times> np_dhkey option) option" where
  "np_route_update nd key joined deleted added r =
     (if np_dhkey_equal (my_key r) key then Some (r, deleted, added)
      else do {
        index \<leftarrow> route_slot (my_key r) key;
        (tbl, add_to, deleted_from) \<leftarrow>
          (if joined then route_join nd index key (table r)
           else (let (tbl, d) = leave_loop index key [0, 1, 2] (table r) in Some (tbl, None, d)));
        let r1 = r\<lparr>table := tbl\<rparr>;
        let r2 = (case add_to of None \<Rightarrow> r1
                  | Some k \<Rightarrow> r1\<lparr>inroute_refs := (inroute_refs r1)(k := inroute_refs r1 k + 1),
                                route_count := route_count r1 + 1\<rparr>);
        let r3 = (case deleted_from of None \<Rightarrow> r2
                  | Some k \<Rightarrow> r2\<lparr>inroute_refs := (inroute_refs r2)(k := inroute_refs r2 k - 1),
                                route_count := route_count r2 - 1\<rparr>);
        Some (r3, deleted_from, add_to)
      })"

fun clear_loop ::
  "(np_dhkey \<Rightarrow> np_node option) \<Rightarrow> nat list \<Rightarrow> np_dhkey option \<Rightarrow> np_dhkey option \<Rightarrow> np_route \<Rightarrow> np_route option" where
  "clear_loop nd [] deleted added r = Some r"
| "clear_loop nd (n # ns) deleted added r =
     (case table r ! n of
        None \<Rightarrow> clear_loop nd ns deleted added r
      | Some item \<Rightarrow>
          do {
            (r1, deleted1, added1) \<leftarrow> np_route_update nd item False deleted added r;
            clear_loop nd ns deleted1 added1 (r1\<lparr>table := (table r1)[n := None]\<rparr>)
          })"

text \<open>The three nested loops of \<^verbatim>\<open>_np_route_clear\<close> visit the table from the first entry to the last.\<close>

definition np_route_clear :: "(np_dhkey \<Rightarrow> np_node option) \<Rightarrow> np_dhkey option \<Rightarrow> np_dhkey option \<Rightarrow> np_route \<Rightarrow> np_route option" where
  "np_route_clear nd deleted added r =
     do {
       r1 \<leftarrow> clear_loop nd [0..<NP_ROUTES_TABLE_SIZE] deleted added r;
       np_route_leafset_clear r1
     }"

definition np_route_destroy :: "np_route \<Rightarrow> np_route" where
  "np_route_destroy r =
     r\<lparr>table := [], left_leafset := [], right_leafset := [],
       inroute_refs := (\<lambda>k. inroute_refs r k - int (count_list (table r) (Some k))),
       inleafset_refs := (\<lambda>k. inleafset_refs r k - int (count_list (left_leafset r) k)
          - int (count_list (right_leafset r) k))\<rparr>"

section \<open>Reading the table\<close>

fun present :: "'a option list \<Rightarrow> 'a list" where
  "present [] = []"
| "present (None # xs) = present xs"
| "present (Some x # xs) = x # present xs"

definition np_route_get_table :: "np_route \<Rightarrow> np_dhkey list" where
  "np_route_get_table r = present (take NP_ROUTES_TABLE_SIZE (table r))"

definition np_route_row_lookup :: "np_dhkey \<Rightarrow> np_route \<Rightarrow> np_dhkey list option" where
  "np_route_row_lookup dhkey r =
     (let i = np_dhkey_index (my_key r) dhkey
      in if i < 64
         then Some (filter (\<lambda>x. \<not> np_dhkey_equal x dhkey) (present (map (\<lambda>j. table r ! (3 * (j + 16 * i))) [0..<16])))
         else None)"

text \<open>
  The search of \<^verbatim>\<open>_np_route_lookup\<close> for a usable entry of the slot; \<open>tmp\<close> is the last entry looked at.
\<close>

fun hop_loop :: "(np_dhkey \<Rightarrow> np_node option) \<Rightarrow> np_dhkey option list \<Rightarrow> np_dhkey option \<Rightarrow> (np_dhkey option \<times> bool) option" where
  "hop_loop nd [] tmp = Some (tmp, False)"
| "hop_loop nd (None # es) tmp = hop_loop nd es tmp"
| "hop_loop nd (Some x # es) tmp =
     do { n \<leftarrow> nd x; (if success_avg n > BAD_LINK then Some (Some x, True) else hop_loop nd es (Some x)) }"

definition metric :: "np_node \<Rightarrow> real" where
  "metric n = 1 - success_avg n + latency n"

fun best_loop :: "(np_dhkey \<Rightarrow> np_node option) \<Rightarrow> np_dhkey option list \<Rightarrow> np_dhkey \<Rightarrow> np_dhkey option" where
  "best_loop nd [] tmp_1 = Some tmp_1"
| "best_loop nd (None # es) tmp_1 = best_loop nd es tmp_1"
| "best_loop nd (Some tmp_2 # es) tmp_1 =
     (if np_dhkey_equal tmp_2 tmp_1 then best_loop nd es tmp_1
      else do {
        n2 \<leftarrow> nd tmp_2;
        n1 \<leftarrow> nd tmp_1;
        best_loop nd es (if metric n1 > metric n2 then tmp_2 else tmp_1)
      })"

fun good_entries :: "(np_dhkey \<Rightarrow> np_node option) \<Rightarrow> np_dhkey option list \<Rightarrow> np_dhkey list option" where
  "good_entries nd [] = Some []"
| "good_entries nd (None # es) = good_entries nd es"
| "good_entries nd (Some x # es) =
     do { n \<leftarrow> nd x; ys \<leftarrow> good_entries nd es; Some (if success_avg n > BAD_LINK then x # ys else ys) }"

definition table_row :: "np_route \<Rightarrow> nat \<Rightarrow> np_dhkey option list" where
  "table_row r i = map ((!) (table r)) [48 * i..<48 * i + 48]"

text \<open>Up the prefix tree; the unsigned row counter wraps around below row 0, which ends the loop.\<close>

fun search_up :: "(np_dhkey \<Rightarrow> np_node option) \<Rightarrow> np_route \<Rightarrow> nat \<Rightarrow> np_dhkey list \<Rightarrow> np_dhkey list option" where
  "search_up nd r 0 key_list = (if key_list = [] then good_entries nd (table_row r 0) else Some key_list)"
| "search_up nd r (Suc i) key_list =
     (if key_list = [] then do { ys \<leftarrow> good_entries nd (table_row r (Suc i)); search_up nd r i ys } else Some key_list)"

definition list_of_closest :: "np_dhkey list \<Rightarrow> np_dhkey \<Rightarrow> np_dhkey list" where
  "list_of_closest key_list key =
     (case np_keycache_find_closest_key_to key_list key of None \<Rightarrow> [] | Some m \<Rightarrow> [m])"

definition np_route_lookup ::
  "(np_dhkey \<Rightarrow> np_node option) \<Rightarrow> np_dhkey \<Rightarrow> nat \<Rightarrow> np_route \<Rightarrow> np_dhkey list option" where
  "np_route_lookup nd key cnt r =
     (if cnt = 1 \<and> np_dhkey_between key (Lrange r) (Rrange r) True
      then Some (list_of_closest (np_route_append_leafset_to_sll (left_leafset r)
                  (np_route_append_leafset_to_sll (right_leafset r) [])) key)
      else do {
        index \<leftarrow> route_slot (my_key r) key;
        let es = map (\<lambda>k. table r ! (index + k)) [0, 1, 2];
        (tmp_1, next_hop) \<leftarrow> hop_loop nd es None;
        (if next_hop \<and> 1 \<le> cnt
         then do { t \<leftarrow> tmp_1; hop \<leftarrow> best_loop nd es t; Some [hop] }
         else do {
           key_list \<leftarrow> search_up nd r (np_dhkey_index (my_key r) key) (if cnt = 0 then [my_key r] else []);
           Some (if cnt = 1 then list_of_closest key_list key
                 else if 2 \<le> length key_list then [hd (np_keycache_sort_keys_cpm key_list key)]
                 else if 0 < length key_list then [hd key_list] else [])
         })
      })"

text \<open>
  \<^verbatim>\<open>_np_route_neighbour_lookup\<close> walks away from an index in both directions; the index is computed with
  \<^verbatim>\<open>uint32_t\<close> arithmetic.
\<close>

fun neighbour_entries ::
  "np_dhkey \<Rightarrow> np_dhkey option list \<Rightarrow> u32 \<Rightarrow> u32 list \<Rightarrow> bool \<times> bool \<times> np_dhkey list \<Rightarrow> (bool \<times> bool \<times> np_dhkey list) option" where
  "neighbour_entries dhkey tbl base [] acc = Some acc"
| "neighbour_entries dhkey tbl base (entry_index # es) (left_end, right_end, keys) =
     (let current_table_index = base + entry_index
      in if unat current_table_index < length tbl
         then (let keys1 = (case tbl ! unat current_table_index of None \<Rightarrow> keys
                            | Some x \<Rightarrow> if np_dhkey_equal x dhkey then keys else keys @ [x]);
                   right1 = (right_end \<or> current_table_index = of_nat NP_ROUTES_TABLE_SIZE);
                   left1 = (left_end \<or> current_table_index \<noteq> of_nat NP_ROUTES_TABLE_SIZE \<and> current_table_index = 0)
               in neighbour_entries dhkey tbl base es (left1, right1, keys1))
         else None)"

partial_function (option) neighbour_loop ::
  "np_dhkey \<Rightarrow> np_dhkey option list \<Rightarrow> u32 \<Rightarrow> u32 \<Rightarrow> bool \<Rightarrow> bool \<times> bool \<times> np_dhkey list \<Rightarrow> np_dhkey list option" where
  "neighbour_loop dhkey tbl start iter look_left acc =
     (case acc of (left_end, right_end, keys) \<Rightarrow>
        if length keys < 7 \<and> \<not> left_end \<and> \<not> right_end
        then do {
          let look_left1 = (\<not> look_left);
          acc1 \<leftarrow> neighbour_entries dhkey tbl (start + (if look_left1 then - 1 else 1) * iter) [0, 1, 2] acc;
          neighbour_loop dhkey tbl start (if look_left1 then iter + 1 else iter) look_left1 acc1
        }
        else Some keys)"

definition np_route_neighbour_lookup :: "np_dhkey \<Rightarrow> np_route \<Rightarrow> np_dhkey list option" where
  "np_route_neighbour_lookup dhkey r =
     (let col_index = np_dhkey_index (my_key r) dhkey
      in if col_index < 64
         then do {
           row_index \<leftarrow> np_dhkey_hexalpha_at dhkey (int col_index);
           neighbour_loop dhkey (table r) (of_nat (col_index * unat row_index)) 0 False (False, False, [])
         }
         else None)"

definition np_get_route_count :: "np_route \<Rightarrow> u32" where
  "np_get_route_count r = route_count r"

definition np_route_my_key_has_connection :: "np_route \<Rightarrow> bool" where
  "np_route_my_key_has_connection r \<longleftrightarrow>
     (if np_get_route_count r + fst (np_route_my_key_count_neighbors r) > 0 then True else False)"

section \<open>The invariant\<close>

definition slot_of :: "np_dhkey \<Rightarrow> np_dhkey \<Rightarrow> nat" where
  "slot_of me x = dhkey_digit x (np_dhkey_index me x) + 16 * np_dhkey_index me x"

definition placed :: "np_dhkey \<Rightarrow> np_dhkey option list \<Rightarrow> bool" where
  "placed me tbl \<longleftrightarrow> (\<forall>n x. n < length tbl \<longrightarrow> tbl ! n = Some x \<longrightarrow> x \<noteq> me \<and> n div 3 = slot_of me x)"

definition used :: "np_dhkey option list \<Rightarrow> nat" where
  "used tbl = length (present tbl)"

definition table_inv :: "np_route \<Rightarrow> bool" where
  "table_inv r \<longleftrightarrow> length (table r) = NP_ROUTES_TABLE_SIZE \<and> placed (my_key r) (table r)
     \<and> route_count r = of_nat (used (table r))
     \<and> inroute_refs r = (\<lambda>k. int (count_list (table r) (Some k)))"

lemma route_slot_eq: "key \<noteq> me \<Longrightarrow> route_slot me key = Some (3 * slot_of me key)"
  using dhk.index_less [of me key]
  by (auto simp: route_slot_def slot_of_def dhkey_digit_def np_dhkey_hexalpha_at_nth Let_def)

lemma route_slot_self: "route_slot me me = None"
  using dhk.index_full [of me me] by (simp add: route_slot_def)

lemma slot_of_less: "key \<noteq> me \<Longrightarrow> slot_of me key < 1024"
  using dhk.slot_less [of me key] by (simp add: slot_of_def)

lemma slot_index_less: "key \<noteq> me \<Longrightarrow> k < 3 \<Longrightarrow> 3 * slot_of me key + k < NP_ROUTES_TABLE_SIZE"
  using slot_of_less [of key me] by (simp add: NP_ROUTES_TABLE_SIZE_def)

lemma present_iff: "x \<in> set (present xs) \<longleftrightarrow> Some x \<in> set xs"
  by (induction xs rule: present.induct) auto

lemma count_list_update:
  assumes "n < length xs"
  shows "int (count_list (xs[n := y]) a) = int (count_list xs a) + (if y = a then 1 else 0) - (if xs ! n = a then 1 else 0)"
proof -
  have "count_list xs a = count_list (take n xs @ xs ! n # drop (Suc n) xs) a"
    using id_take_nth_drop [OF assms] by simp
  then show ?thesis using assms by (simp add: upd_conv_take_nth_drop)
qed

lemma used_count: "int (used tbl) = int (length tbl) - int (count_list tbl None)"
  unfolding used_def by (induction tbl rule: present.induct) auto

lemma used_update:
  "n < length tbl \<Longrightarrow> int (used (tbl[n := y])) = int (used tbl) + (if y = None then 0 else 1) - (if tbl ! n = None then 0 else 1)"
  by (simp add: used_count count_list_update)

lemma placed_update:
  assumes "placed me tbl" "\<And>x. y = Some x \<Longrightarrow> x \<noteq> me \<and> n div 3 = slot_of me x"
  shows "placed me (tbl[n := y])"
  unfolding placed_def
proof (intro allI impI)
  fix m x assume "m < length (tbl[n := y])" "tbl[n := y] ! m = Some x"
  then show "x \<noteq> me \<and> m div 3 = slot_of me x"
    using assms by (cases "m = n") (auto simp: placed_def)
qed

text \<open>One entry changes within the slot of \<open>key\<close>.\<close>

definition entry_change :: "np_dhkey \<Rightarrow> np_dhkey \<Rightarrow> np_dhkey option list \<Rightarrow> np_dhkey option list \<times> np_dhkey option \<times> np_dhkey option \<Rightarrow> bool" where
  "entry_change me key tbl res \<longleftrightarrow>
     (case res of (tbl', a, d) \<Rightarrow>
        tbl' = tbl \<and> a = None \<and> d = None
        \<or> (\<exists>k < 3. tbl' = tbl[3 * slot_of me key + k := a] \<and> tbl ! (3 * slot_of me key + k) = d
             \<and> (a = None \<or> a = Some key) \<and> a \<noteq> d))"

lemma join_loop_spec:
  assumes "join_loop nd index key ks tbl slow = Some (tbl', res)"
    "\<forall>k \<in> set ks. k < 3" "case slow of None \<Rightarrow> True | Some (p, s) \<Rightarrow> p < 3 \<and> tbl ! (index + p) = Some s \<and> s \<noteq> key"
  shows "case res of
      Entry_Empty \<Rightarrow> \<exists>k < 3. tbl ! (index + k) = None \<and> tbl' = tbl[index + k := Some key]
    | Entry_Present \<Rightarrow> tbl' = tbl \<and> (\<exists>k < 3. tbl ! (index + k) = Some key)
    | Entry_Full p \<Rightarrow> tbl' = tbl \<and> (\<forall>k \<in> set ks. \<exists>x. tbl ! (index + k) = Some x \<and> x \<noteq> key)
        \<and> (case p of None \<Rightarrow> slow = None \<and> ks = [] | Some (q, s) \<Rightarrow> q < 3 \<and> tbl ! (index + q) = Some s \<and> s \<noteq> key)"
  using assms
proof (induction ks arbitrary: slow)
  case Nil
  then show ?case by (auto split: option.splits)
next
  case (Cons k ks)
  have ks: "k < 3" "\<forall>k \<in> set ks. k < 3" using Cons.prems(2) by simp_all
  show ?case
  proof (cases "tbl ! (index + k)")
    case None
    then show ?thesis using Cons.prems(1) ks(1) by auto
  next
    case (Some x)
    show ?thesis
    proof (cases "x = key")
      case True
      then show ?thesis using Cons.prems(1) Some ks(1) by (auto simp: np_simps)
    next
      case ne: False
      obtain slow' where s': "join_loop nd index key ks tbl slow' = Some (tbl', res)"
          "slow' = Some (k, x) \<or> slow' = slow" "slow' \<noteq> None"
        using Cons.prems(1) Some ne
        by (auto simp: np_simps bind_eq_Some_conv split: option.splits if_splits)
      have "case slow' of None \<Rightarrow> True | Some (p, s) \<Rightarrow> p < 3 \<and> tbl ! (index + p) = Some s \<and> s \<noteq> key"
        using s'(2) Cons.prems(3) Some ne ks(1) by auto
      from Cons.IH [OF s'(1) ks(2) this] s'(3) show ?thesis
        using Some ne by (auto split: join_result.splits option.splits)
    qed
  qed
qed

lemma leave_loop_spec:
  assumes "leave_loop index key ks tbl = (tbl', d)" "\<forall>k \<in> set ks. k < 3"
  shows "(if \<exists>k \<in> set ks. tbl ! (index + k) = Some key
    then d = Some key \<and> (\<exists>k < 3. tbl ! (index + k) = Some key \<and> tbl' = tbl[index + k := None])
    else d = None \<and> tbl' = tbl)"
  using assms
proof (induction ks)
  case (Cons k ks)
  show ?case
  proof (cases "tbl ! (index + k) = Some key")
    case True
    then show ?thesis using Cons.prems by (auto simp: np_simps)
  next
    case False
    then have "leave_loop index key ks tbl = (tbl', d)"
      using Cons.prems(1) by (auto simp: np_simps split: option.splits if_splits)
    from Cons.IH [OF this] Cons.prems(2) False show ?thesis by simp
  qed
qed simp

lemma route_join_change:
  assumes "route_join nd (3 * slot_of me key) key tbl = Some res"
  shows "entry_change me key tbl res"
proof -
  obtain tbl1 jr where jl: "join_loop nd (3 * slot_of me key) key [0, 1, 2] tbl None = Some (tbl1, jr)"
    using assms by (auto simp: route_join_def bind_eq_Some_conv simp del: join_loop.simps)
  note spec = join_loop_spec [OF jl]
  show ?thesis
  proof (cases jr)
    case Entry_Empty
    then show ?thesis using assms spec jl
      by (auto simp: route_join_def entry_change_def simp del: join_loop.simps)
  next
    case Entry_Present
    then show ?thesis using assms spec jl
      by (auto simp: route_join_def entry_change_def simp del: join_loop.simps)
  next
    case (Entry_Full p)
    then obtain q s where p: "p = Some (q, s)" "q < 3" "tbl ! (3 * slot_of me key + q) = Some s" "s \<noteq> key" "tbl1 = tbl"
      using assms spec jl by (cases p) (auto simp: route_join_def simp del: join_loop.simps)
    then show ?thesis using assms Entry_Full jl
      by (auto simp: route_join_def entry_change_def bind_eq_Some_conv simp del: join_loop.simps split: if_splits)
  qed
qed

lemma leave_change:
  assumes "leave_loop (3 * slot_of me key) key [0, 1, 2] tbl = (tbl', d)"
  shows "entry_change me key tbl (tbl', None, d)"
  using leave_loop_spec [OF assms] by (auto simp: entry_change_def split: if_splits)

text \<open>The second half of the update, as a function of the change.\<close>

definition route_finish :: "np_route \<Rightarrow> np_dhkey option list \<times> np_dhkey option \<times> np_dhkey option \<Rightarrow> np_route" where
  "route_finish r res =
     (case res of (tbl, a, d) \<Rightarrow>
        r\<lparr>table := tbl,
          inroute_refs := (\<lambda>k. inroute_refs r k + (if a = Some k then 1 else 0) - (if d = Some k then 1 else 0)),
          route_count := route_count r + (if a = None then 0 else 1) - (if d = None then 0 else 1)\<rparr>)"

lemma route_update_finish:
  assumes "key \<noteq> my_key r"
  shows "np_route_update nd key joined deleted added r =
    map_option (\<lambda>res. (route_finish r res, snd (snd res), fst (snd res)))
      (if joined then route_join nd (3 * slot_of (my_key r) key) key (table r)
       else (let (tbl, d) = leave_loop (3 * slot_of (my_key r) key) key [0, 1, 2] (table r) in Some (tbl, None, d)))"
proof -
  have fin: "(let r1 = r\<lparr>table := tbl\<rparr>;
        r2 = (case a of None \<Rightarrow> r1
                  | Some k \<Rightarrow> r1\<lparr>inroute_refs := (inroute_refs r1)(k := inroute_refs r1 k + 1),
                                route_count := route_count r1 + 1\<rparr>);
        r3 = (case d of None \<Rightarrow> r2
                  | Some k \<Rightarrow> r2\<lparr>inroute_refs := (inroute_refs r2)(k := inroute_refs r2 k - 1),
                                route_count := route_count r2 - 1\<rparr>)
        in Some (r3, d, a)) = Some (route_finish r (tbl, a, d), d, a)" for tbl a d
    by (cases r) (auto simp: route_finish_def Let_def fun_eq_iff split: option.splits)
  have ne: "\<not> np_dhkey_equal (my_key r) key" using assms by (simp add: np_simps)
  define X where "X = (if joined then route_join nd (3 * slot_of (my_key r) key) key (table r)
       else (let (tbl, d) = leave_loop (3 * slot_of (my_key r) key) key [0, 1, 2] (table r) in Some (tbl, None, d)))"
  show ?thesis
    unfolding np_route_update_def route_slot_eq [OF assms] bind.simps if_not_P [OF ne] X_def [symmetric] fin
    by (cases X) (simp_all add: case_prod_unfold)
qed

lemma entry_change_inv:
  assumes "table_inv r" "key \<noteq> my_key r" "entry_change (my_key r) key (table r) (tbl, a, d)"
  shows "table_inv (route_finish r (tbl, a, d))"
proof (cases "tbl = table r \<and> a = None \<and> d = None")
  case True
  then show ?thesis using assms(1) by (simp add: route_finish_def table_inv_def)
next
  case False
  then obtain k where k: "k < 3" "tbl = (table r)[3 * slot_of (my_key r) key + k := a]"
      "table r ! (3 * slot_of (my_key r) key + k) = d" "a = None \<or> a = Some key" "a \<noteq> d"
    using assms(3) by (auto simp: entry_change_def)
  let ?n = "3 * slot_of (my_key r) key + k"
  have len: "?n < length (table r)"
    using slot_index_less [OF assms(2) k(1)] assms(1) by (simp add: table_inv_def)
  have "placed (my_key r) tbl"
    unfolding k(2) using assms k(1,4) by (intro placed_update) (auto simp: table_inv_def)
  moreover have "of_nat (used tbl) = (of_nat (used (table r)) + (if a = None then 0 else 1) - (if d = None then 0 else 1) :: u32)"
  proof -
    have "(of_nat (used tbl) :: u32) = of_int (int (used tbl))" by simp
    also have "int (used tbl) = int (used (table r)) + (if a = None then 0 else 1) - (if d = None then 0 else 1)"
      using used_update [OF len, of a] k by simp
    finally show ?thesis by simp
  qed
  moreover have "int (count_list tbl (Some j)) = int (count_list (table r) (Some j)) + (if a = Some j then 1 else 0) - (if d = Some j then 1 else 0)" for j
    using count_list_update [OF len, of a "Some j"] k by simp
  moreover have "length tbl = length (table r)" by (simp add: k(2))
  ultimately show ?thesis using assms(1) by (simp add: route_finish_def table_inv_def fun_eq_iff)
qed

lemma route_update_change:
  assumes "key \<noteq> my_key r" "np_route_update nd key joined deleted0 added0 r = Some (r', d, a)"
  shows "\<exists>tbl. r' = route_finish r (tbl, a, d) \<and> entry_change (my_key r) key (table r) (tbl, a, d)
    \<and> (if joined then route_join nd (3 * slot_of (my_key r) key) key (table r) = Some (tbl, a, d)
       else leave_loop (3 * slot_of (my_key r) key) key [0, 1, 2] (table r) = (tbl, d) \<and> a = None)"
proof (cases joined)
  case True
  then obtain tbl where "route_join nd (3 * slot_of (my_key r) key) key (table r) = Some (tbl, a, d)"
      "r' = route_finish r (tbl, a, d)"
    using assms(2) by (auto simp: route_update_finish [OF assms(1)])
  then show ?thesis using True route_join_change by auto
next
  case False
  then obtain tbl where l: "leave_loop (3 * slot_of (my_key r) key) key [0, 1, 2] (table r) = (tbl, d)"
      "r' = route_finish r (tbl, a, d)" "a = None"
    using assms(2) unfolding route_update_finish [OF assms(1)] by (auto split: prod.splits simp del: leave_loop.simps)
  then show ?thesis using False leave_change [OF l(1)] by auto
qed

section \<open>Properties\<close>

text \<open>
  C3: the update of the routing table keeps the table invariant for every key, joining or leaving:
  each entry sits in the slot given by the prefix it shares with the own key and by its next digit,
  the own key is never entered, the counter is the number of entries, and every entry holds exactly
  one reference. Keys of other slots stay as they are, and the leafsets are not touched.
\<close>

theorem route_update_invariant:
  assumes "table_inv r" "np_route_update nd key joined deleted0 added0 r = Some (r', deleted, added)"
  shows "table_inv r' \<and> left_leafset r' = left_leafset r \<and> right_leafset r' = right_leafset r
    \<and> (\<forall>n < NP_ROUTES_TABLE_SIZE. n div 3 \<noteq> slot_of (my_key r) key \<longrightarrow> table r' ! n = table r ! n)"
proof (cases "key = my_key r")
  case True
  then show ?thesis using assms by (simp add: np_route_update_def np_simps)
next
  case False
  obtain tbl where t: "r' = route_finish r (tbl, added, deleted)" "entry_change (my_key r) key (table r) (tbl, added, deleted)"
    using route_update_change [OF False assms(2)] by blast
  have "table r' ! n = table r ! n" if "n div 3 \<noteq> slot_of (my_key r) key" for n
    using t that by (auto simp: entry_change_def route_finish_def nth_list_update)
  moreover have "left_leafset r' = left_leafset r" "right_leafset r' = right_leafset r"
    by (simp_all add: t(1) route_finish_def)
  ultimately show ?thesis using entry_change_inv [OF assms(1) False t(2)] t(1) by simp
qed

lemma init_table_inv: "table_inv (np_route_init me n)"
proof -
  have p: "present (replicate k None) = []" for k by (induction k) auto
  have "count_list (replicate k None) (Some x) = 0" for k and x :: np_dhkey by (induction k) auto
  then show ?thesis by (simp add: table_inv_def np_route_init_def placed_def used_def p)
qed

definition one_node :: "np_dhkey \<Rightarrow> np_node option" where
  "one_node k = Some \<lparr>latency = 0, success_avg = 1\<rparr>"

theorem route_update_invariant_witness:
  "\<exists>r' d a. np_route_update one_node np_dhkey_half True None None (np_route_init np_dhkey_min 7) = Some (r', d, a)
     \<and> table_inv r'"
proof -
  let ?r = "np_route_init np_dhkey_min 7"
  have ne: "np_dhkey_half \<noteq> my_key ?r" by (simp add: np_route_init_def dhkey_consts)
  have "table ?r ! (3 * slot_of (my_key ?r) np_dhkey_half) = None"
    using slot_index_less [OF ne, of 0] by (simp add: np_route_init_def)
  then obtain r' d a where u: "np_route_update one_node np_dhkey_half True None None ?r = Some (r', d, a)"
    by (simp add: route_update_finish [OF ne] route_join_def)
  from route_update_invariant [OF init_table_inv this] u show ?thesis by blast
qed








section \<open>Looking up the next hop\<close>

definition nodes_ok :: "(np_dhkey \<Rightarrow> np_node option) \<Rightarrow> np_dhkey option list \<Rightarrow> bool" where
  "nodes_ok nd es \<longleftrightarrow> (\<forall>x. Some x \<in> set es \<longrightarrow> nd x \<noteq> None)"

lemma nodes_ok_simps [simp]:
  "nodes_ok nd []" "nodes_ok nd (None # es) \<longleftrightarrow> nodes_ok nd es"
  "nodes_ok nd (Some x # es) \<longleftrightarrow> nd x \<noteq> None \<and> nodes_ok nd es"
  by (auto simp: nodes_ok_def)

lemma hop_loop_spec:
  assumes "nodes_ok nd es"
  shows "\<exists>t b. hop_loop nd es tmp = Some (t, b)
    \<and> (b \<longrightarrow> (\<exists>x. t = Some x \<and> Some x \<in> set es))
    \<and> (b \<longleftrightarrow> (\<exists>x n. Some x \<in> set es \<and> nd x = Some n \<and> success_avg n > BAD_LINK))"
  using assms
proof (induction nd es tmp rule: hop_loop.induct)
  case (3 nd x es tmp)
  then obtain n where n: "nd x = Some n" "nodes_ok nd es" by auto
  show ?case
  proof (cases "success_avg n > BAD_LINK")
    case True
    then show ?thesis using n by auto
  next
    case False
    then have "(\<exists>y m. Some y \<in> set (Some x # es) \<and> nd y = Some m \<and> success_avg m > BAD_LINK)
        \<longleftrightarrow> (\<exists>y m. Some y \<in> set es \<and> nd y = Some m \<and> success_avg m > BAD_LINK)" using n(1) by auto
    then show ?thesis using "3.IH" [OF n(1) False n(2)] n(1) False by fastforce
  qed
qed auto

lemma best_loop_spec:
  assumes "nodes_ok nd es" "nd t \<noteq> None"
  shows "\<exists>h. best_loop nd es t = Some h \<and> (h = t \<or> Some h \<in> set es)"
  using assms
proof (induction nd es t rule: best_loop.induct)
  case (3 nd t2 es t1)
  then obtain n1 n2 where n: "nd t1 = Some n1" "nd t2 = Some n2" "nodes_ok nd es" by auto
  show ?case
  proof (cases "t2 = t1")
    case True
    then show ?thesis using "3.IH"(1) n by (auto simp: np_simps)
  next
    case False
    have "\<exists>h. best_loop nd es (if metric n1 > metric n2 then t2 else t1) = Some h
        \<and> (h = (if metric n1 > metric n2 then t2 else t1) \<or> Some h \<in> set es)"
      using "3.IH"(2) [OF _ n(2,1)] n False by (auto simp: np_simps)
    then show ?thesis using n False by (auto simp: np_simps split: if_splits)
  qed
qed auto

lemma good_entries_spec:
  "nodes_ok nd es \<Longrightarrow> \<exists>ys. good_entries nd es = Some ys \<and> Some ` set ys \<subseteq> set es"
proof (induction nd es rule: good_entries.induct)
  case (3 nd x es)
  then obtain n ys where "nd x = Some n" "good_entries nd es = Some ys" "Some ` set ys \<subseteq> set es" by auto
  then show ?case by (cases "success_avg n > BAD_LINK") auto
qed auto

lemma table_row_subset:
  "length (table r) = NP_ROUTES_TABLE_SIZE \<Longrightarrow> i < 64 \<Longrightarrow> set (table_row r i) \<subseteq> set (table r)"
  by (auto simp: table_row_def NP_ROUTES_TABLE_SIZE_def)

lemma search_up_spec:
  assumes "length (table r) = NP_ROUTES_TABLE_SIZE" "nodes_ok nd (table r)" "i < 64"
  shows "\<exists>ys. search_up nd r i key_list = Some ys \<and> Some ` set ys \<subseteq> set (table r) \<union> Some ` set key_list"
  using assms(3)
proof (induction i arbitrary: key_list)
  case 0
  have "nodes_ok nd (table_row r 0)" using assms table_row_subset [OF assms(1), of 0] by (auto simp: nodes_ok_def)
  then show ?case using good_entries_spec table_row_subset [OF assms(1), of 0] by fastforce
next
  case (Suc i)
  have "nodes_ok nd (table_row r (Suc i))" using assms Suc.prems table_row_subset [OF assms(1), of "Suc i"] by (auto simp: nodes_ok_def)
  then obtain ys where ys: "good_entries nd (table_row r (Suc i)) = Some ys" "Some ` set ys \<subseteq> set (table_row r (Suc i))"
    using good_entries_spec by blast
  obtain zs where "search_up nd r i ys = Some zs" "Some ` set zs \<subseteq> set (table r) \<union> Some ` set ys"
    using Suc.IH [of ys] Suc.prems by auto
  then show ?case using ys table_row_subset [OF assms(1) Suc.prems] by auto
qed

lemma list_of_closest_subset: "set (list_of_closest xs key) \<subseteq> set xs \<and> length (list_of_closest xs key) \<le> 1"
proof (cases "xs = []")
  case True
  then show ?thesis by (simp add: list_of_closest_def np_keycache_find_closest_key_to_def)
next
  case False
  then obtain x where "np_keycache_find_closest_key_to xs key = Some x" "x \<in> set xs"
    by (rule find_closest_spec)
  then show ?thesis by (simp add: list_of_closest_def)
qed

lemma slot_of_same:
  assumes "slot_of me x = slot_of me y"
  shows "np_dhkey_index me x = np_dhkey_index me y"
    "dhkey_digit x (np_dhkey_index me x) = dhkey_digit y (np_dhkey_index me y)"
proof -
  let ?a = "dhkey_digit x (np_dhkey_index me x)" and ?b = "dhkey_digit y (np_dhkey_index me y)"
  have "?a < 16" "?b < 16" by (simp_all add: dhkey_digit_less)
  then have "slot_of me x div 16 = np_dhkey_index me x" "slot_of me y div 16 = np_dhkey_index me y"
      "slot_of me x mod 16 = ?a" "slot_of me y mod 16 = ?b"
    by (simp_all add: slot_of_def)
  then show "np_dhkey_index me x = np_dhkey_index me y" "?a = ?b" using assms by simp_all
qed

lemma slot_entry_closer:
  assumes "table_inv r" "key \<noteq> my_key r" "k < 3" "table r ! (3 * slot_of (my_key r) key + k) = Some x"
  shows "Some x \<in> set (table r) \<and> np_dhkey_index (my_key r) key < np_dhkey_index x key"
proof -
  let ?n = "3 * slot_of (my_key r) key + k"
  have len: "?n < length (table r)"
    using slot_index_less [OF assms(2,3)] assms(1) by (simp add: table_inv_def)
  then have "x \<noteq> my_key r" "?n div 3 = slot_of (my_key r) x"
    using assms(1,4) unfolding table_inv_def placed_def by blast+
  then have x: "x \<noteq> my_key r" "slot_of (my_key r) key = slot_of (my_key r) x" using assms(3) by simp_all
  have "np_dhkey_index (my_key r) x < np_dhkey_index x key"
    using dhk.same_slot_closer [of "my_key r" x key] slot_of_same [OF x(2)] x(1) assms(2) by metis
  then show ?thesis using slot_of_same(1) [OF x(2)] assms(4) nth_mem [OF len] by simp
qed

text \<open>
  C14: for every key but the own one the lookup never trips an assertion as long as the entries have nodes, and
  returns at most one next hop, however many are asked for. Asked for no hop it returns the own key. Asked for one
  hop to a key in the range of the leafset it returns the member of the leafset that is closest to the key, if
  there is one. In all other cases the hop is an entry of the table; when the slot of the key has a usable entry,
  it shares a longer prefix with the key than the own key does, so that every such step comes closer to the target.
\<close>

theorem route_lookup_progress:
  assumes "table_inv r" "nodes_ok nd (table r)" "key \<noteq> my_key r"
  shows "\<exists>hops. np_route_lookup nd key cnt r = Some hops \<and> length hops \<le> 1
    \<and> (cnt = 0 \<longrightarrow> hops = [my_key r])
    \<and> (cnt = 1 \<and> np_dhkey_between key (Lrange r) (Rrange r) True \<longrightarrow>
        hops = list_of_closest (right_leafset r @ left_leafset r) key \<and> set hops \<subseteq> leaf_set r)
    \<and> (\<not> (cnt = 1 \<and> np_dhkey_between key (Lrange r) (Rrange r) True) \<and> 1 \<le> cnt \<longrightarrow> set hops \<subseteq> {x. Some x \<in> set (table r)})
    \<and> (\<not> (cnt = 1 \<and> np_dhkey_between key (Lrange r) (Rrange r) True) \<and> 1 \<le> cnt
       \<and> (\<exists>k \<in> {0, 1, 2}. \<exists>x n. table r ! (3 * slot_of (my_key r) key + k) = Some x \<and> nd x = Some n \<and> success_avg n > BAD_LINK)
       \<longrightarrow> (\<exists>h. hops = [h] \<and> np_dhkey_index (my_key r) key < np_dhkey_index h key))"
proof (cases "cnt = 1 \<and> np_dhkey_between key (Lrange r) (Rrange r) True")
  case True
  then show ?thesis
    using list_of_closest_subset [of "right_leafset r @ left_leafset r" key]
    by (auto simp: np_route_lookup_def np_route_append_leafset_to_sll_def leaf_set_def)
next
  case outside: False
  let ?i = "3 * slot_of (my_key r) key"
  let ?es = "map (\<lambda>k. table r ! (?i + k)) [0, 1, 2]"
  have entry: "\<exists>k < 3. table r ! (?i + k) = Some x" if "Some x \<in> set ?es" for x
    using that by (force simp: numeral_3_eq_3 less_Suc_eq)
  have closer: "Some x \<in> set (table r)" "np_dhkey_index (my_key r) key < np_dhkey_index x key" if "Some x \<in> set ?es" for x
    using entry [OF that] slot_entry_closer [OF assms(1,3)] by blast+
  have len: "length (table r) = NP_ROUTES_TABLE_SIZE" using assms(1) by (simp add: table_inv_def)
  have nok: "nodes_ok nd ?es" using closer(1) assms(2) unfolding nodes_ok_def by blast
  obtain t b where hop: "hop_loop nd ?es None = Some (t, b)" "b \<longrightarrow> (\<exists>x. t = Some x \<and> Some x \<in> set ?es)"
      "b \<longleftrightarrow> (\<exists>x n. Some x \<in> set ?es \<and> nd x = Some n \<and> success_avg n > BAD_LINK)"
    using hop_loop_spec [OF nok, of None] by blast
  have good: "b" if "\<exists>k \<in> {0, 1, 2}. \<exists>x n. table r ! (?i + k) = Some x \<and> nd x = Some n \<and> success_avg n > BAD_LINK"
    unfolding hop(3) using that by force
  show ?thesis
  proof (cases "b \<and> 1 \<le> cnt")
    case True
    then obtain x where x: "t = Some x" "Some x \<in> set ?es" using hop(2) by blast
    obtain h where h: "best_loop nd ?es x = Some h" "h = x \<or> Some h \<in> set ?es"
      using best_loop_spec [OF nok, of x] nok x(2) unfolding nodes_ok_def by blast
    then have "Some h \<in> set ?es" using x(2) by blast
    moreover have "np_route_lookup nd key cnt r = Some [h]"
      unfolding np_route_lookup_def if_not_P [OF outside] route_slot_eq [OF assms(3)] bind.simps Let_def
        hop(1) prod.case if_P [OF True] x(1) h(1) ..
    ultimately have "np_route_lookup nd key cnt r = Some [h] \<and> Some h \<in> set (table r) \<and> np_dhkey_index (my_key r) key < np_dhkey_index h key"
      using closer by blast
    then show ?thesis using True outside by auto
  next
    case False
    obtain ys where ys: "search_up nd r (np_dhkey_index (my_key r) key) (if cnt = 0 then [my_key r] else []) = Some ys"
        "Some ` set ys \<subseteq> set (table r) \<union> Some ` set (if cnt = 0 then [my_key r] else [])"
      using search_up_spec [OF len assms(2) dhk.index_less] assms(3) by metis
    define hops where "hops = (if cnt = 1 then list_of_closest ys key
        else if 2 \<le> length ys then [hd (np_keycache_sort_keys_cpm ys key)] else if 0 < length ys then [hd ys] else [])"
    have l: "np_route_lookup nd key cnt r = Some hops"
      unfolding np_route_lookup_def if_not_P [OF outside] route_slot_eq [OF assms(3)] bind.simps Let_def
        hop(1) prod.case if_not_P [OF False] ys(1) hops_def ..
    have "hd (np_keycache_sort_keys_cpm ys key) \<in> set ys" if "2 \<le> length ys"
      using that hd_in_set [of "np_keycache_sort_keys_cpm ys key"] by (cases "np_keycache_sort_keys_cpm ys key")
         (metis list.size(3) not_numeral_le_zero sort_keys_cpm_simps(2), simp flip: sort_keys_cpm_simps(1) [of ys key])
    then have "set hops \<subseteq> set ys \<and> length hops \<le> 1"
      using list_of_closest_subset [of ys key] by (auto simp: hops_def)
    moreover have "cnt = 0 \<longrightarrow> hops = [my_key r]"
      using ys(1) by (cases "np_dhkey_index (my_key r) key") (auto simp: hops_def split: if_splits)
    moreover have "\<not> (1 \<le> cnt \<and> (\<exists>k \<in> {0, 1, 2}. \<exists>x n. table r ! (?i + k) = Some x \<and> nd x = Some n \<and> success_avg n > BAD_LINK))"
      using good False by blast
    ultimately show ?thesis using l ys(2) outside by (auto split: if_splits)
  qed
qed

definition half_route :: np_route where
  "half_route = route_finish (np_route_init np_dhkey_min 7)
     ((table (np_route_init np_dhkey_min 7))[3 * slot_of np_dhkey_min np_dhkey_half := Some np_dhkey_half],
      Some np_dhkey_half, None)"

lemma half_ne_min: "np_dhkey_half \<noteq> np_dhkey_min"
  by (simp add: dhkey_consts)

lemma half_route_fields:
  "my_key half_route = np_dhkey_min"
  "table half_route = (replicate NP_ROUTES_TABLE_SIZE None)[3 * slot_of np_dhkey_min np_dhkey_half := Some np_dhkey_half]"
  by (simp_all add: half_route_def route_finish_def np_route_init_def)

lemma half_route_inv: "table_inv half_route"
proof -
  let ?r = "np_route_init np_dhkey_min 7"
  have "entry_change (my_key ?r) np_dhkey_half (table ?r)
      ((table ?r)[3 * slot_of np_dhkey_min np_dhkey_half := Some np_dhkey_half], Some np_dhkey_half, None)"
    using slot_index_less [OF half_ne_min, of 0]
    by (auto simp: entry_change_def np_route_init_def intro!: exI [of _ "0 :: nat"])
  then show ?thesis unfolding half_route_def
    by (intro entry_change_inv [OF init_table_inv]) (simp_all add: np_route_init_def half_ne_min)
qed

theorem route_lookup_progress_witness:
  "\<exists>h. np_route_lookup one_node np_dhkey_half 2 half_route = Some [h]
     \<and> np_dhkey_index np_dhkey_min np_dhkey_half < np_dhkey_index h np_dhkey_half"
proof -
  have "nodes_ok one_node (table half_route)" by (simp add: nodes_ok_def one_node_def)
  moreover have "table half_route ! (3 * slot_of (my_key half_route) np_dhkey_half + 0) = Some np_dhkey_half"
    using slot_index_less [OF half_ne_min, of 0] by (simp add: half_route_fields)
  moreover have "one_node np_dhkey_half = Some \<lparr>latency = 0, success_avg = 1\<rparr>" by (simp add: one_node_def)
  moreover have "BAD_LINK < success_avg \<lparr>latency = 0, success_avg = 1\<rparr>" by (simp add: BAD_LINK_def)
  ultimately show ?thesis
    using route_lookup_progress [OF half_route_inv, of one_node np_dhkey_half 2] half_ne_min
    unfolding half_route_fields(1) by fastforce
qed

end
