(* ===== verification/Np_Route_Walk.thy ===== *)
theory Np_Route_Walk
  imports Np_Route
begin

text \<open>
  Two walks over the whole routing table of \<^verbatim>\<open>src/np_route.c\<close>: the search for neighbours of a key
  (\<^verbatim>\<open>_np_route_neighbour_lookup\<close>), whose loop is left only through its flags, and
  \<^verbatim>\<open>_np_route_clear\<close>. The definitions are those of \<^verbatim>\<open>Np_Route\<close>; this theory shows that both
  walks end, stay inside of the table and have the effect they are called for.
\<close>

section \<open>Neighbours\<close>

lemma neighbour_entries_spec:
  assumes "length tbl = NP_ROUTES_TABLE_SIZE" "b + 2 < NP_ROUTES_TABLE_SIZE"
  shows "\<exists>keys'. neighbour_entries dhkey tbl (of_nat b) [0, 1, 2] (False, False, keys) = Some (b = 0, False, keys')
    \<and> length keys' \<le> length keys + 3 \<and> set keys' \<subseteq> set keys \<union> {x. Some x \<in> set tbl \<and> x \<noteq> dhkey}"
proof -
  have sz: "NP_ROUTES_TABLE_SIZE = 3072" by (simp add: NP_ROUTES_TABLE_SIZE_def)
  have u: "unat (of_nat (b + e) :: u32) = b + e" if "e \<le> 2" for e
    using that assms(2) sz by (simp add: unat_of_nat take_bit_nat_eq_self del: of_nat_add)
  have ne: "(of_nat (b + e) :: u32) \<noteq> of_nat NP_ROUTES_TABLE_SIZE" "(of_nat (b + e) :: u32) = 0 \<longleftrightarrow> b + e = 0" if "e \<le> 2" for e
  proof -
    have s: "unat (of_nat NP_ROUTES_TABLE_SIZE :: u32) = NP_ROUTES_TABLE_SIZE" unfolding sz by simp
    have "b + e \<noteq> NP_ROUTES_TABLE_SIZE" using assms(2) that by simp
    then show "(of_nat (b + e) :: u32) \<noteq> of_nat NP_ROUTES_TABLE_SIZE" using u [OF that] s by metis
    show "(of_nat (b + e) :: u32) = 0 \<longleftrightarrow> b + e = 0"
      using u [OF that] by (simp add: unat_eq_zero [symmetric] del: of_nat_add)
  qed
  have lt: "b + e < length tbl" if "e \<le> 2" for e using that assms by simp
  define step where "step e ks = (case tbl ! (b + e) of None \<Rightarrow> ks | Some x \<Rightarrow> if x = dhkey then ks else ks @ [x])" for e ks
  have st: "length (step e ks) \<le> length ks + 1 \<and> set (step e ks) \<subseteq> set ks \<union> {x. Some x \<in> set tbl \<and> x \<noteq> dhkey}" if "e \<le> 2" for e ks
    using nth_mem [OF lt [OF that]] by (auto simp: step_def split: option.splits)
  have one: "neighbour_entries dhkey tbl (of_nat b) (of_nat e # es) (l, False, ks)
      = neighbour_entries dhkey tbl (of_nat b) es (l \<or> b + e = 0, False, step e ks)" if "e \<le> 2" for e es l ks
  proof -
    have i: "(of_nat b :: u32) + of_nat e = of_nat (b + e)" by simp
    show ?thesis
      unfolding neighbour_entries.simps(2) Let_def i u [OF that] ne(2) [OF that] np_dhkey_equal_iff step_def
      using ne(1) [OF that] lt [OF that] by (simp del: of_nat_add)
  qed
  have "neighbour_entries dhkey tbl (of_nat b) [of_nat 0, of_nat 1, of_nat 2] (False, False, keys)
      = Some (b = 0, False, step 2 (step 1 (step 0 keys)))"
    by (subst one, simp)+ simp
  then show ?thesis using st [of 0 keys] st [of 1 "step 0 keys"] st [of 2 "step 1 (step 0 keys)"] by fastforce
qed

text \<open>The walk alternates between a window left and a window right of the start index.\<close>

lemma neighbour_loop_spec:
  assumes "length tbl = NP_ROUTES_TABLE_SIZE" "2 * start + 2 < NP_ROUTES_TABLE_SIZE" "i \<le> start" "length keys \<le> 9"
  shows "\<exists>keys'. neighbour_loop dhkey tbl (of_nat start) (of_nat i) False (False, False, keys) = Some keys'
    \<and> length keys' \<le> 9 \<and> set keys' \<subseteq> set keys \<union> {x. Some x \<in> set tbl \<and> x \<noteq> dhkey}"
  using assms(3,4)
proof (induction "start - i" arbitrary: i keys rule: less_induct)
  case less
  let ?N = "{x. Some x \<in> set tbl \<and> x \<noteq> dhkey}"
  have l: "(of_nat start :: u32) + (if \<not> False then - 1 else 1) * of_nat i = of_nat (start - i)"
    using less.prems(1) by (simp add: of_nat_diff)
  have r: "(of_nat start :: u32) + (if \<not> True then - 1 else 1) * (of_nat i + 1) = of_nat (start + Suc i)" by simp
  show ?case
  proof (cases "length keys < 7")
    case False
    then show ?thesis using less.prems(2) by (subst neighbour_loop.simps) simp
  next
    case True
    have b1: "start - i + 2 < NP_ROUTES_TABLE_SIZE" using assms(2) by simp
    obtain k1 where k1: "neighbour_entries dhkey tbl (of_nat (start - i)) [0, 1, 2] (False, False, keys) = Some (start - i = 0, False, k1)"
      and s1: "length k1 \<le> length keys + 3" "set k1 \<subseteq> set keys \<union> ?N"
      using neighbour_entries_spec [OF assms(1) b1, of dhkey keys] by blast
    have e1: "neighbour_loop dhkey tbl (of_nat start) (of_nat i) False (False, False, keys)
        = neighbour_loop dhkey tbl (of_nat start) (of_nat i + 1) True (start - i = 0, False, k1)"
      by (subst neighbour_loop.simps) (simp only: prod.case Let_def l k1, simp add: True)
    show ?thesis
    proof (cases "start - i = 0 \<or> \<not> length k1 < 7")
      case True
      then show ?thesis unfolding e1 using s1 \<open>length keys < 7\<close> by (subst neighbour_loop.simps) auto
    next
      case go: False
      have b2: "start + Suc i + 2 < NP_ROUTES_TABLE_SIZE" using assms(2) less.prems(1) go by simp
      obtain k2 where k2: "neighbour_entries dhkey tbl (of_nat (start + Suc i)) [0, 1, 2] (False, False, k1) = Some (start + Suc i = 0, False, k2)"
        and s2: "length k2 \<le> length k1 + 3" "set k2 \<subseteq> set k1 \<union> ?N"
        using neighbour_entries_spec [OF assms(1) b2, of dhkey k1] by blast
      have e2: "neighbour_loop dhkey tbl (of_nat start) (of_nat i + 1) True (False, False, k1)
          = neighbour_loop dhkey tbl (of_nat start) (of_nat (Suc i)) False (False, False, k2)"
        using go by (subst neighbour_loop.simps) (simp only: prod.case Let_def r k2, simp add: add.commute)
      have m: "start - Suc i < start - i" "Suc i \<le> start" "length k2 \<le> 9" using go less.prems(1) s2(1) by auto
      obtain k3 where "neighbour_loop dhkey tbl (of_nat start) (of_nat (Suc i)) False (False, False, k2) = Some k3"
        "length k3 \<le> 9" "set k3 \<subseteq> set k2 \<union> ?N"
        using less.hyps [OF m] by blast
      moreover have "(start - i = 0) = False" using go by simp
      ultimately show ?thesis unfolding e1 using s1 s2 e2 by auto
    qed
  qed
qed

text \<open>
  C32: the search for neighbours of a key in the routing table always ends and never reads outside of the
  table, for every table and every key but the own one. It returns at most nine keys of the table, none of
  them the key searched for.
\<close>

theorem route_neighbour_lookup_returns:
  assumes "table_inv r" "dhkey \<noteq> my_key r"
  shows "\<exists>keys. np_route_neighbour_lookup dhkey r = Some keys \<and> length keys \<le> 9
    \<and> set keys \<subseteq> {x. Some x \<in> set (table r) \<and> x \<noteq> dhkey}"
proof -
  let ?c = "np_dhkey_index (my_key r) dhkey"
  have c: "?c < 64" using dhk.index_less [of "my_key r" dhkey] assms(2) by auto
  have d: "dhkey_digit dhkey ?c < 16" by (rule dhkey_digit_less)
  have "?c * dhkey_digit dhkey ?c \<le> 63 * 15" using c d by (intro mult_le_mono) simp_all
  then have b: "2 * (?c * dhkey_digit dhkey ?c) + 2 < NP_ROUTES_TABLE_SIZE" by (simp add: NP_ROUTES_TABLE_SIZE_def)
  have h: "np_dhkey_hexalpha_at dhkey (int ?c) = Some (dhkey_nibbles dhkey ! ?c)"
    "dhkey_digit dhkey ?c = unat (dhkey_nibbles dhkey ! ?c)"
    using c by (simp_all add: np_dhkey_hexalpha_at_nth dhkey_digit_def)
  have len: "length (table r) = NP_ROUTES_TABLE_SIZE" using assms(1) by (simp add: table_inv_def)
  show ?thesis
    using neighbour_loop_spec [OF len b, of 0 "[]" dhkey] c h by (auto simp: np_route_neighbour_lookup_def Let_def)
qed

theorem route_neighbour_lookup_returns_witness:
  "\<exists>keys. np_route_neighbour_lookup np_dhkey_half half_route = Some keys \<and> length keys \<le> 9"
  using route_neighbour_lookup_returns [OF half_route_inv, of np_dhkey_half] half_ne_min
  unfolding half_route_fields(1) by blast

section \<open>Clearing\<close>

lemma leave_loop_first:
  assumes "tbl ! (index + k) = Some key" "\<And>j. j < k \<Longrightarrow> tbl ! (index + j) = None" "k < 3"
  shows "leave_loop index key [0, 1, 2] tbl = (tbl[index + k := None], Some key)"
proof -
  consider "k = 0" | "k = 1" | "k = 2" using assms(3) by linarith
  then show ?thesis
    using assms(1) assms(2) [of 0] assms(2) [of 1] by cases (simp_all add: np_simps)
qed

lemma clear_step:
  assumes "table_inv r" "n < NP_ROUTES_TABLE_SIZE" "\<And>m. m < n \<Longrightarrow> table r ! m = None" "table r ! n = Some item"
  shows "np_route_update nd item False deleted added r =
    Some (route_finish r ((table r)[n := None], None, Some item), Some item, None)"
    "table_inv (route_finish r ((table r)[n := None], None, Some item))"
proof -
  have ne: "item \<noteq> my_key r" and s: "n div 3 = slot_of (my_key r) item"
    using assms by (auto simp: table_inv_def placed_def)
  have n: "n = 3 * slot_of (my_key r) item + n mod 3" unfolding s [symmetric] by simp
  have "leave_loop (3 * slot_of (my_key r) item) item [0, 1, 2] (table r)
      = ((table r)[3 * slot_of (my_key r) item + n mod 3 := None], Some item)"
  proof (rule leave_loop_first)
    show "table r ! (3 * slot_of (my_key r) item + n mod 3) = Some item" using assms(4) n by simp
    show "table r ! (3 * slot_of (my_key r) item + j) = None" if "j < n mod 3" for j
      using assms(3) n that by (metis add_less_cancel_left)
  qed simp
  then have l: "leave_loop (3 * slot_of (my_key r) item) item [0, 1, 2] (table r) = ((table r)[n := None], Some item)"
    using n by simp
  then show "np_route_update nd item False deleted added r =
      Some (route_finish r ((table r)[n := None], None, Some item), Some item, None)"
    unfolding route_update_finish [OF ne] by simp
  show "table_inv (route_finish r ((table r)[n := None], None, Some item))"
    by (rule entry_change_inv [OF assms(1) ne leave_change [OF l]])
qed

lemma clear_loop_empties:
  assumes "table_inv r" "n \<le> NP_ROUTES_TABLE_SIZE" "\<And>m. m < n \<Longrightarrow> table r ! m = None"
  shows "\<exists>r'. clear_loop nd [n..<NP_ROUTES_TABLE_SIZE] deleted added r = Some r' \<and> table_inv r'
    \<and> table r' = replicate NP_ROUTES_TABLE_SIZE None \<and> (\<exists>f g h. r' = r\<lparr>table := f, inroute_refs := g, route_count := h\<rparr>)"
  using assms
proof (induction "NP_ROUTES_TABLE_SIZE - n" arbitrary: n r deleted added)
  case 0
  then have n: "n = NP_ROUTES_TABLE_SIZE" by simp
  have "table r = replicate NP_ROUTES_TABLE_SIZE None"
    using 0 n by (intro nth_equalityI) (simp_all add: table_inv_def)
  moreover have "\<exists>f g h. r = r\<lparr>table := f, inroute_refs := g, route_count := h\<rparr>"
    by (rule exI [of _ "table r"], rule exI [of _ "inroute_refs r"], rule exI [of _ "route_count r"]) simp
  ultimately show ?case using 0(2) n by simp
next
  case (Suc d)
  then have lt: "n < NP_ROUTES_TABLE_SIZE" by simp
  have up: "[n..<NP_ROUTES_TABLE_SIZE] = n # [Suc n..<NP_ROUTES_TABLE_SIZE]" using lt by (rule upt_conv_Cons)
  have d: "d = NP_ROUTES_TABLE_SIZE - Suc n" using Suc(2) by simp
  show ?case
  proof (cases "table r ! n")
    case None
    have "table r ! m = None" if "m < Suc n" for m using that None Suc.prems(3) by (cases "m = n") auto
    from Suc.hyps(1) [OF d Suc.prems(1) _ this, of deleted added] show ?thesis using None lt by (simp add: up)
  next
    case (Some item)
    let ?r = "route_finish r ((table r)[n := None], None, Some item)"
    have t: "table ?r = (table r)[n := None]" by (simp add: route_finish_def)
    have self: "?r\<lparr>table := (table ?r)[n := None]\<rparr> = ?r" by (simp add: route_finish_def)
    have "table ?r ! m = None" if "m < Suc n" for m
      using that Suc.prems(1,3) lt unfolding t by (cases "m = n") (auto simp: table_inv_def)
    from Suc.hyps(1) [OF d clear_step(2) [OF Suc.prems(1) lt Suc.prems(3) Some] _ this, of "Some item" None]
    obtain r' f g h where r': "clear_loop nd [Suc n..<NP_ROUTES_TABLE_SIZE] (Some item) None ?r = Some r'" "table_inv r'"
      "table r' = replicate NP_ROUTES_TABLE_SIZE None" "r' = ?r\<lparr>table := f, inroute_refs := g, route_count := h\<rparr>"
      using lt by auto
    have "np_route_update nd item False deleted added r = Some (?r, Some item, None)"
      using Suc.prems(1) lt Suc.prems(3) Some by (rule clear_step(1))
    then have "clear_loop nd [n..<NP_ROUTES_TABLE_SIZE] deleted added r = Some r'"
      unfolding up by (simp only: clear_loop.simps Some option.case bind.simps prod.case self r'(1))
    moreover have "r' = r\<lparr>table := f, inroute_refs := g, route_count := h\<rparr>" using r'(4) by (simp add: route_finish_def)
    ultimately show ?thesis using r'(2,3) by blast
  qed
qed

text \<open>
  C33: clearing ends with an empty routing table and empty leafsets: every entry has left, the counter is
  zero and no key holds a routing reference any more.
\<close>

theorem route_clear_empties:
  assumes "table_inv r" "leaf_inv r"
  shows "\<exists>r'. np_route_clear nd deleted added r = Some r' \<and> table r' = replicate NP_ROUTES_TABLE_SIZE None
    \<and> np_get_route_count r' = 0 \<and> inroute_refs r' = (\<lambda>_. 0)
    \<and> left_leafset r' = [] \<and> right_leafset r' = [] \<and> \<not> np_route_my_key_has_connection r'"
proof -
  obtain r1 f g h where r1: "clear_loop nd [0..<NP_ROUTES_TABLE_SIZE] deleted added r = Some r1" "table_inv r1"
      "table r1 = replicate NP_ROUTES_TABLE_SIZE None" "r1 = r\<lparr>table := f, inroute_refs := g, route_count := h\<rparr>"
    using clear_loop_empties [OF assms(1), of 0 nd deleted added] by auto
  have "leaf_inv r1" using assms(2) unfolding r1(4) leaf_inv_def right_side_def leaf_set_def by simp
  from leafset_clear_spec [OF this] obtain r' where r': "np_route_leafset_clear r1 = Some r'" "leaf_inv r'"
    "leaf_set r' = {}" "same_table r1 r'" by blast
  have "present (replicate k None :: np_dhkey option list) = []" for k by (induction k) auto
  moreover have "count_list (replicate k None) (Some x) = 0" for k and x :: np_dhkey by (induction k) auto
  ultimately have z: "route_count r' = 0" "inroute_refs r' = (\<lambda>_. 0)" "table r' = replicate NP_ROUTES_TABLE_SIZE None"
    using r1(2,3) r'(4) by (simp_all add: table_inv_def same_table_def used_def)
  have l: "left_leafset r' = []" "right_leafset r' = []" "leafset_left_count r' = 0" "leafset_right_count r' = 0"
    using r'(2,3) by (simp_all add: leaf_set_def leaf_inv_def)
  have "np_route_clear nd deleted added r = Some r'" by (simp add: np_route_clear_def r1(1) r'(1) del: clear_loop.simps)
  then show ?thesis using z l
    by (simp add: np_get_route_count_def np_route_my_key_has_connection_def np_route_my_key_count_neighbors_def)
qed

lemma half_route_leaf_inv: "leaf_inv half_route"
  using init_leaf_inv [of np_dhkey_min 7] by (simp add: half_route_def route_finish_def leaf_inv_def right_side_def leaf_set_def)

theorem route_clear_empties_witness:
  "\<exists>r'. np_route_clear one_node None None half_route = Some r' \<and> np_get_route_count r' = 0"
  using route_clear_empties [OF half_route_inv half_route_leaf_inv] by blast

end
