(* ===== verification/Np_Bytes.thy ===== *)
theory Np_Bytes
  imports Np_Prelude "HOL-Library.Monad_Syntax"
begin

text \<open>
  Byte arrays and counting loops as the C sources use them. An access outside of an array is
  \<open>None\<close>. A \<^verbatim>\<open>for\<close> loop whose counter is a narrow unsigned integer is translated with the counter at
  its width (\<open>loop_w\<close>): when the bound is beyond the reach of the counter the loop never ends, which
  is the value \<open>None\<close> as well. \<open>loop_w_for_each\<close> and \<open>loop_w_diverges\<close> say when which case applies.
\<close>

section \<open>Arrays\<close>

definition rd :: "'a list \<Rightarrow> nat \<Rightarrow> 'a option" where
  "rd xs i = (if i < length xs then Some (xs ! i) else None)"

definition wr :: "'a list \<Rightarrow> nat \<Rightarrow> 'a \<Rightarrow> 'a list option" where
  "wr xs i v = (if i < length xs then Some (xs[i := v]) else None)"

definition modify :: "('a \<Rightarrow> 'a) \<Rightarrow> nat \<Rightarrow> 'a list \<Rightarrow> 'a list option" where
  "modify f i xs = do { v \<leftarrow> rd xs i; wr xs i (f v) }"

definition memset :: "'a list \<Rightarrow> nat \<Rightarrow> 'a \<Rightarrow> nat \<Rightarrow> 'a list option" where
  "memset xs off v n =
     (if off + n \<le> length xs then Some (take off xs @ replicate n v @ drop (off + n) xs) else None)"

lemma rd_eq [simp]: "i < length xs \<Longrightarrow> rd xs i = Some (xs ! i)"
  by (simp add: rd_def)

lemma wr_eq [simp]: "i < length xs \<Longrightarrow> wr xs i v = Some (xs[i := v])"
  by (simp add: wr_def)

lemma modify_eq: "modify f i xs = (if i < length xs then Some (xs[i := f (xs ! i)]) else None)"
  by (simp add: modify_def rd_def)

lemma modify_in [simp]: "i < length xs \<Longrightarrow> modify f i xs = Some (xs[i := f (xs ! i)])"
  by (simp add: modify_eq)

lemma modify_SomeD: "modify f i xs = Some ys \<Longrightarrow> i < length xs \<and> ys = xs[i := f (xs ! i)]"
  by (simp add: modify_eq split: if_splits)

section \<open>Loops\<close>

fun for_each :: "('i \<Rightarrow> 's \<Rightarrow> 's option) \<Rightarrow> 'i list \<Rightarrow> 's \<Rightarrow> 's option" where
  "for_each f [] s = Some s"
| "for_each f (i # is) s = do { s' \<leftarrow> f i s; for_each f is s' }"

partial_function (option) loop_w ::
  "'w::len word \<Rightarrow> nat \<Rightarrow> (nat \<Rightarrow> 's \<Rightarrow> 's option) \<Rightarrow> 'w word \<Rightarrow> 's \<Rightarrow> 's option" where
  "loop_w step bound f k s =
     (if unat k < bound
      then do { s' \<leftarrow> f (unat k) s; loop_w step bound f (k + step) s' }
      else Some s)"

text \<open>What a loop keeps, and what it establishes when each step does its part and leaves the rest alone.\<close>

lemma for_each_inv:
  assumes "P s" "\<And>i s. i \<in> set is \<Longrightarrow> P s \<Longrightarrow> \<exists>s'. f i s = Some s' \<and> P s'"
  shows "\<exists>s'. for_each f is s = Some s' \<and> P s'"
  using assms
proof (induction "is" arbitrary: s)
  case (Cons i "is")
  obtain s1 where "f i s = Some s1" "P s1" using Cons.prems by (metis list.set_intros(1))
  with Cons.IH [of s1] Cons.prems(2) show ?case by auto
qed simp

lemma for_each_SomeD:
  assumes "for_each f is s = Some s'" "P s" "\<And>i s s'. i \<in> set is \<Longrightarrow> P s \<Longrightarrow> f i s = Some s' \<Longrightarrow> P s'"
  shows "P s'"
  using assms
proof (induction "is" arbitrary: s)
  case (Cons i "is")
  then obtain s1 where s1: "f i s = Some s1" "for_each f is s1 = Some s'" by (auto simp: bind_eq_Some_conv)
  show ?case
    by (rule Cons.IH [OF s1(2)]) (use Cons.prems(2,3) s1(1) in auto)
qed simp

lemma for_each_append: "for_each f (xs @ ys) s = do { s' \<leftarrow> for_each f xs s; for_each f ys s' }"
  by (induction xs arbitrary: s) (auto split: bind_splits)

lemma for_each_cong:
  "(\<And>i s. i \<in> set is \<Longrightarrow> f i s = g i s) \<Longrightarrow> for_each f is s = for_each g is s"
  by (induction "is" arbitrary: s) (auto split: bind_splits)

text \<open>A pass that touches each cell once is a pointwise update.\<close>

lemma for_each_pointwise:
  assumes "n \<le> length xs"
    "\<And>i ys. i < n \<Longrightarrow> length ys = length xs \<Longrightarrow> ys ! i = xs ! i \<Longrightarrow> f i ys = Some (ys[i := g i])"
  shows "for_each f [0..<n] xs = Some (map g [0..<n] @ drop n xs)"
  using assms
proof (induction n)
  case (Suc n)
  let ?ys = "map g [0..<n] @ drop n xs"
  have n: "n < length xs" using Suc.prems(1) by simp
  have "for_each f [0..<n] xs = Some ?ys" using Suc by simp
  moreover have "?ys ! n = xs ! n" "length ?ys = length xs" using n by (simp_all add: nth_append)
  moreover have "?ys[n := g n] = map g [0..<Suc n] @ drop (Suc n) xs"
    using n Cons_nth_drop_Suc [OF n] by (simp add: list_update_append)
      (metis list_update_code(2))
  ultimately show ?case using Suc.prems(2) [of n ?ys] by (simp add: for_each_append)
qed simp

lemma unat_of_nat_fit: "n < 2 ^ LENGTH('w::len) \<Longrightarrow> unat (of_nat n :: 'w word) = n"
  by (simp add: unat_of_nat take_bit_nat_eq_self)

lemma loop_w_for_each:
  fixes step :: "'w::len word"
  assumes "step \<noteq> 0" "m * unat step < 2 ^ LENGTH('w)" "bound \<le> m * unat step" "(m - 1) * unat step < bound" "j \<le> m"
  shows "loop_w step bound f (of_nat (j * unat step)) s = for_each f (map (\<lambda>i. i * unat step) [j..<m]) s"
  using assms(5)
proof (induction "m - j" arbitrary: j s)
  case 0
  then have "j = m" by simp
  moreover have "unat (of_nat (m * unat step) :: 'w word) = m * unat step" using assms(2) by (simp add: unat_of_nat_fit del: of_nat_mult)
  ultimately show ?case using assms(3) by (subst loop_w.simps) (simp del: of_nat_mult)
next
  case (Suc d)
  then have lt: "j < m" "d = m - Suc j" by simp_all
  have "j * unat step \<le> (m - 1) * unat step" using lt(1) by (intro mult_le_mono1) simp
  then have le: "j * unat step < bound" using assms(4) by (rule le_less_trans)
  have u: "unat (of_nat (j * unat step) :: 'w word) = j * unat step"
    using le assms(2,3) by (intro unat_of_nat_fit) simp
  have next_k: "(of_nat (j * unat step) + step :: 'w word) = of_nat (Suc j * unat step)" by simp
  have "[j..<m] = j # [Suc j..<m]" using lt(1) by (rule upt_conv_Cons)
  moreover have "loop_w step bound f (of_nat (j * unat step)) s
      = do { s' \<leftarrow> f (j * unat step) s; loop_w step bound f (of_nat (Suc j * unat step)) s' }"
    by (subst loop_w.simps) (simp only: u next_k le if_True)
  moreover have "loop_w step bound f (of_nat (Suc j * unat step)) s' = for_each f (map (\<lambda>i. i * unat step) [Suc j..<m]) s'" for s'
    by (rule Suc.hyps(1)) (use lt in simp_all)
  ultimately show ?case by (simp only: list.map for_each.simps)
qed

lemma loop_w_diverges:
  fixes step :: "'w::len word"
  assumes "2 ^ LENGTH('w) \<le> bound"
  shows "loop_w step bound f k s = None"
proof -
  have "\<not> 2 ^ LENGTH('w) \<le> bound" if "loop_w step bound f k s = Some y" for y
    using that
    by (rule loop_w.raw_induct [where P = "\<lambda>step bound f k s y. \<not> 2 ^ LENGTH('w) \<le> bound", rotated])
       (auto simp: bind_eq_Some_conv not_less not_le intro: le_less_trans [OF _ unsigned_less] split: if_splits)
  then show ?thesis using assms by (cases "loop_w step bound f k s") auto
qed

text \<open>The two counters of the filters: \<^verbatim>\<open>uint16_t\<close> in steps of one and of two.\<close>

lemma u16_loop_1: "n < 65536 \<Longrightarrow> loop_w (1 :: u16) n f 0 s = for_each f [0..<n] s"
  using loop_w_for_each [of "1 :: u16" n n 0 f s] loop_w.simps [of "1 :: u16" n f 0 s] by (cases "n = 0") auto

lemma u16_loop_2: "n < 32768 \<Longrightarrow> loop_w (2 :: u16) (2 * n) f 0 s = for_each f (map (\<lambda>i. i * 2) [0..<n]) s"
  using loop_w_for_each [of "2 :: u16" n "2 * n" 0 f s] loop_w.simps [of "2 :: u16" "2 * n" f 0 s] by (cases "n = 0") auto

end
