(* ===== verification/Np_Pcg.thy ===== *)
theory Np_Pcg
  imports Np_Bytes
begin

text \<open>
  The random number generator of \<^verbatim>\<open>src/util/np_pcg_rng.c\<close>. The two seeds that libsodium's
  \<^verbatim>\<open>randombytes_buf\<close> delivers are arguments of the initialisation.
\<close>

record pcg_state =
  pcg_st :: u64
  pcg_inc :: u64

definition PCG_DEFAULT_MULTIPLIER_32 :: u64 where
  "PCG_DEFAULT_MULTIPLIER_32 = 6364136223846793005"

definition pcg_rotr_32 :: "u32 \<Rightarrow> u32 \<Rightarrow> u32" where
  "pcg_rotr_32 value rot = drop_bit (unat rot) value OR push_bit (unat ((- rot) AND 31)) value"

definition pcg_output_xsh_rr_32_32 :: "pcg_state \<Rightarrow> u32 \<times> pcg_state" where
  "pcg_output_xsh_rr_32_32 rng =
     (let oldstate = pcg_st rng
      in (pcg_rotr_32 (ucast (drop_bit 27 (drop_bit 18 oldstate XOR oldstate))) (ucast (drop_bit 59 oldstate)),
          rng\<lparr>pcg_st := pcg_st rng * PCG_DEFAULT_MULTIPLIER_32 + pcg_inc rng\<rparr>))"

definition pcg_setseq_32_srandom_r :: "u64 \<Rightarrow> u64 \<Rightarrow> pcg_state" where
  "pcg_setseq_32_srandom_r initstate initseq =
     (let r0 = \<lparr>pcg_st = 0, pcg_inc = push_bit 1 initseq OR 1\<rparr>;
          r1 = snd (pcg_output_xsh_rr_32_32 r0);
          r2 = r1\<lparr>pcg_st := pcg_st r1 + initstate\<rparr>
      in snd (pcg_output_xsh_rr_32_32 r2))"

definition np_rng_init :: "u64 \<times> u64 \<Rightarrow> pcg_state" where
  "np_rng_init seeds = pcg_setseq_32_srandom_r (fst seeds) (snd seeds)"

definition np_rng_next :: "pcg_state \<Rightarrow> u32 \<times> pcg_state" where
  "np_rng_next rng = pcg_output_xsh_rr_32_32 rng"

text \<open>The rejection loop of \<^verbatim>\<open>np_rng_next_bounded\<close>; a bound of zero divides by zero.\<close>

partial_function (option) bounded_loop :: "u32 \<Rightarrow> u32 \<Rightarrow> pcg_state \<Rightarrow> (u32 \<times> pcg_state) option" where
  "bounded_loop threshold bound rng =
     (let (r, rng1) = np_rng_next rng
      in if threshold \<le> r then Some (r mod bound, rng1) else bounded_loop threshold bound rng1)"

definition np_rng_next_bounded :: "pcg_state \<Rightarrow> u32 \<Rightarrow> (u32 \<times> pcg_state) option" where
  "np_rng_next_bounded rng bound = (if bound = 0 then None else bounded_loop ((- bound) mod bound) bound rng)"

text \<open>
  The global generator is one state behind a spin lock: each call runs to its end before the next
  one begins.
\<close>

definition np_global_rng_next :: "pcg_state \<Rightarrow> u32 \<times> pcg_state" where
  "np_global_rng_next g = np_rng_next g"

definition np_global_rng_next_bounded :: "pcg_state \<Rightarrow> u32 \<Rightarrow> (u32 \<times> pcg_state) option" where
  "np_global_rng_next_bounded g bound = np_rng_next_bounded g bound"

section \<open>Properties\<close>

text \<open>The increment of a seeded generator is odd, which a full period needs, and no draw changes it.\<close>

lemma rng_inc_odd: "odd (pcg_inc (np_rng_init seeds))" "pcg_inc (snd (np_rng_next rng)) = pcg_inc rng"
  by (simp_all add: np_rng_init_def pcg_setseq_32_srandom_r_def pcg_output_xsh_rr_32_32_def np_rng_next_def Let_def
      even_or_iff)

text \<open>A bound that is a power of two never rejects a draw, and the result is below the bound.\<close>

lemma rng_bounded_power:
  assumes "n < 32"
  shows "\<exists>r rng'. np_rng_next_bounded rng (2 ^ n) = Some (r, rng') \<and> r < 2 ^ n \<and> rng' = snd (np_rng_next rng)"
proof -
  have nz: "(2 ^ n :: u32) \<noteq> 0" using assms by (simp add: word_eq_iff_unsigned)
  have "(- (2 ^ n)) mod (2 ^ n) = (0 :: u32)"
    unfolding take_bit_eq_mod [symmetric] minus_exp_eq_not_mask by (rule bit_word_eqI) (auto simp: bit_simps)
  moreover have "x mod 2 ^ n < 2 ^ n" for x :: u32
    using nz by (metis word_mod_less_divisor word_greater_zero_iff)
  ultimately show ?thesis using nz
    by (subst np_rng_next_bounded_def, subst bounded_loop.simps) (simp add: case_prod_unfold Let_def)
qed

end
