(* ===== verification/Np_Bloom.thy ===== *)
theory Np_Bloom
  imports Complex_Main Np_Dhkey Np_Pcg
begin

text \<open>
  The bloom filters of \<^verbatim>\<open>src/util/np_bloom.c\<close> that are built on one byte array: standard, stable,
  scalable, decaying and counting filters. The neuropil filter has a theory of its own.

  A filter is the C struct: \<^verbatim>\<open>_size\<close> is a natural number (\<^verbatim>\<open>size_t\<close>), the other counters keep their
  width. A function that modifies the filter returns the new one; \<open>None\<close> stands for \<^verbatim>\<open>ABORT\<close>, a failed
  assertion, a division by zero, an access outside of the array, or a loop that does not end. Values
  of type \<^verbatim>\<open>float\<close> are real numbers. What \<^verbatim>\<open>realloc\<close> finds in new memory is an argument.
\<close>

section \<open>The filter\<close>

datatype bloom_filter_type = standard_bf | stable_bf | scalable_bf | decaying_bf | counting_bf | neuropil_bf

record np_bloom =
  bl_type :: bloom_filter_type
  bl_size :: nat
  bl_d :: u8
  bl_p :: u8
  bl_rng :: pcg_state
  bl_bitset :: "u8 list"
  bl_num_blocks :: u8
  bl_free_items :: u16

text \<open>\<^verbatim>\<open>id.t[k] % bloom->_size\<close>, the mask of a bit in its byte, and the byte of a cell of \<^verbatim>\<open>_d\<close> bits.\<close>

definition bit_array_pos :: "nat \<Rightarrow> u32 \<Rightarrow> nat option" where
  "bit_array_pos sz w = (if sz = 0 then None else Some (unat w mod sz))"

definition bitmask :: "nat \<Rightarrow> u8" where
  "bitmask pos = drop_bit (pos mod 8) 0x80"

definition cell_pos :: "nat \<Rightarrow> u8 \<Rightarrow> nat" where
  "cell_pos pos d = unat (drop_bit 3 (of_nat pos * ucast d :: u32))"

definition same_kind :: "np_bloom \<Rightarrow> np_bloom \<Rightarrow> bool" where
  "same_kind first result \<longleftrightarrow>
     bl_type first = bl_type result \<and> bl_size first = bl_size result \<and> bl_d first = bl_d result
     \<and> bl_num_blocks first = bl_num_blocks result"

section \<open>Standard filter\<close>

definition set_key_bits :: "nat \<Rightarrow> nat \<Rightarrow> np_dhkey \<Rightarrow> u8 list \<Rightarrow> u8 list option" where
  "set_key_bits sz off key bs =
     for_each (\<lambda>w bs. do {
         pos \<leftarrow> bit_array_pos sz w;
         modify (\<lambda>v. v OR bitmask pos) (off + pos div 8) bs
       }) (dhkey_t key) bs"

fun test_key_bits :: "nat \<Rightarrow> nat \<Rightarrow> u32 list \<Rightarrow> u8 list \<Rightarrow> bool option" where
  "test_key_bits sz off [] bs = Some True"
| "test_key_bits sz off (w # ws) bs =
     do {
       pos \<leftarrow> bit_array_pos sz w;
       v \<leftarrow> rd bs (off + pos div 8);
       (if v AND bitmask pos = 0 then Some False else test_key_bits sz off ws bs)
     }"

definition np_standard_bloom_create :: "nat \<Rightarrow> np_bloom" where
  "np_standard_bloom_create bit_size =
     \<lparr>bl_type = standard_bf, bl_size = bit_size, bl_d = 1, bl_p = 0, bl_rng = \<lparr>pcg_st = 0, pcg_inc = 0\<rparr>,
      bl_bitset = replicate (bit_size div 8 * 1) 0, bl_num_blocks = 1,
      bl_free_items = of_nat (bit_size * 1 div 16)\<rparr>"

definition np_standard_bloom_add :: "np_bloom \<Rightarrow> np_dhkey \<Rightarrow> np_bloom option" where
  "np_standard_bloom_add bloom key =
     (if bl_free_items bloom = 0 then None
      else do {
        bs \<leftarrow> set_key_bits (bl_size bloom) 0 key (bl_bitset bloom);
        Some (bloom\<lparr>bl_bitset := bs, bl_free_items := bl_free_items bloom - 1\<rparr>)
      })"

definition np_standard_bloom_check :: "np_bloom \<Rightarrow> np_dhkey \<Rightarrow> bool option" where
  "np_standard_bloom_check bloom key = test_key_bits (bl_size bloom) 0 (dhkey_t key) (bl_bitset bloom)"

definition np_standard_bloom_intersect :: "np_bloom \<Rightarrow> np_bloom \<Rightarrow> (bool \<times> np_bloom) option" where
  "np_standard_bloom_intersect result first =
     (if bl_type first = standard_bf \<and> same_kind first result
      then do {
        (i, bs) \<leftarrow> loop_w (1 :: u16) (bl_size result div 8 * unat (bl_d result))
          (\<lambda>k (i :: u16, bs). do {
             f \<leftarrow> rd (bl_bitset first) k;
             bs1 \<leftarrow> modify (\<lambda>v. v AND f) k bs;
             v1 \<leftarrow> rd bs1 k;
             Some (if v1 > 0 then i + 1 else i, bs1)
           }) 0 (0, bl_bitset result);
        Some (i > 0, result\<lparr>bl_bitset := bs, bl_free_items := 0\<rparr>)
      }
      else None)"

definition np_standard_bloom_union :: "np_bloom \<Rightarrow> np_bloom \<Rightarrow> np_bloom option" where
  "np_standard_bloom_union result first =
     (if bl_type first = standard_bf \<and> same_kind first result
         \<and> unat (bl_free_items first) + unat (bl_free_items result) \<ge> bl_size result div 16
      then do {
        bs \<leftarrow> loop_w (1 :: u16) (bl_size result div 8 * unat (bl_d result))
          (\<lambda>k bs. do { f \<leftarrow> rd (bl_bitset first) k; modify (\<lambda>v. v OR f) k bs }) 0 (bl_bitset result);
        Some (result\<lparr>bl_bitset := bs,
          bl_free_items := bl_free_items result + (bl_free_items first - of_nat (bl_size result div 16))\<rparr>)
      }
      else None)"

definition np_standard_bloom_clear :: "np_bloom \<Rightarrow> np_bloom option" where
  "np_standard_bloom_clear res =
     do {
       bs \<leftarrow> memset (replicate (bl_size res div 8 * unat (bl_d res)) 0) 0 0
               (unat (bl_num_blocks res) * bl_size res * unat (bl_d res) div 8);
       Some (res\<lparr>bl_bitset := bs, bl_free_items := of_nat (bl_size res * unat (bl_d res) div 16)\<rparr>)
     }"

section \<open>Stable filter\<close>

definition mask_pos :: "nat \<Rightarrow> u32 \<Rightarrow> nat" where
  "mask_pos sz w = unat ((ucast w :: u64) AND (of_nat sz - 1))"

definition np_stable_bloom_create :: "u64 \<times> u64 \<Rightarrow> nat \<Rightarrow> u8 \<Rightarrow> u8 \<Rightarrow> np_bloom option" where
  "np_stable_bloom_create seeds sz d p =
     (if sz mod 2 = 0
      then Some \<lparr>bl_type = stable_bf, bl_size = sz, bl_d = d, bl_p = p, bl_rng = np_rng_init seeds,
        bl_bitset = replicate (sz * unat d div 8) 0, bl_num_blocks = 1,
        bl_free_items = of_nat (sz * unat d div 16)\<rparr>
      else None)"

definition stable_kill :: "nat \<Rightarrow> u8 \<Rightarrow> pcg_state \<times> u32 \<times> u8 list \<Rightarrow> (pcg_state \<times> u32 \<times> u8 list) option" where
  "stable_kill sz d s =
     (case s of (rng, killed, bs) \<Rightarrow>
        let (n, rng1) = np_rng_next rng; local_pos = cell_pos (mask_pos sz n) d
        in do {
          v \<leftarrow> rd bs local_pos;
          (if v > 0 then do { bs1 \<leftarrow> wr bs local_pos (drop_bit 1 v); Some (rng1, killed + 1, bs1) }
           else Some (rng1, killed, bs))
        })"

function freed_items :: "u32 \<Rightarrow> u16 \<Rightarrow> u16" where
  "freed_items killed free = (if killed > 0 then freed_items (drop_bit 3 killed) (free + 1) else free)"
  by pat_completeness auto
termination
proof (relation "measure (\<lambda>(killed, free). unat killed)")
  fix killed :: u32 and free :: u16
  assume "0 < killed"
  then have "0 < unat killed" by (simp add: word_less_nat_alt)
  then show "((drop_bit 3 killed, free + 1), (killed, free)) \<in> measure (\<lambda>(killed, free). unat killed)"
    by (simp add: unat_drop_bit_eq drop_bit_nat_def del: drop_bit_numeral_bit0 drop_bit_numeral_bit1)
qed simp

definition np_stable_bloom_add :: "np_bloom \<Rightarrow> np_dhkey \<Rightarrow> np_bloom option" where
  "np_stable_bloom_add bloom key =
     do {
       (rng, killed, bs) \<leftarrow> loop_w (1 :: u8) (unat (bl_p bloom) * unat (bl_d bloom))
         (\<lambda>_. stable_kill (bl_size bloom) (bl_d bloom)) 0 (bl_rng bloom, 0, bl_bitset bloom);
       let free = freed_items (drop_bit 3 killed) (bl_free_items bloom);
       bs1 \<leftarrow> for_each (\<lambda>w. modify (\<lambda>v. v OR mask (unat (bl_d bloom)))
         (cell_pos (mask_pos (bl_size bloom) w) (bl_d bloom))) (dhkey_t key) bs;
       Some (bloom\<lparr>bl_rng := rng, bl_bitset := bs1, bl_free_items := free - 1\<rparr>)
     }"

definition stable_test :: "np_bloom \<Rightarrow> np_dhkey \<Rightarrow> bool option" where
  "stable_test bloom key =
     for_each (\<lambda>w ret. do {
         v \<leftarrow> rd (bl_bitset bloom) (cell_pos (mask_pos (bl_size bloom) w) (bl_d bloom));
         Some (if v = 0 then False else ret)
       }) (dhkey_t key) True"

definition np_stable_bloom_check :: "np_bloom \<Rightarrow> np_dhkey \<Rightarrow> (bool \<times> np_bloom) option" where
  "np_stable_bloom_check bloom key =
     do {
       ret \<leftarrow> stable_test bloom key;
       bloom1 \<leftarrow> np_stable_bloom_add bloom key;
       Some (ret, bloom1)
     }"

section \<open>Scalable filter\<close>

definition np_scalable_bloom_create :: "nat \<Rightarrow> np_bloom" where
  "np_scalable_bloom_create sz =
     \<lparr>bl_type = scalable_bf, bl_size = sz, bl_d = 1, bl_p = 0, bl_rng = \<lparr>pcg_st = 0, pcg_inc = 0\<rparr>,
      bl_bitset = replicate (1 * (sz div 8 * 1)) 0, bl_num_blocks = 1, bl_free_items = of_nat (sz div 16)\<rparr>"

text \<open>The new block: \<^verbatim>\<open>realloc\<close> keeps what fits and appends \<open>junk\<close>, of which one block is zeroed.\<close>

definition scalable_grow :: "(nat \<Rightarrow> u8) \<Rightarrow> np_bloom \<Rightarrow> np_bloom option" where
  "scalable_grow junk bloom =
     (let block = bl_size bloom div 8 * unat (bl_d bloom);
          x = of_nat (block * unat (bl_num_blocks bloom)) :: u16;
          num_blocks = bl_num_blocks bloom + 1;
          n = block * unat num_blocks;
          old = bl_bitset bloom;
          bs = take n old @ map junk [length old..<n]
      in do {
        bs1 \<leftarrow> memset bs (unat x) 0 block;
        Some (bloom\<lparr>bl_num_blocks := num_blocks, bl_bitset := bs1,
          bl_free_items := bl_free_items bloom + of_nat (bl_size bloom div 16)\<rparr>)
      })"

definition block_offset :: "np_bloom \<Rightarrow> nat \<Rightarrow> nat" where
  "block_offset bloom j = unat (of_nat (j * bl_size bloom div 8 * unat (bl_d bloom)) :: u16)"

definition np_scalable_bloom_add :: "(nat \<Rightarrow> u8) \<Rightarrow> np_bloom \<Rightarrow> np_dhkey \<Rightarrow> np_bloom option" where
  "np_scalable_bloom_add junk bloom key =
     do {
       bloom1 \<leftarrow> (if bl_free_items bloom = 0 then scalable_grow junk bloom else Some bloom);
       bs \<leftarrow> set_key_bits (bl_size bloom1) (block_offset bloom1 (unat (bl_num_blocks bloom1) - 1)) key (bl_bitset bloom1);
       Some (bloom1\<lparr>bl_bitset := bs, bl_free_items := bl_free_items bloom1 - 1\<rparr>)
     }"

text \<open>The inner loop of the check has no early exit.\<close>

definition test_block :: "np_bloom \<Rightarrow> nat \<Rightarrow> np_dhkey \<Rightarrow> bool option" where
  "test_block bloom off key =
     for_each (\<lambda>w ret. do {
         pos \<leftarrow> bit_array_pos (bl_size bloom) w;
         v \<leftarrow> rd (bl_bitset bloom) (off + pos div 8);
         Some (if v AND bitmask pos = 0 then False else ret)
       }) (dhkey_t key) True"

fun check_blocks :: "np_bloom \<Rightarrow> np_dhkey \<Rightarrow> nat list \<Rightarrow> bool \<Rightarrow> bool option" where
  "check_blocks bloom key [] ret = Some ret"
| "check_blocks bloom key (j # js) ret =
     do {
       ret1 \<leftarrow> test_block bloom (block_offset bloom j) key;
       (if ret1 then Some True else check_blocks bloom key js ret1)
     }"

definition np_scalable_bloom_check :: "np_bloom \<Rightarrow> np_dhkey \<Rightarrow> bool option" where
  "np_scalable_bloom_check bloom key = check_blocks bloom key [0..<unat (bl_num_blocks bloom)] True"

section \<open>Decaying filter\<close>

text \<open>Cells of 8 or 16 bits; a 16 bit cell is read and written through a cast of the byte pointer.\<close>

definition rd16 :: "u8 list \<Rightarrow> nat \<Rightarrow> u16 option" where
  "rd16 bs i = do { lo \<leftarrow> rd bs i; hi \<leftarrow> rd bs (i + 1); Some (ucast lo OR push_bit 8 (ucast hi)) }"

definition wr16 :: "u8 list \<Rightarrow> nat \<Rightarrow> u16 \<Rightarrow> u8 list option" where
  "wr16 bs i v = do { bs1 \<leftarrow> wr bs i (ucast v); wr bs1 (i + 1) (ucast (drop_bit 8 v)) }"

definition rd_cell :: "u8 \<Rightarrow> u8 list \<Rightarrow> nat \<Rightarrow> u16 option" where
  "rd_cell d bs i = (if d = 8 then map_option ucast (rd bs i) else rd16 bs i)"

definition wr_cell :: "u8 \<Rightarrow> u8 list \<Rightarrow> nat \<Rightarrow> u16 \<Rightarrow> u8 list option" where
  "wr_cell d bs i v = (if d = 8 then wr bs i (ucast v) else wr16 bs i v)"

definition cell_byte :: "nat \<Rightarrow> u8 \<Rightarrow> nat" where
  "cell_byte pos d = unat ((of_nat pos * ucast d :: u32) div 8)"

definition np_decaying_bloom_create :: "nat \<Rightarrow> u8 \<Rightarrow> u8 \<Rightarrow> np_bloom" where
  "np_decaying_bloom_create sz d p =
     \<lparr>bl_type = decaying_bf, bl_size = sz, bl_d = d, bl_p = p, bl_rng = \<lparr>pcg_st = 0, pcg_inc = 0\<rparr>,
      bl_bitset = replicate (sz * (unat d div 8)) 0, bl_num_blocks = 1, bl_free_items = of_nat (sz * unat d div 16)\<rparr>"

text \<open>A shift by 32 or more is undefined for the promoted operand.\<close>

definition decay_cell :: "u8 \<Rightarrow> u8 \<Rightarrow> nat \<Rightarrow> u32 \<times> u8 list \<Rightarrow> (u32 \<times> u8 list) option" where
  "decay_cell d p k s =
     (case s of (zero_bits, bs) \<Rightarrow>
        if d = 8 \<or> d = 16
        then do {
          let i = k * unat d div 8;
          v \<leftarrow> rd_cell d bs i;
          (bs1, v1) \<leftarrow> (if v > 0
             then (if unat p < 32 then do { bs1 \<leftarrow> wr_cell d bs i (drop_bit (unat p) v); Some (bs1, drop_bit (unat p) v) }
                   else None)
             else Some (bs, v));
          Some (if v1 = 0 then zero_bits + 1 else zero_bits, bs1)
        }
        else Some s)"

definition np_decaying_bloom_decay :: "np_bloom \<Rightarrow> np_bloom option" where
  "np_decaying_bloom_decay bloom =
     do {
       (zero_bits, bs) \<leftarrow> loop_w (1 :: u16) (bl_size bloom) (decay_cell (bl_d bloom) (bl_p bloom)) 0 (0, bl_bitset bloom);
       Some (bloom\<lparr>bl_bitset := bs, bl_free_items := ucast (zero_bits * ucast (bl_d bloom) div 16)\<rparr>)
     }"

definition np_decaying_bloom_add :: "np_bloom \<Rightarrow> np_dhkey \<Rightarrow> np_bloom option" where
  "np_decaying_bloom_add bloom key =
     (if bl_free_items bloom = 0 then None
      else do {
        bs \<leftarrow> for_each (\<lambda>w bs. do {
            pos \<leftarrow> bit_array_pos (bl_size bloom) w;
            let i = cell_byte pos (bl_d bloom);
            (if bl_d bloom = 8 \<or> bl_d bloom = 16
             then do { v \<leftarrow> rd_cell (bl_d bloom) bs i; wr_cell (bl_d bloom) bs i (v OR push_bit (unat (bl_d bloom) - 1) 1) }
             else Some bs)
          }) (dhkey_t key) (bl_bitset bloom);
        Some (bloom\<lparr>bl_bitset := bs, bl_free_items := bl_free_items bloom - 1\<rparr>)
      })"

fun decaying_test :: "np_bloom \<Rightarrow> u32 list \<Rightarrow> bool option" where
  "decaying_test bloom [] = Some True"
| "decaying_test bloom (w # ws) =
     do {
       pos \<leftarrow> bit_array_pos (bl_size bloom) w;
       let i = cell_byte pos (bl_d bloom);
       ret \<leftarrow> (if bl_d bloom = 8 \<or> bl_d bloom = 16
               then do { v \<leftarrow> rd_cell (bl_d bloom) (bl_bitset bloom) i; Some (v \<noteq> 0) }
               else Some True);
       (if ret then decaying_test bloom ws else Some False)
     }"

definition np_decaying_bloom_check :: "np_bloom \<Rightarrow> np_dhkey \<Rightarrow> bool option" where
  "np_decaying_bloom_check bloom key = decaying_test bloom (dhkey_t key)"

function bit_len :: "u16 \<Rightarrow> nat \<Rightarrow> nat" where
  "bit_len v n = (if drop_bit n v > 0 then bit_len v (n + 1) else n)"
  by pat_completeness auto
termination
  by (relation "measure (\<lambda>(v, n). 16 - n)")
     (auto simp: word_neq_0_conv [symmetric] bit_eq_iff bit_simps dest: bit_imp_le_length)

fun heuristic_loop :: "np_bloom \<Rightarrow> u32 list \<Rightarrow> real \<Rightarrow> real option" where
  "heuristic_loop bloom [] ret = Some ret"
| "heuristic_loop bloom (w # ws) ret =
     do {
       pos \<leftarrow> bit_array_pos (bl_size bloom) w;
       let i = cell_byte pos (bl_d bloom);
       (if bl_d bloom = 8 \<or> bl_d bloom = 16
        then do {
          v \<leftarrow> rd_cell (bl_d bloom) (bl_bitset bloom) i;
          (if v = 0 then Some 0
           else let x = real (bit_len v 1) / real (unat (bl_d bloom))
                in heuristic_loop bloom ws (if ret > x then ret else x))
        }
        else heuristic_loop bloom ws ret)
     }"

definition np_decaying_bloom_get_heuristic :: "np_bloom \<Rightarrow> np_dhkey \<Rightarrow> real option" where
  "np_decaying_bloom_get_heuristic bloom key = heuristic_loop bloom (dhkey_t key) 0"

section \<open>Counting filter\<close>

definition np_counting_bloom_create :: "nat \<Rightarrow> u8 \<Rightarrow> u8 \<Rightarrow> np_bloom" where
  "np_counting_bloom_create sz d p =
     \<lparr>bl_type = counting_bf, bl_size = sz, bl_d = d, bl_p = p, bl_rng = \<lparr>pcg_st = 0, pcg_inc = 0\<rparr>,
      bl_bitset = replicate (sz * (unat d div 8)) 0, bl_num_blocks = 1, bl_free_items = of_nat (sz * unat d div 16)\<rparr>"

definition np_counting_bloom_clear :: "np_bloom \<Rightarrow> np_bloom option" where
  "np_counting_bloom_clear res =
     do {
       bs \<leftarrow> memset (bl_bitset res) 0 0 (unat (bl_num_blocks res) * bl_size res * unat (bl_d res) div 8);
       Some (res\<lparr>bl_bitset := bs, bl_free_items := of_nat (bl_size res * unat (bl_d res) div 16)\<rparr>)
     }"

definition np_counting_bloom_clear_r :: "np_bloom \<Rightarrow> u32 \<Rightarrow> (np_bloom \<times> u32) option" where
  "np_counting_bloom_clear_r res item_count0 =
     do {
       (zeroed_blocks, item_count, bs) \<leftarrow> for_each (\<lambda>k (zeroed_blocks :: u32, item_count :: u32, bs). do {
           v \<leftarrow> rd bs k;
           (if unat (bl_p res) < 32
            then do {
              bs1 \<leftarrow> wr bs k (drop_bit (unat (bl_p res)) v);
              let v1 = ucast (drop_bit (unat (bl_p res)) v);
              Some (if v = 1 then zeroed_blocks + 1 else zeroed_blocks, if v1 > item_count then v1 else item_count, bs1)
            }
            else None)
         }) [0..<unat (bl_num_blocks res) * bl_size res * unat (bl_d res) div 8] (1, item_count0, bl_bitset res);
       let free = (ucast (ucast (bl_free_items res) + push_bit (unat (bl_p res)) (item_count * zeroed_blocks) :: u32) :: u16);
       let limit = bl_size res * unat (bl_d res) div 16;
       Some (res\<lparr>bl_bitset := bs, bl_free_items := (if unat free > limit then of_nat limit else free)\<rparr>, item_count)
     }"

definition counting_loop :: "(u8 \<Rightarrow> u8) \<Rightarrow> np_bloom \<Rightarrow> np_dhkey \<Rightarrow> u8 list option" where
  "counting_loop f bloom key =
     for_each (\<lambda>w bs. do {
         pos \<leftarrow> bit_array_pos (bl_size bloom) w;
         modify f (cell_pos pos (bl_d bloom)) bs
       }) (dhkey_t key) (bl_bitset bloom)"

definition np_counting_bloom_add :: "np_bloom \<Rightarrow> np_dhkey \<Rightarrow> np_bloom option" where
  "np_counting_bloom_add bloom key =
     (if bl_free_items bloom = 0 then None
      else do {
        bs \<leftarrow> counting_loop (\<lambda>v. v + 1) bloom key;
        Some (bloom\<lparr>bl_bitset := bs, bl_free_items := bl_free_items bloom - 1\<rparr>)
      })"

definition np_counting_bloom_remove :: "np_bloom \<Rightarrow> np_dhkey \<Rightarrow> np_bloom option" where
  "np_counting_bloom_remove bloom key =
     (if bl_free_items bloom = 0 then None
      else do {
        bs \<leftarrow> counting_loop (\<lambda>v. v - 1) bloom key;
        Some (bloom\<lparr>bl_bitset := bs, bl_free_items := bl_free_items bloom + 1\<rparr>)
      })"

definition np_counting_bloom_check :: "np_bloom \<Rightarrow> np_dhkey \<Rightarrow> bool option" where
  "np_counting_bloom_check bloom key =
     for_each (\<lambda>w ret. do {
         pos \<leftarrow> bit_array_pos (bl_size bloom) w;
         v \<leftarrow> rd (bl_bitset bloom) (cell_pos pos (bl_d bloom));
         Some (if v = 0 \<or> v = 255 then False else ret)
       }) (dhkey_t key) True"

fun check_r_loop :: "np_bloom \<Rightarrow> u32 list \<Rightarrow> u32 \<Rightarrow> u32 option" where
  "check_r_loop bloom [] count0 = Some count0"
| "check_r_loop bloom (w # ws) count0 =
     do {
       v \<leftarrow> rd (bl_bitset bloom) (cell_pos (mask_pos (bl_size bloom) w) (bl_d bloom));
       (if v = 0 \<or> v = 255 then Some count0
        else check_r_loop bloom ws (if ucast v > count0 then ucast v else count0))
     }"

definition np_counting_bloom_check_r :: "np_bloom \<Rightarrow> np_dhkey \<Rightarrow> u32 \<Rightarrow> u32 option" where
  "np_counting_bloom_check_r bloom key count0 = check_r_loop bloom (dhkey_t key) count0"

definition np_counting_bloom_containment :: "np_bloom \<Rightarrow> np_bloom \<Rightarrow> real option" where
  "np_counting_bloom_containment first second =
     do {
       (union_count, intersection_count) \<leftarrow> for_each (\<lambda>k (u :: u16, i :: u16). do {
           f \<leftarrow> rd (bl_bitset first) k;
           (if f > 0
            then do {
              s \<leftarrow> rd (bl_bitset second) k;
              Some (u + 1, if s > 0 \<and> f = s then i + 1 else i)
            }
            else Some (u, i))
         }) [0..<unat (bl_num_blocks first) * bl_size first * unat (bl_d first) div 8] (0, 0);
       Some (if union_count > 0 then real (unat intersection_count) / real (unat union_count) else 0)
     }"

end
