(* ===== verification/Np_Bloom_Bits.thy ===== *)
theory Np_Bloom_Bits
  imports Np_Bloom
begin

text \<open>
  The contract of a bloom filter as an interface (\<open>bloom_filter\<close>), and the filters of
  \<^verbatim>\<open>src/util/np_bloom.c\<close> whose cells are single bits: the standard filter, which is shown to implement a
  set of bit positions, and the scalable filter.
\<close>

section \<open>The contract\<close>

text \<open>
  As long as a filter has capacity left an element can be added; it is found afterwards, and so is
  everything that was found before.
\<close>

locale bloom_filter =
  fixes inv :: "'f \<Rightarrow> bool" and add :: "'f \<Rightarrow> 'k \<Rightarrow> 'f option" and check :: "'f \<Rightarrow> 'k \<Rightarrow> bool option" and cap :: "'f \<Rightarrow> nat"
  assumes add_ok: "inv f \<Longrightarrow> 0 < cap f \<Longrightarrow>
    \<exists>f'. add f k = Some f' \<and> inv f' \<and> cap f \<le> Suc (cap f') \<and> check f' k = Some True
      \<and> (\<forall>j. check f j = Some True \<longrightarrow> check f' j = Some True)"
begin

lemma add_all:
  assumes "inv f" "length ks \<le> cap f"
  shows "\<exists>f'. for_each (\<lambda>k f. add f k) ks f = Some f' \<and> inv f' \<and> cap f \<le> cap f' + length ks
    \<and> (\<forall>k \<in> set ks. check f' k = Some True) \<and> (\<forall>j. check f j = Some True \<longrightarrow> check f' j = Some True)"
  using assms
proof (induction ks arbitrary: f)
  case (Cons k ks)
  obtain f1 where f1: "add f k = Some f1" "inv f1" "cap f \<le> Suc (cap f1)" "check f1 k = Some True"
      "\<forall>j. check f j = Some True \<longrightarrow> check f1 j = Some True"
    using add_ok [of f k] Cons.prems by auto
  with Cons.IH [of f1] Cons.prems(2) show ?case by fastforce
qed simp

end

section \<open>Bits\<close>

definition bits_of :: "u8 list \<Rightarrow> nat set" where
  "bits_of bs = {i. i < 8 * length bs \<and> bit (bs ! (i div 8)) (7 - i mod 8)}"

definition key_bits :: "nat \<Rightarrow> np_dhkey \<Rightarrow> nat set" where
  "key_bits sz key = (\<lambda>w. unat w mod sz) ` set (dhkey_t key)"

lemma bit_bitmask: "bit (bitmask pos) n \<longleftrightarrow> n = 7 - pos mod 8"
proof -
  have p: "pos mod 8 < 8" by simp
  have "bit (0x80 :: u8) m \<longleftrightarrow> m = 7" for m
  proof -
    have "(0x80 :: u8) = 2 ^ 7" by simp
    then show ?thesis by (simp only: bit_exp_iff) auto
  qed
  then have "bit (bitmask pos) n \<longleftrightarrow> pos mod 8 + n = 7" by (simp only: bitmask_def bit_drop_bit_eq comp_apply)
  then show ?thesis using p by auto
qed

lemma and_bitmask_zero: "v AND bitmask pos = 0 \<longleftrightarrow> \<not> bit v (7 - pos mod 8)"
  unfolding bit_eq_iff [of "v AND bitmask pos" 0] by (auto simp: bit_and_iff bit_bitmask dest: spec [of _ "7 - pos mod 8"])

lemma bits_of_update:
  assumes "i < length bs"
  shows "bits_of (bs[i := v]) = {j \<in> bits_of bs. j div 8 \<noteq> i} \<union> {j. j div 8 = i \<and> bit v (7 - j mod 8)}"
proof -
  have "j < 8 * length bs" if "j div 8 = i" for j using assms that by auto
  then show ?thesis by (auto simp: bits_of_def nth_list_update [OF assms])
qed

lemma bits_of_set:
  assumes "off + pos div 8 < length bs"
  shows "bits_of (bs[off + pos div 8 := bs ! (off + pos div 8) OR bitmask pos]) = insert (8 * off + pos) (bits_of bs)"
proof -
  let ?i = "off + pos div 8"
  have lt: "j < 8 * length bs" if "j div 8 = ?i" for j using assms that by auto
  have pos: "(8 * off + pos) div 8 = ?i" "(8 * off + pos) mod 8 = pos mod 8" by simp_all
  have "j = 8 * off + pos \<longleftrightarrow> j div 8 = ?i \<and> 7 - j mod 8 = 7 - pos mod 8" for j
  proof
    assume "j div 8 = ?i \<and> 7 - j mod 8 = 7 - pos mod 8"
    then have "j div 8 = (8 * off + pos) div 8" "j mod 8 = (8 * off + pos) mod 8" unfolding pos
      using mod_less_divisor [of 8 j] mod_less_divisor [of 8 pos] by linarith+
    then show "j = 8 * off + pos" by (metis div_mult_mod_eq)
  qed (use pos in auto)
  moreover have "bits_of (bs[?i := bs ! ?i OR bitmask pos])
      = {j \<in> bits_of bs. j div 8 \<noteq> ?i} \<union> {j. j div 8 = ?i \<and> (bit (bs ! ?i) (7 - j mod 8) \<or> 7 - j mod 8 = 7 - pos mod 8)}"
    unfolding bits_of_update [OF assms] by (simp add: bit_or_iff bit_bitmask)
  ultimately show ?thesis using lt by (auto simp: bits_of_def)
qed

lemma set_key_bits_spec:
  assumes "0 < sz" "8 * off + sz \<le> 8 * length bs"
  shows "\<exists>bs'. set_key_bits sz off key bs = Some bs' \<and> length bs' = length bs
    \<and> bits_of bs' = bits_of bs \<union> (+) (8 * off) ` key_bits sz key"
proof -
  have step: "\<exists>bs'. for_each (\<lambda>w bs. do { pos \<leftarrow> bit_array_pos sz w; modify (\<lambda>v. v OR bitmask pos) (off + pos div 8) bs }) ws bs
      = Some bs' \<and> length bs' = length bs \<and> bits_of bs' = bits_of bs \<union> (\<lambda>w. 8 * off + unat w mod sz) ` set ws"
    if "8 * off + sz \<le> 8 * length bs" for ws bs
    using that
  proof (induction ws arbitrary: bs)
    case (Cons w ws)
    let ?p = "unat w mod sz"
    have "?p < sz" using assms(1) by simp
    then have "off + ?p div 8 < length bs" using Cons.prems by linarith
    then show ?case using assms(1) Cons.IH [of "bs[off + ?p div 8 := bs ! (off + ?p div 8) OR bitmask ?p]"] Cons.prems
      by (auto simp: bit_array_pos_def bits_of_set)
  qed simp
  show ?thesis using step [OF assms(2), of "dhkey_t key"] by (simp add: set_key_bits_def key_bits_def image_image)
qed

lemma test_bit:
  assumes "8 * off + pos < 8 * length bs"
  shows "bs ! (off + pos div 8) AND bitmask pos = 0 \<longleftrightarrow> 8 * off + pos \<notin> bits_of bs"
  using assms by (auto simp: bits_of_def and_bitmask_zero)

lemma test_key_bits_spec:
  assumes "0 < sz" "8 * off + sz \<le> 8 * length bs"
  shows "test_key_bits sz off ws bs = Some ((\<lambda>w. 8 * off + unat w mod sz) ` set ws \<subseteq> bits_of bs)"
proof (induction ws)
  case (Cons w ws)
  have "unat w mod sz < sz" using assms(1) by simp
  then have "off + unat w mod sz div 8 < length bs" "8 * off + unat w mod sz < 8 * length bs" using assms(2) by linarith+
  then show ?case using Cons assms(1) by (auto simp: bit_array_pos_def test_bit)
qed simp

section \<open>Standard filter\<close>

definition std_ok :: "np_bloom \<Rightarrow> bool" where
  "std_ok f \<longleftrightarrow> bl_type f = standard_bf \<and> 0 < bl_size f \<and> 8 dvd bl_size f \<and> bl_size f < 2 ^ 19
     \<and> bl_d f = 1 \<and> bl_num_blocks f = 1 \<and> length (bl_bitset f) = bl_size f div 8"

definition bloom_set :: "np_bloom \<Rightarrow> nat set" where
  "bloom_set f = bits_of (bl_bitset f)"

lemma std_okD:
  assumes "std_ok f"
  shows "0 < bl_size f" "8 * length (bl_bitset f) = bl_size f" "length (bl_bitset f) < 65536"
    "bl_size f div 8 * unat (bl_d f) = length (bl_bitset f)"
  using assms by (auto simp: std_ok_def)

lemma standard_check_spec:
  "std_ok f \<Longrightarrow> np_standard_bloom_check f key = Some (key_bits (bl_size f) key \<subseteq> bloom_set f)"
  using test_key_bits_spec [of "bl_size f" 0 "bl_bitset f" "dhkey_t key"]
  by (simp add: std_okD np_standard_bloom_check_def bloom_set_def key_bits_def)

lemma standard_add_spec:
  assumes "std_ok f" "bl_free_items f \<noteq> 0"
  shows "\<exists>f'. np_standard_bloom_add f key = Some f' \<and> std_ok f' \<and> bl_size f' = bl_size f
    \<and> bloom_set f' = bloom_set f \<union> key_bits (bl_size f) key \<and> bl_free_items f' = bl_free_items f - 1"
proof -
  obtain bs where "set_key_bits (bl_size f) 0 key (bl_bitset f) = Some bs" "length bs = length (bl_bitset f)"
      "bits_of bs = bits_of (bl_bitset f) \<union> key_bits (bl_size f) key"
    using set_key_bits_spec [of "bl_size f" 0 "bl_bitset f" key] std_okD [OF assms(1)] by auto
  then show ?thesis using assms by (simp add: np_standard_bloom_add_def std_ok_def bloom_set_def)
qed

lemma bits_of_pointwise:
  assumes "length bs = n" "length cs = n"
  shows "bits_of (map (\<lambda>i. bs ! i OR cs ! i) [0..<n]) = bits_of bs \<union> bits_of cs"
    "bits_of (map (\<lambda>i. bs ! i AND cs ! i) [0..<n]) = bits_of bs \<inter> bits_of cs"
proof -
  have "i div 8 < n" if "i < 8 * n" for i using that by auto
  then show "bits_of (map (\<lambda>i. bs ! i OR cs ! i) [0..<n]) = bits_of bs \<union> bits_of cs"
    "bits_of (map (\<lambda>i. bs ! i AND cs ! i) [0..<n]) = bits_of bs \<inter> bits_of cs"
    using assms by (auto simp: bits_of_def bit_or_iff bit_and_iff)
qed

lemma standard_union_spec:
  assumes "std_ok f" "std_ok g" "bl_size f = bl_size g"
    "bl_size f div 16 \<le> unat (bl_free_items g) + unat (bl_free_items f)"
  shows "\<exists>f'. np_standard_bloom_union f g = Some f' \<and> std_ok f' \<and> bloom_set f' = bloom_set f \<union> bloom_set g
    \<and> unat (bl_free_items f') \<le> unat (bl_free_items g) + unat (bl_free_items f) - bl_size f div 16"
proof -
  let ?n = "length (bl_bitset f)"
  have n: "length (bl_bitset g) = ?n" "?n < 65536" using std_okD [OF assms(1)] std_okD [OF assms(2)] assms(3) by simp_all
  have "for_each (\<lambda>k bs. do { v \<leftarrow> rd (bl_bitset g) k; modify (\<lambda>u. u OR v) k bs }) [0..<?n] (bl_bitset f)
      = Some (map (\<lambda>i. bl_bitset f ! i OR bl_bitset g ! i) [0..<?n])"
    using for_each_pointwise [of ?n "bl_bitset f" _ "\<lambda>i. bl_bitset f ! i OR bl_bitset g ! i"] n by simp
  moreover have "same_kind g f" "bl_type g = standard_bf" using assms by (simp_all add: same_kind_def std_ok_def)
  moreover have "unat (bl_free_items f + (bl_free_items g - of_nat (bl_size f div 16)))
      \<le> unat (bl_free_items g) + unat (bl_free_items f) - bl_size f div 16"
  proof -
    have "bl_free_items f + (bl_free_items g - of_nat (bl_size f div 16))
        = of_nat (unat (bl_free_items g) + unat (bl_free_items f) - bl_size f div 16)"
      using assms(4) by (simp add: of_nat_diff)
    then show ?thesis by (metis unat_of_nat mod_less_eq_dividend take_bit_eq_mod)
  qed
  ultimately show ?thesis
    using assms n std_okD(4) [OF assms(1)]
    by (simp add: np_standard_bloom_union_def u16_loop_1 bloom_set_def bits_of_pointwise std_ok_def)
qed

lemma intersect_loop:
  fixes bs cs :: "u8 list"
  assumes "n \<le> length bs" "n \<le> length cs"
  shows "for_each (\<lambda>k (i :: u16, bs). do { f \<leftarrow> rd cs k; bs1 \<leftarrow> modify (\<lambda>v. v AND f) k bs; v1 \<leftarrow> rd bs1 k;
        Some (if v1 > 0 then i + 1 else i, bs1) }) [0..<n] (0, bs)
    = Some (of_nat (length (filter (\<lambda>k. bs ! k AND cs ! k \<noteq> 0) [0..<n])), map (\<lambda>k. bs ! k AND cs ! k) [0..<n] @ drop n bs)"
  using assms
proof (induction n)
  case (Suc n)
  let ?ys = "map (\<lambda>k. bs ! k AND cs ! k) [0..<n] @ drop n bs"
  have n: "n < length bs" using Suc.prems(1) by simp
  have "?ys ! n = bs ! n" "length ?ys = length bs" using n by (simp_all add: nth_append)
  moreover have "?ys[n := bs ! n AND cs ! n] = map (\<lambda>k. bs ! k AND cs ! k) [0..<Suc n] @ drop (Suc n) bs"
    using n Cons_nth_drop_Suc [OF n] by (simp add: list_update_append) (metis list_update_code(2))
  moreover have "(map (\<lambda>k. bs ! k AND cs ! k) ([0..<n] @ [n]) @ drop (Suc n) bs) ! n = bs ! n AND cs ! n"
    by (simp add: nth_append)
  moreover have "0 < v \<longleftrightarrow> v \<noteq> 0" for v :: u8 using word_greater_zero_iff by blast
  ultimately show ?case using Suc n by (simp add: for_each_append del: map_append)
qed simp

lemma standard_intersect_spec:
  assumes "std_ok f" "std_ok g" "bl_size f = bl_size g"
  shows "\<exists>b f'. np_standard_bloom_intersect f g = Some (b, f') \<and> std_ok f' \<and> bloom_set f' = bloom_set f \<inter> bloom_set g
    \<and> b = (bloom_set f' \<noteq> {}) \<and> bl_free_items f' = 0"
proof -
  let ?n = "length (bl_bitset f)" and ?A = "\<lambda>k. bl_bitset f ! k AND bl_bitset g ! k"
  have n: "length (bl_bitset g) = ?n" "?n < 65536" using std_okD [OF assms(1)] std_okD [OF assms(2)] assms(3) by simp_all
  define c where "c = length (filter (\<lambda>k. ?A k \<noteq> 0) [0..<?n])"
  have "c \<le> length [0..<?n]" unfolding c_def by (rule length_filter_le)
  then have "c < 65536" using n(2) unfolding length_upt by linarith
  then have pos: "(0 :: u16) < of_nat c \<longleftrightarrow> 0 < c" by (simp add: word_less_nat_alt unat_of_nat_fit)
  have "0 < c \<longleftrightarrow> (\<exists>k < ?n. ?A k \<noteq> 0)" by (auto simp: c_def filter_empty_conv)
  also have "\<dots> \<longleftrightarrow> bits_of (map ?A [0..<?n]) \<noteq> {}"
  proof
    assume "\<exists>k < ?n. ?A k \<noteq> 0"
    then obtain k m where k: "k < ?n" "bit (?A k) m" by (auto simp: bit_eq_iff [of _ "0 :: u8"])
    then have "m < 8" using bit_imp_le_length by fastforce
    then obtain l where l: "l < 8" "m = 7 - l" by (intro that [of "7 - m"]) auto
    then have "8 * k + l \<in> bits_of (map ?A [0..<?n])" using k by (simp add: bits_of_def)
    then show "bits_of (map ?A [0..<?n]) \<noteq> {}" by blast
  next
    assume "bits_of (map ?A [0..<?n]) \<noteq> {}"
    then obtain i where i: "i < 8 * ?n" "bit (map ?A [0..<?n] ! (i div 8)) (7 - i mod 8)" by (auto simp: bits_of_def)
    then have k: "i div 8 < ?n" by auto
    have "bit (?A (i div 8)) (7 - i mod 8)" using i(2) k by simp
    then have "?A (i div 8) \<noteq> 0" by (metis bit_0_eq bot_apply bot_bool_def)
    then show "\<exists>k < ?n. ?A k \<noteq> 0" using k by blast
  qed
  finally have ret: "(0 :: u16) < of_nat c \<longleftrightarrow> bloom_set f \<inter> bloom_set g \<noteq> {}"
    using pos bits_of_pointwise(2) [OF refl n(1)] by (simp add: bloom_set_def)
  have "same_kind g f" "bl_type g = standard_bf" using assms by (simp_all add: same_kind_def std_ok_def)
  then show ?thesis
    using assms n std_okD(4) [OF assms(1)] intersect_loop [of ?n "bl_bitset f" "bl_bitset g", folded c_def] ret
    by (simp add: np_standard_bloom_intersect_def u16_loop_1 bloom_set_def bits_of_pointwise std_ok_def)
qed

lemma bits_of_zero [simp]: "bits_of (replicate n 0) = {}"
  by (auto simp: bits_of_def)

lemma standard_create_ok:
  assumes "0 < sz" "8 dvd sz" "sz < 2 ^ 19"
  shows "std_ok (np_standard_bloom_create sz)" "bloom_set (np_standard_bloom_create sz) = {}"
    "unat (bl_free_items (np_standard_bloom_create sz)) = sz div 16"
  using assms by (auto simp: np_standard_bloom_create_def std_ok_def bloom_set_def unat_of_nat_fit)

lemma standard_clear_spec:
  assumes "std_ok f"
  shows "\<exists>f'. np_standard_bloom_clear f = Some f' \<and> std_ok f' \<and> bloom_set f' = {}"
  using assms by (auto simp: np_standard_bloom_clear_def memset_def std_ok_def bloom_set_def)

interpretation std: bloom_filter std_ok np_standard_bloom_add np_standard_bloom_check "\<lambda>f. unat (bl_free_items f)"
proof
  fix f key
  assume f: "std_ok f" "0 < unat (bl_free_items f)"
  then have nz: "bl_free_items f \<noteq> 0" by auto
  from standard_add_spec [OF f(1) nz, of key] obtain f' where
    f': "np_standard_bloom_add f key = Some f'" "std_ok f'" "bl_size f' = bl_size f"
      "bloom_set f' = bloom_set f \<union> key_bits (bl_size f) key" "bl_free_items f' = bl_free_items f - 1" by blast
  moreover have "unat (bl_free_items f) \<le> Suc (unat (bl_free_items f'))" using f'(5) nz by (simp add: unat_minus_one)
  ultimately show "\<exists>f'. np_standard_bloom_add f key = Some f' \<and> std_ok f' \<and> unat (bl_free_items f) \<le> Suc (unat (bl_free_items f'))
      \<and> np_standard_bloom_check f' key = Some True
      \<and> (\<forall>j. np_standard_bloom_check f j = Some True \<longrightarrow> np_standard_bloom_check f' j = Some True)"
    using f(1) by (auto simp: standard_check_spec)
qed

section \<open>Scalable filter\<close>

definition scal_max :: "np_bloom \<Rightarrow> nat" where
  "scal_max f = min 255 (65535 div (bl_size f div 8))"

definition scal_ok :: "np_bloom \<Rightarrow> bool" where
  "scal_ok f \<longleftrightarrow> 16 \<le> bl_size f \<and> 8 dvd bl_size f \<and> bl_size f < 2 ^ 19 \<and> bl_d f = 1
     \<and> 1 \<le> unat (bl_num_blocks f) \<and> unat (bl_num_blocks f) \<le> scal_max f
     \<and> length (bl_bitset f) = bl_size f div 8 * unat (bl_num_blocks f)"

definition scal_cap :: "np_bloom \<Rightarrow> nat" where
  "scal_cap f = unat (bl_free_items f) + bl_size f div 16 * (scal_max f - unat (bl_num_blocks f))"

lemma scal_max_mult: "n \<le> scal_max f \<Longrightarrow> bl_size f div 8 * n \<le> 65535"
proof -
  assume "n \<le> scal_max f"
  then have "bl_size f div 8 * n \<le> bl_size f div 8 * (65535 div (bl_size f div 8))" by (simp add: scal_max_def)
  also have "\<dots> \<le> 65535" by simp
  finally show ?thesis .
qed

lemma block_offset_eq:
  assumes "scal_ok f" "j < unat (bl_num_blocks f)"
  shows "block_offset f j = bl_size f div 8 * j" "8 * (bl_size f div 8 * j) + bl_size f \<le> 8 * length (bl_bitset f)"
proof -
  have sz: "bl_size f = 8 * (bl_size f div 8)" using assms(1) by (simp add: scal_ok_def)
  have "bl_size f div 8 * j \<le> bl_size f div 8 * unat (bl_num_blocks f)" using assms(2) by simp
  also have "\<dots> \<le> 65535" using assms(1) by (intro scal_max_mult) (simp add: scal_ok_def)
  finally have "bl_size f div 8 * j < 65536" by simp
  moreover have "j * bl_size f div 8 = bl_size f div 8 * j" by (subst (1 2) sz) simp
  ultimately show "block_offset f j = bl_size f div 8 * j"
    using assms(1) by (simp add: block_offset_def scal_ok_def unat_of_nat_fit del: of_nat_mult)
  have "bl_size f div 8 * Suc j \<le> bl_size f div 8 * unat (bl_num_blocks f)" using assms(2) by (intro mult_le_mono2) simp
  then have "bl_size f div 8 + bl_size f div 8 * j \<le> length (bl_bitset f)" using assms(1) by (simp add: scal_ok_def)
  then show "8 * (bl_size f div 8 * j) + bl_size f \<le> 8 * length (bl_bitset f)" using sz by linarith
qed

lemma test_block_spec:
  assumes "0 < bl_size f" "8 * off + bl_size f \<le> 8 * length (bl_bitset f)"
  shows "test_block f off key = Some ((+) (8 * off) ` key_bits (bl_size f) key \<subseteq> bits_of (bl_bitset f))"
proof -
  have "for_each (\<lambda>w ret. do { pos \<leftarrow> bit_array_pos (bl_size f) w; v \<leftarrow> rd (bl_bitset f) (off + pos div 8);
      Some (if v AND bitmask pos = 0 then False else ret) }) ws ret
    = Some (ret \<and> (\<lambda>w. 8 * off + unat w mod bl_size f) ` set ws \<subseteq> bits_of (bl_bitset f))" for ws ret
  proof (induction ws arbitrary: ret)
    case (Cons w ws)
    have "unat w mod bl_size f < bl_size f" using assms(1) by simp
    then have "off + unat w mod bl_size f div 8 < length (bl_bitset f)" "8 * off + unat w mod bl_size f < 8 * length (bl_bitset f)"
      using assms(2) by linarith+
    then show ?case using Cons assms(1) by (auto simp: bit_array_pos_def test_bit)
  qed simp
  then show ?thesis by (simp add: test_block_def key_bits_def image_image)
qed

definition block_has :: "np_bloom \<Rightarrow> np_dhkey \<Rightarrow> nat \<Rightarrow> bool" where
  "block_has f key j \<longleftrightarrow> (+) (8 * (bl_size f div 8 * j)) ` key_bits (bl_size f) key \<subseteq> bits_of (bl_bitset f)"

lemma scalable_check_spec:
  assumes "scal_ok f"
  shows "np_scalable_bloom_check f key = Some (\<exists>j < unat (bl_num_blocks f). block_has f key j)"
proof -
  have "check_blocks f key js ret = Some (if js = [] then ret else \<exists>j \<in> set js. block_has f key j)"
    if "\<forall>j \<in> set js. j < unat (bl_num_blocks f)" for js ret
    using that
  proof (induction js arbitrary: ret)
    case (Cons j js)
    have "0 < bl_size f" using assms by (simp add: scal_ok_def)
    then have "test_block f (block_offset f j) key = Some (block_has f key j)"
      using Cons.prems block_offset_eq [OF assms, of j] by (simp add: test_block_spec block_has_def)
    then show ?case using Cons by auto
  qed simp
  from this [of "[0..<unat (bl_num_blocks f)]" True] assms show ?thesis
    by (auto simp: np_scalable_bloom_check_def scal_ok_def Bex_def)
qed

lemma bits_of_append_zero: "bits_of (bs @ replicate n 0) = bits_of bs"
proof (rule set_eqI)
  fix i
  show "i \<in> bits_of (bs @ replicate n 0) \<longleftrightarrow> i \<in> bits_of bs"
  proof (cases "i < 8 * length bs")
    case True
    then have "i div 8 < length bs" by auto
    then show ?thesis using True by (simp add: bits_of_def nth_append)
  next
    case False
    then have "\<not> i div 8 < length bs" "i < 8 * (length bs + n) \<Longrightarrow> i div 8 - length bs < n" by auto
    then show ?thesis using False by (auto simp: bits_of_def nth_append)
  qed
qed

lemma scalable_grow_spec:
  assumes "scal_ok f" "unat (bl_num_blocks f) < scal_max f" "bl_free_items f = 0"
  shows "\<exists>f'. scalable_grow junk f = Some f' \<and> scal_ok f' \<and> bl_size f' = bl_size f
    \<and> bits_of (bl_bitset f') = bits_of (bl_bitset f) \<and> unat (bl_num_blocks f') = Suc (unat (bl_num_blocks f))
    \<and> unat (bl_free_items f') = bl_size f div 16"
proof -
  let ?b = "bl_size f div 8" and ?m = "unat (bl_num_blocks f)"
  have len: "length (bl_bitset f) = ?b * ?m" and d: "bl_d f = 1" using assms(1) by (simp_all add: scal_ok_def)
  have "?m < 255" using assms(2) by (simp add: scal_max_def)
  then have m: "unat (bl_num_blocks f + 1) = Suc ?m" by (simp add: unat_add_lem [THEN iffD1])
  have "?b * ?m \<le> 65535" using assms(2) by (intro scal_max_mult) simp
  then have x: "unat (of_nat (?b * ?m) :: u16) = ?b * ?m" by (intro unat_of_nat_fit) simp
  have "memset (bl_bitset f @ map junk [?b * ?m..<?b * Suc ?m]) (?b * ?m) 0 ?b = Some (bl_bitset f @ replicate ?b 0)"
    by (simp add: memset_def len)
  moreover have "take (?b * Suc ?m) (bl_bitset f) = bl_bitset f" by (simp add: len)
  ultimately have "scalable_grow junk f = Some (f\<lparr>bl_num_blocks := bl_num_blocks f + 1, bl_bitset := bl_bitset f @ replicate ?b 0,
      bl_free_items := of_nat (bl_size f div 16)\<rparr>)"
    by (simp add: scalable_grow_def Let_def d m x len assms(3) del: of_nat_mult)
  then show ?thesis
    using assms m by (auto simp: scal_ok_def scal_max_def bits_of_append_zero unat_of_nat_fit)
qed

lemma scalable_put:
  assumes "scal_ok f" "bl_free_items f \<noteq> 0"
  shows "\<exists>bs f'. set_key_bits (bl_size f) (block_offset f (unat (bl_num_blocks f) - 1)) key (bl_bitset f) = Some bs
    \<and> f' = f\<lparr>bl_bitset := bs, bl_free_items := bl_free_items f - 1\<rparr> \<and> scal_ok f' \<and> scal_cap f = Suc (scal_cap f')
    \<and> np_scalable_bloom_check f' key = Some True
    \<and> (\<forall>k j. j < unat (bl_num_blocks f) \<longrightarrow> block_has f k j \<longrightarrow> np_scalable_bloom_check f' k = Some True)"
proof -
  let ?j = "unat (bl_num_blocks f) - 1"
  have j: "?j < unat (bl_num_blocks f)" using assms(1) by (simp add: scal_ok_def)
  note off = block_offset_eq [OF assms(1) j]
  have "0 < bl_size f" using assms(1) by (simp add: scal_ok_def)
  then obtain bs where bs: "set_key_bits (bl_size f) (block_offset f ?j) key (bl_bitset f) = Some bs"
      "length bs = length (bl_bitset f)"
      "bits_of bs = bits_of (bl_bitset f) \<union> (+) (8 * (bl_size f div 8 * ?j)) ` key_bits (bl_size f) key"
    using set_key_bits_spec [of "bl_size f" "block_offset f ?j" "bl_bitset f" key] off by auto
  let ?f = "f\<lparr>bl_bitset := bs, bl_free_items := bl_free_items f - 1\<rparr>"
  have ok: "scal_ok ?f" using assms(1) bs(2) by (simp add: scal_ok_def scal_max_def)
  have "block_has ?f key ?j" "\<And>k i. block_has f k i \<Longrightarrow> block_has ?f k i" using bs(3) by (auto simp: block_has_def)
  moreover have "scal_cap f = Suc (scal_cap ?f)"
    using assms(2) by (simp add: scal_cap_def scal_max_def unat_minus_one unat_gt_0)
  ultimately show ?thesis using bs(1) ok j scalable_check_spec [OF ok] by auto
qed

lemma scalable_add_spec:
  assumes "scal_ok f" "0 < scal_cap f"
  shows "\<exists>f'. np_scalable_bloom_add junk f key = Some f' \<and> scal_ok f' \<and> scal_cap f \<le> Suc (scal_cap f')
    \<and> np_scalable_bloom_check f' key = Some True
    \<and> (\<forall>k. np_scalable_bloom_check f k = Some True \<longrightarrow> np_scalable_bloom_check f' k = Some True)"
proof (cases "bl_free_items f = 0")
  case False
  from scalable_put [OF assms(1) False, of key] show ?thesis
    by (auto simp: np_scalable_bloom_add_def False scalable_check_spec [OF assms(1)])
next
  case True
  then have lt: "unat (bl_num_blocks f) < scal_max f" using assms(2) by (simp add: scal_cap_def)
  obtain g where g: "scalable_grow junk f = Some g" "scal_ok g" "bl_size g = bl_size f"
      "bits_of (bl_bitset g) = bits_of (bl_bitset f)" "unat (bl_num_blocks g) = Suc (unat (bl_num_blocks f))"
      "unat (bl_free_items g) = bl_size f div 16"
    using scalable_grow_spec [OF assms(1) lt True] by blast
  have "16 \<le> bl_size f" using assms(1) by (simp add: scal_ok_def)
  then have nz: "bl_free_items g \<noteq> 0" using g(6) by auto
  have max: "scal_max g = scal_max f" by (simp add: scal_max_def g(3))
  have "scal_max f - unat (bl_num_blocks f) = Suc (scal_max f - unat (bl_num_blocks g))" using lt g(5) by simp
  then have cap: "scal_cap g = scal_cap f" using True by (simp add: scal_cap_def g(3,6) max)
  have has: "block_has f k j = block_has g k j" for k j by (simp add: block_has_def g(3,4))
  from scalable_put [OF g(2) nz, of key] show ?thesis
    using g(5) by (auto simp: np_scalable_bloom_add_def True g(1) cap scalable_check_spec [OF assms(1)] has less_Suc_eq)
qed

interpretation scal: bloom_filter scal_ok "np_scalable_bloom_add junk" np_scalable_bloom_check scal_cap for junk
  by unfold_locales (rule scalable_add_spec)

lemma scalable_create_ok:
  assumes "16 \<le> sz" "8 dvd sz" "sz < 2 ^ 19"
  shows "scal_ok (np_scalable_bloom_create sz)" "scal_cap (np_scalable_bloom_create sz) = sz div 16 * min 255 (65535 div (sz div 8))"
proof -
  have "sz div 8 \<le> 65535" "0 < sz div 8" using assms by auto
  then have m: "1 \<le> min 255 (65535 div (sz div 8))" by (simp add: div_greater_zero_iff Suc_le_eq)
  then show "scal_ok (np_scalable_bloom_create sz)" using assms by (simp add: np_scalable_bloom_create_def scal_ok_def scal_max_def)
  have "sz div 16 + sz div 16 * (min 255 (65535 div (sz div 8)) - 1) = sz div 16 * min 255 (65535 div (sz div 8))"
    using m by (cases "min 255 (65535 div (sz div 8))") auto
  then show "scal_cap (np_scalable_bloom_create sz) = sz div 16 * min 255 (65535 div (sz div 8))"
    using assms by (simp add: np_scalable_bloom_create_def scal_cap_def scal_max_def unat_of_nat_fit)
qed

section \<open>Properties\<close>

text \<open>
  C6: the standard filter implements a set of bit positions. Adding a key inserts its eight positions, the
  check is the test whether they are all in the set, union and intersection are those of sets, the
  result of the intersection says whether it is empty, and clearing empties the set. None of the
  operations writes outside of the array, and the 16 bit loop counters reach their bound.
\<close>

theorem standard_bloom_refines:
  assumes "std_ok f" "std_ok g" "bl_size f = bl_size g"
  shows "(if bl_free_items f = 0 then np_standard_bloom_add f key = None
      else \<exists>f'. np_standard_bloom_add f key = Some f' \<and> std_ok f' \<and> bloom_set f' = bloom_set f \<union> key_bits (bl_size f) key
             \<and> bl_free_items f' = bl_free_items f - 1)
    \<and> np_standard_bloom_check f key = Some (key_bits (bl_size f) key \<subseteq> bloom_set f)
    \<and> (\<exists>b f'. np_standard_bloom_intersect f g = Some (b, f') \<and> std_ok f' \<and> bloom_set f' = bloom_set f \<inter> bloom_set g
          \<and> b = (bloom_set f' \<noteq> {}))
    \<and> (if bl_size f div 16 \<le> unat (bl_free_items g) + unat (bl_free_items f)
        then \<exists>f'. np_standard_bloom_union f g = Some f' \<and> std_ok f' \<and> bloom_set f' = bloom_set f \<union> bloom_set g
        else np_standard_bloom_union f g = None)
    \<and> (\<exists>f'. np_standard_bloom_clear f = Some f' \<and> std_ok f' \<and> bloom_set f' = {})"
proof (intro conjI)
  show "if bl_free_items f = 0 then np_standard_bloom_add f key = None
      else \<exists>f'. np_standard_bloom_add f key = Some f' \<and> std_ok f' \<and> bloom_set f' = bloom_set f \<union> key_bits (bl_size f) key
             \<and> bl_free_items f' = bl_free_items f - 1"
    using standard_add_spec [OF assms(1), of key] by (auto simp: np_standard_bloom_add_def)
  show "if bl_size f div 16 \<le> unat (bl_free_items g) + unat (bl_free_items f)
        then \<exists>f'. np_standard_bloom_union f g = Some f' \<and> std_ok f' \<and> bloom_set f' = bloom_set f \<union> bloom_set g
        else np_standard_bloom_union f g = None"
    using standard_union_spec [OF assms] by (auto simp: np_standard_bloom_union_def)
qed (use standard_check_spec [OF assms(1)] standard_intersect_spec [OF assms] standard_clear_spec [OF assms(1)] in blast)+

theorem standard_bloom_refines_witness:
  "\<exists>b f'. np_standard_bloom_intersect (np_standard_bloom_create 256) (np_standard_bloom_create 256) = Some (b, f') \<and> \<not> b"
  using standard_bloom_refines [OF standard_create_ok(1) standard_create_ok(1), of 256 256] standard_create_ok(2) [of 256]
  by fastforce

text \<open>
  C16: no false negatives. From a fresh standard filter any list of keys up to its nominal capacity can be added,
  and from a fresh scalable filter any list up to the capacity of all blocks its 8 bit block counter and its 16
  bit offsets can address; every key added is found afterwards, whatever \<^verbatim>\<open>realloc\<close> leaves in new memory.
\<close>

theorem bloom_no_false_negatives:
  assumes "16 \<le> sz" "8 dvd sz" "sz < 2 ^ 19"
  shows "(\<forall>ks. length ks \<le> sz div 16 \<longrightarrow>
      (\<exists>f. for_each (\<lambda>k f. np_standard_bloom_add f k) ks (np_standard_bloom_create sz) = Some f
         \<and> (\<forall>k \<in> set ks. np_standard_bloom_check f k = Some True)))
    \<and> (\<forall>ks. length ks \<le> sz div 16 * min 255 (65535 div (sz div 8)) \<longrightarrow>
      (\<exists>f. for_each (\<lambda>k f. np_scalable_bloom_add junk f k) ks (np_scalable_bloom_create sz) = Some f
         \<and> (\<forall>k \<in> set ks. np_scalable_bloom_check f k = Some True)))"
proof -
  have "0 < sz" using assms(1) by simp
  note s = standard_create_ok [OF this assms(2,3)] and g = scalable_create_ok [OF assms]
  show ?thesis
    using std.add_all [OF s(1), unfolded s(3)] scal.add_all [OF g(1), unfolded g(2), of _ junk] by blast
qed

theorem bloom_no_false_negatives_witness:
  "\<exists>f. for_each (\<lambda>k f. np_standard_bloom_add f k) [np_dhkey_half, np_dhkey_max] (np_standard_bloom_create 256) = Some f
     \<and> np_standard_bloom_check f np_dhkey_half = Some True"
proof -
  have "8 dvd (256 :: nat)" by (simp add: dvd_def exI [of _ 32])
  from bloom_no_false_negatives [OF _ this, of "\<lambda>_. 0"] show ?thesis by (auto dest: spec [of _ "[np_dhkey_half, np_dhkey_max]"])
qed

end
