(* ===== verification/Np_Bloom_Cells.thy ===== *)
theory Np_Bloom_Cells
  imports Np_Bloom_Bits
begin

text \<open>
  The filters of \<^verbatim>\<open>src/util/np_bloom.c\<close> whose cells are whole numbers: the decaying filter with cells of 8 or
  16 bits that lose their low bits over time, and the counting filter.
\<close>

section \<open>Cells of the decaying filter\<close>

definition width :: "u8 \<Rightarrow> nat" where
  "width d = unat d div 8"

definition cell :: "u8 \<Rightarrow> u8 list \<Rightarrow> nat \<Rightarrow> u16" where
  "cell d bs q = (if d = 8 then ucast (bs ! q) else ucast (bs ! (2 * q)) OR push_bit 8 (ucast (bs ! (2 * q + 1))))"

definition dec_ok :: "np_bloom \<Rightarrow> bool" where
  "dec_ok f \<longleftrightarrow> (bl_d f = 8 \<or> bl_d f = 16) \<and> 0 < bl_size f \<and> bl_size f < 65536
     \<and> length (bl_bitset f) = bl_size f * width (bl_d f)"

lemma width_simps [simp]: "width 8 = 1" "width 16 = 2"
  by (simp_all add: width_def)

lemma rd_cell_eq:
  assumes "d = 8 \<or> d = 16" "length bs = n * width d" "q < n"
  shows "rd_cell d bs (q * width d) = Some (cell d bs q)"
  using assms(1)
proof
  assume "d = 16"
  then have "q * 2 < length bs" "q * 2 + 1 < length bs" using assms(2,3) by auto
  then show ?thesis using \<open>d = 16\<close> by (simp add: rd_cell_def rd16_def cell_def mult.commute)
qed (use assms in \<open>simp add: rd_cell_def cell_def\<close>)

lemma join_bytes: "(ucast (ucast v :: u8) :: u16) OR push_bit 8 (ucast (ucast (drop_bit 8 v) :: u8)) = v"
proof (rule bit_word_eqI)
  fix n assume "n < LENGTH(16)"
  then consider "n < 8" | "8 \<le> n" "n < 16" by force
  then show "bit ((ucast (ucast v :: u8) :: u16) OR push_bit 8 (ucast (ucast (drop_bit 8 v) :: u8))) n \<longleftrightarrow> bit v n"
    by cases (auto simp: bit_or_iff bit_push_bit_iff bit_ucast_iff bit_drop_bit_eq simp del: push_bit_numeral drop_bit_numeral_bit0)
qed

text \<open>A cell of 8 bits holds the low byte of what is written.\<close>

lemma wr_cell_eq:
  assumes "d = 8 \<or> d = 16" "length bs = n * width d" "q < n"
  shows "\<exists>bs'. wr_cell d bs (q * width d) v = Some bs' \<and> length bs' = length bs
    \<and> (\<forall>r < n. cell d bs' r = (if r = q then take_bit (unat d) v else cell d bs r))"
  using assms(1)
proof
  assume d: "d = 16"
  then have "q * 2 < length bs" "q * 2 + 1 < length bs" using assms(2,3) by auto
  moreover have "take_bit 16 v = v" by (rule bit_word_eqI) (simp add: bit_take_bit_iff)
  moreover have "2 * r \<noteq> Suc (2 * s)" for r s :: nat by presburger
  moreover have "Suc (2 * s) \<noteq> 2 * r" for r s :: nat by presburger
  ultimately show ?thesis using d assms(2)
    by (auto simp: wr_cell_def wr16_def cell_def mult.commute nth_list_update join_bytes)
next
  assume d: "d = 8"
  have "(ucast (ucast v :: u8) :: u16) = take_bit 8 v" by (rule bit_word_eqI) (auto simp: bit_simps)
  then show ?thesis using d assms(2,3) by (auto simp: wr_cell_def cell_def nth_list_update)
qed

lemma cell_small: "d = 8 \<or> d = 16 \<Longrightarrow> take_bit (unat d) (cell d bs q) = cell d bs q"
proof (erule disjE)
  assume d: "d = 8"
  show ?thesis by (rule bit_word_eqI) (auto simp: d cell_def bit_simps dest: bit_imp_le_length)
next
  assume d: "d = 16"
  show ?thesis by (rule bit_word_eqI) (simp add: d bit_take_bit_iff)
qed

lemma cell_byte_eq:
  assumes "d = 8 \<or> d = 16" "pos < 65536"
  shows "cell_byte pos d = pos * width d"
proof -
  have u: "unat (of_nat pos * ucast d :: u32) = pos * unat d"
  proof -
    have "(of_nat pos * ucast d :: u32) = of_nat (pos * unat d)" by simp
    moreover have "pos * unat d < 2 ^ LENGTH(32)" using assms by auto
    ultimately show ?thesis by (metis unat_of_nat_fit)
  qed
  then have "cell_byte pos d = pos * unat d div 8" by (simp add: cell_byte_def unat_div)
  then show ?thesis using assms(1) by auto
qed

lemma dec_okD:
  fixes w :: u32
  assumes "dec_ok f"
  shows "bl_d f = 8 \<or> bl_d f = 16" "0 < bl_size f" "bl_size f < 65536"
    "length (bl_bitset f) = bl_size f * width (bl_d f)" "unat w mod bl_size f < bl_size f" "unat w mod bl_size f < 65536"
proof -
  show "unat w mod bl_size f < bl_size f" using assms by (simp add: dec_ok_def)
  then show "unat w mod bl_size f < 65536" using assms by (simp add: dec_ok_def)
qed (use assms in \<open>simp_all add: dec_ok_def\<close>)

definition key_cells :: "nat \<Rightarrow> np_dhkey \<Rightarrow> nat set" where
  "key_cells sz key = (\<lambda>w. unat w mod sz) ` set (dhkey_t key)"

lemma decaying_check_spec:
  assumes "dec_ok f"
  shows "np_decaying_bloom_check f key = Some (\<forall>q \<in> key_cells (bl_size f) key. cell (bl_d f) (bl_bitset f) q \<noteq> 0)"
proof -
  note ok = dec_okD [OF assms]
  have "decaying_test f ws = Some (\<forall>w \<in> set ws. cell (bl_d f) (bl_bitset f) (unat w mod bl_size f) \<noteq> 0)" for ws
  proof (induction ws)
    case (Cons w ws)
    have "cell_byte (unat w mod bl_size f) (bl_d f) = unat w mod bl_size f * width (bl_d f)" by (rule cell_byte_eq [OF ok(1,6)])
    with rd_cell_eq [OF ok(1,4) ok(5) [of w]] show ?case using Cons ok(1,2)
      by (auto simp: bit_array_pos_def Let_def)
  qed simp
  then show ?thesis by (simp add: np_decaying_bloom_check_def key_cells_def)
qed

text \<open>The bit that is set when a key is added.\<close>

abbreviation top_bit :: "u8 \<Rightarrow> u16" where
  "top_bit d \<equiv> push_bit (unat d - 1) 1"

lemma take_top: "d = 8 \<or> d = 16 \<Longrightarrow> take_bit (unat d) (v OR top_bit d) = take_bit (unat d) v OR top_bit d"
  by (elim disjE) (auto intro!: bit_word_eqI simp: bit_simps)

lemma decaying_add_spec:
  assumes "dec_ok f" "bl_free_items f \<noteq> 0"
  shows "\<exists>f'. np_decaying_bloom_add f key = Some f' \<and> dec_ok f' \<and> bl_size f' = bl_size f \<and> bl_d f' = bl_d f \<and> bl_p f' = bl_p f
    \<and> bl_free_items f' = bl_free_items f - 1
    \<and> (\<forall>q < bl_size f. cell (bl_d f) (bl_bitset f') q = (if q \<in> key_cells (bl_size f) key
          then cell (bl_d f) (bl_bitset f) q OR top_bit (bl_d f) else cell (bl_d f) (bl_bitset f) q))"
proof -
  let ?d = "bl_d f" and ?n = "bl_size f"
  note ok = dec_okD [OF assms(1)]
  let ?step = "\<lambda>w bs. do { pos \<leftarrow> bit_array_pos ?n w; let i = cell_byte pos ?d;
      (if ?d = 8 \<or> ?d = 16 then do { v \<leftarrow> rd_cell ?d bs i; wr_cell ?d bs i (v OR top_bit ?d) } else Some bs) }"
  have "\<exists>bs'. for_each ?step ws bs = Some bs' \<and> length bs' = length bs
      \<and> (\<forall>q < ?n. cell ?d bs' q = (if q \<in> (\<lambda>w. unat w mod ?n) ` set ws then cell ?d bs q OR top_bit ?d else cell ?d bs q))"
    if "length bs = ?n * width ?d" for ws bs
    using that
  proof (induction ws arbitrary: bs)
    case (Cons w ws)
    let ?q = "unat w mod ?n"
    have b: "cell_byte ?q ?d = ?q * width ?d" by (rule cell_byte_eq [OF ok(1,6)])
    have tk: "take_bit (unat ?d) (cell ?d bs ?q OR top_bit ?d) = cell ?d bs ?q OR top_bit ?d"
      by (simp only: take_top [OF ok(1)] cell_small [OF ok(1)])
    from wr_cell_eq [OF ok(1) Cons.prems ok(5) [of w], where v = "cell ?d bs ?q OR top_bit ?d", unfolded tk] obtain bs1 where
      bs1: "wr_cell ?d bs (?q * width ?d) (cell ?d bs ?q OR top_bit ?d) = Some bs1" "length bs1 = length bs"
        "\<forall>r < ?n. cell ?d bs1 r = (if r = ?q then cell ?d bs ?q OR top_bit ?d else cell ?d bs r)"
      by blast
    have st: "?step w bs = Some bs1"
      using rd_cell_eq [OF ok(1) Cons.prems ok(5) [of w]] bs1(1) ok(1,2) b by (auto simp: bit_array_pos_def Let_def)
    obtain bs2 where "for_each ?step ws bs1 = Some bs2" "length bs2 = length bs1"
      "\<forall>q < ?n. cell ?d bs2 q = (if q \<in> (\<lambda>w. unat w mod ?n) ` set ws then cell ?d bs1 q OR top_bit ?d else cell ?d bs1 q)"
      using Cons.IH [of bs1] Cons.prems bs1(2) by auto
    then show ?case using st bs1(2,3) by (auto simp: or.assoc)
  qed simp
  from this [OF ok(4), of "dhkey_t key"] show ?thesis
    using assms by (auto simp: np_decaying_bloom_add_def dec_ok_def key_cells_def Let_def)
qed

interpretation decay: bloom_filter dec_ok np_decaying_bloom_add np_decaying_bloom_check "\<lambda>f. unat (bl_free_items f)"
proof
  fix f key
  assume f: "dec_ok f" "0 < unat (bl_free_items f)"
  then have nz: "bl_free_items f \<noteq> 0" by auto
  have top: "v OR top_bit (bl_d f) \<noteq> 0" for v
  proof -
    have "unat (bl_d f) - 1 < 16" using dec_okD(1) [OF f(1)] by auto
    then have "bit (v OR top_bit (bl_d f)) (unat (bl_d f) - 1)" by (simp add: bit_or_iff bit_exp_iff)
    then show ?thesis by (metis bit_0_eq bot_apply bot_bool_def)
  qed
  have keys: "q < bl_size f" if "q \<in> key_cells (bl_size f) k" for q k
    using that dec_okD(5) [OF f(1)] by (auto simp: key_cells_def)
  from decaying_add_spec [OF f(1) nz, of key] obtain f' where
    f': "np_decaying_bloom_add f key = Some f'" "dec_ok f'" "bl_size f' = bl_size f" "bl_d f' = bl_d f"
      "bl_free_items f' = bl_free_items f - 1"
      "\<forall>q < bl_size f. cell (bl_d f) (bl_bitset f') q = (if q \<in> key_cells (bl_size f) key
          then cell (bl_d f) (bl_bitset f) q OR top_bit (bl_d f) else cell (bl_d f) (bl_bitset f) q)" by blast
  moreover have "unat (bl_free_items f) \<le> Suc (unat (bl_free_items f'))" using f'(5) nz by (simp add: unat_minus_one)
  moreover have "np_decaying_bloom_check f' key = Some True"
    unfolding decaying_check_spec [OF f'(2)] f'(3,4) using f'(6) keys top by simp
  moreover have "np_decaying_bloom_check f' j = Some True" if "np_decaying_bloom_check f j = Some True" for j
    using that unfolding decaying_check_spec [OF f'(2)] decaying_check_spec [OF f(1)] f'(3,4) using f'(6) keys top by simp
  ultimately show "\<exists>f'. np_decaying_bloom_add f key = Some f' \<and> dec_ok f' \<and> unat (bl_free_items f) \<le> Suc (unat (bl_free_items f'))
      \<and> np_decaying_bloom_check f' key = Some True
      \<and> (\<forall>j. np_decaying_bloom_check f j = Some True \<longrightarrow> np_decaying_bloom_check f' j = Some True)" by blast
qed

section \<open>Decay\<close>

lemma take_drop_small:
  fixes v :: u16
  assumes "take_bit n v = v"
  shows "take_bit n (drop_bit k v) = drop_bit k v"
proof (rule bit_word_eqI)
  fix i
  have "bit v (k + i) \<longleftrightarrow> k + i < n \<and> bit v (k + i)" by (subst (1) assms [symmetric]) (simp add: bit_take_bit_iff)
  then show "bit (take_bit n (drop_bit k v)) i \<longleftrightarrow> bit (drop_bit k v) i" by (auto simp: bit_take_bit_iff bit_drop_bit_eq)
qed

lemma decay_loop:
  assumes "d = 8 \<or> d = 16" "length bs = m * width d" "n \<le> m" "unat p < 32"
  shows "\<exists>bs'. for_each (decay_cell d p) [0..<n] (0, bs)
      = Some (of_nat (length (filter (\<lambda>q. drop_bit (unat p) (cell d bs q) = 0) [0..<n])), bs') \<and> length bs' = length bs
    \<and> (\<forall>q < m. cell d bs' q = (if q < n then drop_bit (unat p) (cell d bs q) else cell d bs q))"
  using assms(3)
proof (induction n)
  case (Suc n)
  let ?v = "cell d bs n" and ?z = "\<lambda>n. of_nat (length (filter (\<lambda>q. drop_bit (unat p) (cell d bs q) = 0) [0..<n])) :: u32"
  obtain bs1 where bs1: "for_each (decay_cell d p) [0..<n] (0, bs) = Some (?z n, bs1)" "length bs1 = length bs"
      "\<forall>q < m. cell d bs1 q = (if q < n then drop_bit (unat p) (cell d bs q) else cell d bs q)"
    using Suc by auto
  have n: "n < m" using Suc.prems by simp
  have len: "length bs1 = m * width d" using bs1(2) assms(2) by simp
  have i: "n * unat d div 8 = n * width d" using assms(1) by auto
  have rd: "rd_cell d bs1 (n * width d) = Some ?v" using rd_cell_eq [OF assms(1) len n] bs1(3) n by simp
  have small: "take_bit (unat d) (drop_bit (unat p) ?v) = drop_bit (unat p) ?v"
    by (rule take_drop_small [OF cell_small [OF assms(1)]])
  obtain bs2 where bs2: "wr_cell d bs1 (n * width d) (drop_bit (unat p) ?v) = Some bs2" "length bs2 = length bs1"
      "\<forall>r < m. cell d bs2 r = (if r = n then drop_bit (unat p) ?v else cell d bs1 r)"
    using wr_cell_eq [OF assms(1) len n, where v = "drop_bit (unat p) ?v", unfolded small] by blast
  have pos: "0 < ?v \<longleftrightarrow> ?v \<noteq> 0" by (rule word_greater_zero_iff)
  define bs3 where "bs3 = (if ?v > 0 then bs2 else bs1)"
  have "decay_cell d p n (?z n, bs1) = Some (?z (Suc n), bs3)"
    using assms(1,4) rd bs2(1) pos by (auto simp: decay_cell_def Let_def i bs3_def)
  moreover have "length bs3 = length bs" using bs1(2) bs2(2) by (simp add: bs3_def)
  moreover have "cell d bs3 q = (if q < Suc n then drop_bit (unat p) (cell d bs q) else cell d bs q)" if "q < m" for q
  proof (cases "?v = 0")
    case True
    then show ?thesis using bs1(3) that by (cases "q = n") (auto simp: bs3_def)
  next
    case False
    then have "0 < ?v" by (simp add: word_greater_zero_iff)
    then show ?thesis using bs1(3) bs2(3) that by (cases "q = n") (auto simp: bs3_def)
  qed
  ultimately show ?case using bs1(1) by (simp add: for_each_append)
qed simp

lemma decaying_decay_spec:
  assumes "dec_ok f" "unat (bl_p f) < 32"
  shows "\<exists>f'. np_decaying_bloom_decay f = Some f' \<and> dec_ok f' \<and> bl_size f' = bl_size f \<and> bl_d f' = bl_d f \<and> bl_p f' = bl_p f
    \<and> (\<forall>q < bl_size f. cell (bl_d f) (bl_bitset f') q = drop_bit (unat (bl_p f)) (cell (bl_d f) (bl_bitset f) q))
    \<and> bl_free_items f' = ucast (of_nat (length (filter (\<lambda>q. cell (bl_d f) (bl_bitset f') q = 0) [0..<bl_size f])) * ucast (bl_d f) div 16 :: u32)"
proof -
  note ok = dec_okD [OF assms(1)]
  let ?c = "\<lambda>q. drop_bit (unat (bl_p f)) (cell (bl_d f) (bl_bitset f) q)"
  obtain bs where bs: "for_each (decay_cell (bl_d f) (bl_p f)) [0..<bl_size f] (0, bl_bitset f)
      = Some (of_nat (length (filter (\<lambda>q. ?c q = 0) [0..<bl_size f])), bs)" "length bs = length (bl_bitset f)"
      "\<forall>q < bl_size f. cell (bl_d f) bs q = ?c q"
    using decay_loop [OF ok(1,4) order_refl assms(2)] by auto
  have "filter (\<lambda>q. ?c q = 0) [0..<bl_size f] = filter (\<lambda>q. cell (bl_d f) bs q = 0) [0..<bl_size f]"
    using bs(3) by (intro filter_cong) auto
  then show ?thesis using assms(1) bs ok(3) by (simp add: np_decaying_bloom_decay_def u16_loop_1 dec_ok_def)
qed

primrec decays :: "nat \<Rightarrow> np_bloom \<Rightarrow> np_bloom option" where
  "decays 0 f = Some f"
| "decays (Suc n) f = do { f1 \<leftarrow> decays n f; np_decaying_bloom_decay f1 }"

lemma decays_spec:
  assumes "dec_ok f" "unat (bl_p f) < 32"
  shows "\<exists>f'. decays n f = Some f' \<and> dec_ok f' \<and> bl_size f' = bl_size f \<and> bl_d f' = bl_d f \<and> bl_p f' = bl_p f
    \<and> (\<forall>q < bl_size f. cell (bl_d f) (bl_bitset f') q = drop_bit (n * unat (bl_p f)) (cell (bl_d f) (bl_bitset f) q))"
proof (induction n)
  case (Suc n)
  then obtain g where g: "decays n f = Some g" "dec_ok g" "bl_size g = bl_size f" "bl_d g = bl_d f" "bl_p g = bl_p f"
      "\<forall>q < bl_size f. cell (bl_d f) (bl_bitset g) q = drop_bit (n * unat (bl_p f)) (cell (bl_d f) (bl_bitset f) q)" by blast
  from decaying_decay_spec [OF g(2)] assms(2) g(5) obtain h where
    "np_decaying_bloom_decay g = Some h" "dec_ok h" "bl_size h = bl_size g" "bl_d h = bl_d g" "bl_p h = bl_p g"
    "\<forall>q < bl_size g. cell (bl_d g) (bl_bitset h) q = drop_bit (unat (bl_p g)) (cell (bl_d g) (bl_bitset g) q)" by auto
  then show ?case using g by (simp add: add.commute)
qed (use assms(1) in simp)

lemma cell_bit_less: "d = 8 \<or> d = 16 \<Longrightarrow> bit (cell d bs q) i \<Longrightarrow> i < unat d"
  using cell_small [of d bs q] by (metis bit_take_bit_iff)

lemma drop_cell_zero:
  assumes "d = 8 \<or> d = 16" "unat d \<le> k"
  shows "drop_bit k (cell d bs q) = 0"
proof (rule bit_word_eqI)
  fix i
  show "bit (drop_bit k (cell d bs q)) i \<longleftrightarrow> bit (0 :: u16) i"
    using cell_bit_less [OF assms(1), of bs q "k + i"] assms(2) by (auto simp: bit_drop_bit_eq)
qed

lemma drop_top_nonzero:
  assumes "d = 8 \<or> d = 16" "k < unat d"
  shows "drop_bit k (v OR top_bit d) \<noteq> 0"
proof -
  have "unat d - 1 < 16" "k + (unat d - 1 - k) = unat d - 1" using assms by auto
  then have "bit (drop_bit k (v OR top_bit d)) (unat d - 1 - k)" by (simp add: bit_drop_bit_eq bit_or_iff bit_exp_iff)
  then show ?thesis by (metis bit_0_eq bot_apply bot_bool_def)
qed

lemma key_cells_nonempty: "key_cells sz key \<noteq> {}"
  by (simp add: key_cells_def dhkey_t_def)

section \<open>Counting filter\<close>

definition cnt_ok :: "np_bloom \<Rightarrow> bool" where
  "cnt_ok f \<longleftrightarrow> 0 < bl_size f \<and> 8 dvd unat (bl_d f) \<and> 0 < unat (bl_d f) \<and> bl_size f < 2 ^ 24
     \<and> length (bl_bitset f) = bl_size f * (unat (bl_d f) div 8)"

definition cnt_cell :: "np_bloom \<Rightarrow> u32 \<Rightarrow> nat" where
  "cnt_cell f w = unat w mod bl_size f * (unat (bl_d f) div 8)"

lemma cnt_cell_pos:
  assumes "cnt_ok f"
  shows "cell_pos (unat w mod bl_size f) (bl_d f) = cnt_cell f w" "cnt_cell f w < length (bl_bitset f)"
proof -
  let ?p = "unat w mod bl_size f" and ?d = "unat (bl_d f)"
  have p: "?p < bl_size f" using assms by (simp add: cnt_ok_def)
  have "?d < 2 ^ LENGTH(8)" by (rule unsigned_less)
  then have "?p * ?d \<le> 16777215 * 255" using p assms by (intro mult_le_mono) (auto simp: cnt_ok_def)
  then have "?p * ?d < 2 ^ LENGTH(32)" by simp
  moreover have "(of_nat ?p * ucast (bl_d f) :: u32) = of_nat (?p * ?d)" by simp
  ultimately have "unat (of_nat ?p * ucast (bl_d f) :: u32) = ?p * ?d" by (metis unat_of_nat_fit)
  then have "cell_pos ?p (bl_d f) = ?p * ?d div 8"
    by (simp add: cell_pos_def unat_drop_bit_eq drop_bit_nat_def del: drop_bit_numeral_bit0)
  then show "cell_pos ?p (bl_d f) = cnt_cell f w" using assms by (simp add: cnt_cell_def cnt_ok_def div_mult_swap)
  show "cnt_cell f w < length (bl_bitset f)" using p assms by (auto simp: cnt_cell_def cnt_ok_def div_greater_zero_iff dvd_imp_le)
qed

text \<open>A pass that adds a constant to the eight cells of a key, as often as they occur.\<close>

lemma counting_loop_spec:
  assumes "cnt_ok f"
  shows "\<exists>bs. counting_loop (\<lambda>v. v + c) f key = Some bs \<and> length bs = length (bl_bitset f)
    \<and> (\<forall>i < length bs. bs ! i = bl_bitset f ! i + of_nat (count_list (map (cnt_cell f) (dhkey_t key)) i) * c)"
proof -
  have "\<exists>bs'. for_each (\<lambda>w bs. do { pos \<leftarrow> bit_array_pos (bl_size f) w; modify (\<lambda>v. v + c) (cell_pos pos (bl_d f)) bs }) ws bs = Some bs'
      \<and> length bs' = length bs \<and> (\<forall>i < length bs. bs' ! i = bs ! i + of_nat (count_list (map (cnt_cell f) ws) i) * c)"
    if "length bs = length (bl_bitset f)" for ws bs
    using that
  proof (induction ws arbitrary: bs)
    case (Cons w ws)
    let ?bs = "bs[cnt_cell f w := bs ! cnt_cell f w + c]"
    have "0 < bl_size f" using assms by (simp add: cnt_ok_def)
    then have "do { pos \<leftarrow> bit_array_pos (bl_size f) w; modify (\<lambda>v. v + c) (cell_pos pos (bl_d f)) bs } = Some ?bs"
      using cnt_cell_pos [OF assms, of w] Cons.prems by (simp add: bit_array_pos_def)
    moreover from Cons.IH [of ?bs] Cons.prems obtain bs' where
      "for_each (\<lambda>w bs. do { pos \<leftarrow> bit_array_pos (bl_size f) w; modify (\<lambda>v. v + c) (cell_pos pos (bl_d f)) bs }) ws ?bs = Some bs'"
      "length bs' = length bs" "\<forall>i < length bs. bs' ! i = ?bs ! i + of_nat (count_list (map (cnt_cell f) ws) i) * c" by auto
    ultimately show ?case by (auto simp: nth_list_update algebra_simps)
  qed simp
  from this [OF refl, of "dhkey_t key"] show ?thesis by (auto simp: counting_loop_def)
qed

lemma counting_check_spec:
  assumes "cnt_ok f"
  shows "np_counting_bloom_check f key
    = Some (\<forall>w \<in> set (dhkey_t key). bl_bitset f ! cnt_cell f w \<noteq> 0 \<and> bl_bitset f ! cnt_cell f w \<noteq> 255)"
proof -
  have "0 < bl_size f" using assms by (simp add: cnt_ok_def)
  then have "for_each (\<lambda>w ret. do { pos \<leftarrow> bit_array_pos (bl_size f) w; v \<leftarrow> rd (bl_bitset f) (cell_pos pos (bl_d f));
      Some (if v = 0 \<or> v = 255 then False else ret) }) ws ret
    = Some (ret \<and> (\<forall>w \<in> set ws. bl_bitset f ! cnt_cell f w \<noteq> 0 \<and> bl_bitset f ! cnt_cell f w \<noteq> 255))" for ws ret
    by (induction ws arbitrary: ret) (auto simp: bit_array_pos_def cnt_cell_pos [OF assms])
  then show ?thesis by (simp add: np_counting_bloom_check_def)
qed

section \<open>Properties\<close>

text \<open>
  C34: a key that is added to a decaying filter is found for exactly as many rounds of decay as its cell width
  and the decay shift allow; when the shifts add up to the width of a cell every key is gone.
\<close>

theorem decaying_bloom_lifetime:
  assumes "dec_ok f" "bl_free_items f \<noteq> 0" "unat (bl_p f) < 32"
  shows "\<exists>f0 f'. np_decaying_bloom_add f key = Some f0 \<and> decays n f0 = Some f'
    \<and> np_decaying_bloom_check f' key = Some (n * unat (bl_p f) < unat (bl_d f))
    \<and> (unat (bl_d f) \<le> n * unat (bl_p f) \<longrightarrow> (\<forall>k. np_decaying_bloom_check f' k = Some False))"
proof -
  note d = dec_okD(1) [OF assms(1)]
  have keys: "q < bl_size f" if "q \<in> key_cells (bl_size f) k" for q k
    using that dec_okD(5) [OF assms(1)] by (auto simp: key_cells_def)
  from decaying_add_spec [OF assms(1,2), of key] obtain g where
    g: "np_decaying_bloom_add f key = Some g" "dec_ok g" "bl_size g = bl_size f" "bl_d g = bl_d f" "bl_p g = bl_p f"
      "\<forall>q < bl_size f. cell (bl_d f) (bl_bitset g) q = (if q \<in> key_cells (bl_size f) key
          then cell (bl_d f) (bl_bitset f) q OR top_bit (bl_d f) else cell (bl_d f) (bl_bitset f) q)" by blast
  obtain h where h: "decays n g = Some h" "dec_ok h" "bl_size h = bl_size f" "bl_d h = bl_d f"
      "\<forall>q < bl_size f. cell (bl_d f) (bl_bitset h) q = drop_bit (n * unat (bl_p f)) (cell (bl_d f) (bl_bitset g) q)"
    using decays_spec [OF g(2), of n] g(3-5) assms(3) by auto
  have none: "np_decaying_bloom_check h k = Some False" if "unat (bl_d f) \<le> n * unat (bl_p f)" for k
    unfolding decaying_check_spec [OF h(2)] h(3,4)
    using h(5) keys [of _ k] drop_cell_zero [OF d that] key_cells_nonempty [of "bl_size f" k] by auto
  have "np_decaying_bloom_check h key = Some True" if lt: "n * unat (bl_p f) < unat (bl_d f)"
  proof -
    have "cell (bl_d f) (bl_bitset h) q \<noteq> 0" if q: "q \<in> key_cells (bl_size f) key" for q
      using h(5) g(6) keys [OF q] q drop_top_nonzero [OF d lt] by simp
    then show ?thesis unfolding decaying_check_spec [OF h(2)] h(3,4) by simp
  qed
  then show ?thesis using g(1) h(1) none by (cases "n * unat (bl_p f) < unat (bl_d f)") auto
qed

theorem decaying_bloom_lifetime_witness:
  "\<exists>f0 f'. np_decaying_bloom_add (np_decaying_bloom_create 256 8 1) np_dhkey_half = Some f0 \<and> decays 8 f0 = Some f'
     \<and> np_decaying_bloom_check f' np_dhkey_half = Some False"
  using decaying_bloom_lifetime [of "np_decaying_bloom_create 256 8 1" np_dhkey_half 8]
  by (auto simp: np_decaying_bloom_create_def dec_ok_def width_def)

text \<open>
  C35: in a counting filter with room for two more items the removal of a key takes back its addition
  exactly, also for counters that wrap around; the key is found in between as long as none of its
  counters comes near 255. In a filter with room for one item the removal of the key that was just
  added aborts.
\<close>

theorem counting_bloom_add_remove:
  assumes "cnt_ok f" "bl_free_items f \<noteq> 0"
  shows "\<exists>f1. np_counting_bloom_add f key = Some f1
    \<and> np_counting_bloom_remove f1 key = (if bl_free_items f = 1 then None else Some f)
    \<and> ((\<forall>w \<in> set (dhkey_t key). unat (bl_bitset f ! cnt_cell f w) + 8 < 255) \<longrightarrow> np_counting_bloom_check f1 key = Some True)"
proof -
  let ?n = "\<lambda>i. count_list (map (cnt_cell f) (dhkey_t key)) i"
  from counting_loop_spec [OF assms(1), of 1 key] obtain bs where
    bs: "counting_loop (\<lambda>v. v + 1) f key = Some bs" "length bs = length (bl_bitset f)"
      "\<forall>i < length bs. bs ! i = bl_bitset f ! i + of_nat (?n i)" by auto
  let ?f = "f\<lparr>bl_bitset := bs, bl_free_items := bl_free_items f - 1\<rparr>"
  have add: "np_counting_bloom_add f key = Some ?f" using assms(2) bs(1) by (simp add: np_counting_bloom_add_def)
  have ok: "cnt_ok ?f" using assms(1) bs(2) by (simp add: cnt_ok_def)
  have cc: "cnt_cell ?f = cnt_cell f" by (simp add: cnt_cell_def fun_eq_iff)
  from counting_loop_spec [OF ok, of "- 1" key] obtain cs where
    cs: "counting_loop (\<lambda>v. v - 1) ?f key = Some cs" "length cs = length bs"
      "\<forall>i < length cs. cs ! i = bs ! i - of_nat (?n i)" by (auto simp: cc)
  then have "cs = bl_bitset f" using bs(2,3) by (intro nth_equalityI) simp_all
  then have rem: "np_counting_bloom_remove ?f key = (if bl_free_items f = 1 then None else Some f)"
    using cs(1) by (simp add: np_counting_bloom_remove_def)
  have "np_counting_bloom_check ?f key = Some True" if small: "\<forall>w \<in> set (dhkey_t key). unat (bl_bitset f ! cnt_cell f w) + 8 < 255"
  proof -
    have "bs ! cnt_cell f w \<noteq> 0 \<and> bs ! cnt_cell f w \<noteq> 255" if w: "w \<in> set (dhkey_t key)" for w
    proof -
      have "?n (cnt_cell f w) \<le> 8" using count_le_length [of "map (cnt_cell f) (dhkey_t key)"] by (simp add: dhkey_t_def)
      moreover have "0 < ?n (cnt_cell f w)" using w count_list_0_iff [of "map (cnt_cell f) (dhkey_t key)" "cnt_cell f w"] by auto
      moreover have v: "bs ! cnt_cell f w = of_nat (unat (bl_bitset f ! cnt_cell f w) + ?n (cnt_cell f w))"
        using bs(2,3) cnt_cell_pos(2) [OF assms(1), of w] by simp
      ultimately have "unat (bs ! cnt_cell f w) = unat (bl_bitset f ! cnt_cell f w) + ?n (cnt_cell f w)"
        "0 < unat (bs ! cnt_cell f w)" "unat (bs ! cnt_cell f w) < 255"
        using small w unat_of_nat_fit [where 'w = 8, of "unat (bl_bitset f ! cnt_cell f w) + ?n (cnt_cell f w)"] by force+
      then show ?thesis by auto
    qed
    then show ?thesis using counting_check_spec [OF ok, of key] by (simp add: cc)
  qed
  then show ?thesis using add rem by blast
qed

theorem counting_bloom_add_remove_witness:
  "\<exists>f1. np_counting_bloom_add (np_counting_bloom_create 256 8 1) np_dhkey_half = Some f1
     \<and> np_counting_bloom_remove f1 np_dhkey_half = Some (np_counting_bloom_create 256 8 1)"
  using counting_bloom_add_remove [of "np_counting_bloom_create 256 8 1" np_dhkey_half]
  by (auto simp: np_counting_bloom_create_def cnt_ok_def)

end
