(* ===== verification/Np_Bloom_Neuropil.thy ===== *)
theory Np_Bloom_Neuropil
  imports Np_Bloom_Bits
begin

text \<open>
  The neuropil bloom filter of \<^verbatim>\<open>src/util/np_bloom.c\<close>: four blocks of 3 * 5 * 17 cells, each cell two
  bytes, the age and the count of the cell. A key has two words for each of the four blocks.

  The filters that pheromones, intent tokens and caches exchange are of this kind.
\<close>

section \<open>Creation\<close>

definition SCALE3D_X :: nat where "SCALE3D_X = 3"

definition SCALE3D_Y :: nat where "SCALE3D_Y = 5"

definition SCALE3D_Z :: nat where "SCALE3D_Z = 17"

definition SCALE3D_FREE_ITEMS :: nat where "SCALE3D_FREE_ITEMS = 64"

definition np_neuropil_bloom_create :: np_bloom where
  "np_neuropil_bloom_create =
     \<lparr>bl_type = neuropil_bf, bl_size = SCALE3D_X * SCALE3D_Y * SCALE3D_Z, bl_d = 16, bl_p = 0,
      bl_rng = \<lparr>pcg_st = 0, pcg_inc = 0\<rparr>, bl_bitset = replicate (4 * (SCALE3D_X * SCALE3D_Y * SCALE3D_Z * 16 div 8)) 0,
      bl_num_blocks = 4, bl_free_items = of_nat SCALE3D_FREE_ITEMS\<rparr>"

definition np_neuropil_bloom_clear :: "np_bloom \<Rightarrow> np_bloom option" where
  "np_neuropil_bloom_clear res =
     do {
       bs \<leftarrow> memset (bl_bitset res) 0 0 (4 * (SCALE3D_X * SCALE3D_Y * SCALE3D_Z) * 16 div 8);
       Some (res\<lparr>bl_type := neuropil_bf, bl_size := SCALE3D_X * SCALE3D_Y * SCALE3D_Z, bl_d := 16, bl_p := 0,
         bl_num_blocks := 4, bl_bitset := bs, bl_free_items := of_nat SCALE3D_FREE_ITEMS\<rparr>)
     }"

section \<open>Keys\<close>

definition scale3d_pos :: "u32 \<Rightarrow> nat" where
  "scale3d_pos w = (unat w mod SCALE3D_X + 1) * (unat w mod SCALE3D_Y + 1) * (unat w mod SCALE3D_Z + 1)"

definition block_size :: "np_bloom \<Rightarrow> nat" where
  "block_size bloom = unat (of_nat (bl_size bloom * unat (bl_d bloom) div 8) :: u16)"

text \<open>
  The loop over the eight words of a key; \<open>f\<close> gets the byte position \<^verbatim>\<open>_local_pos\<close>. The block index moves on
  after every second word.
\<close>

fun key_loop :: "(nat \<Rightarrow> 's \<Rightarrow> 's option) \<Rightarrow> nat \<Rightarrow> (nat \<times> u32) list \<Rightarrow> nat \<Rightarrow> 's \<Rightarrow> 's option" where
  "key_loop f bsize [] block_index s = Some s"
| "key_loop f bsize ((k, w) # kws) block_index s =
     do {
       s1 \<leftarrow> f ((block_index - 1) * bsize + (scale3d_pos w - 1) * 2) s;
       key_loop f bsize kws (if (k + 1) mod 2 = 0 then block_index + 1 else block_index) s1
     }"

definition np_neuropil_bloom_add :: "np_bloom \<Rightarrow> np_dhkey \<Rightarrow> np_bloom option" where
  "np_neuropil_bloom_add bloom key =
     (if bl_free_items bloom = 0 then None
      else do {
        bs \<leftarrow> key_loop (\<lambda>local_pos bs. do {
            bs1 \<leftarrow> modify (\<lambda>age. age OR push_bit (unat (bl_d bloom) div 2 - 1) 1) local_pos bs;
            modify (\<lambda>c. c + 1) (local_pos + 1) bs1
          }) (block_size bloom) (enumerate 0 (dhkey_t key)) 1 (bl_bitset bloom);
        Some (bloom\<lparr>bl_bitset := bs, bl_free_items := bl_free_items bloom - 1\<rparr>)
      })"

definition np_neuropil_bloom_remove :: "np_bloom \<Rightarrow> np_dhkey \<Rightarrow> np_bloom option" where
  "np_neuropil_bloom_remove bloom key =
     (if bl_free_items bloom = 0 then None
      else do {
        bs \<leftarrow> key_loop (\<lambda>local_pos bs. do {
            bs1 \<leftarrow> modify (\<lambda>age. drop_bit 1 age) local_pos bs;
            modify (\<lambda>c. c - 1) (local_pos + 1) bs1
          }) (block_size bloom) (enumerate 0 (dhkey_t key)) 1 (bl_bitset bloom);
        Some (bloom\<lparr>bl_bitset := bs, bl_free_items := bl_free_items bloom + 1\<rparr>)
      })"

definition np_neuropil_bloom_check :: "np_bloom \<Rightarrow> np_dhkey \<Rightarrow> bool option" where
  "np_neuropil_bloom_check bloom key =
     key_loop (\<lambda>local_pos ret. do {
         age \<leftarrow> rd (bl_bitset bloom) local_pos;
         c \<leftarrow> rd (bl_bitset bloom) (local_pos + 1);
         Some (if age = 0 \<or> c = 0 then False else ret)
       }) (block_size bloom) (enumerate 0 (dhkey_t key)) 1 True"

text \<open>The heuristic leaves the loop at the first empty cell.\<close>

fun heuristic_loop3d :: "u8 list \<Rightarrow> nat \<Rightarrow> (nat \<times> u32) list \<Rightarrow> nat \<Rightarrow> real \<Rightarrow> real option" where
  "heuristic_loop3d bs bsize [] block_index ret = Some ret"
| "heuristic_loop3d bs bsize ((k, w) # kws) block_index ret =
     do {
       let local_pos = (block_index - 1) * bsize + (scale3d_pos w - 1) * 2;
       age \<leftarrow> rd bs local_pos;
       c \<leftarrow> rd bs (local_pos + 1);
       (if c = 0 then Some 0
        else heuristic_loop3d bs bsize kws (if (k + 1) mod 2 = 0 then block_index + 1 else block_index)
          (if ret < real (unat age) / 256 then ret else real (unat age) / 256))
     }"

definition np_neuropil_bloom_get_heuristic :: "np_bloom \<Rightarrow> np_dhkey \<Rightarrow> real option" where
  "np_neuropil_bloom_get_heuristic bloom key =
     heuristic_loop3d (bl_bitset bloom) (block_size bloom) (enumerate 0 (dhkey_t key)) 1 1"

section \<open>Aging\<close>

definition np_neuropil_bloom_age_decrement :: "np_bloom \<Rightarrow> np_bloom option" where
  "np_neuropil_bloom_age_decrement bloom =
     do {
       bs \<leftarrow> loop_w (2 :: u16) (block_size bloom * unat (bl_num_blocks bloom))
         (\<lambda>k. modify (\<lambda>age. if unat age > unat (bl_d bloom) div 2 then age - of_nat (unat (bl_d bloom) div 2) else 0) k)
         0 (bl_bitset bloom);
       Some (bloom\<lparr>bl_bitset := bs\<rparr>)
     }"

definition np_neuropil_bloom_age_increment :: "np_bloom \<Rightarrow> np_bloom option" where
  "np_neuropil_bloom_age_increment bloom =
     do {
       bs \<leftarrow> loop_w (2 :: u16) (block_size bloom * unat (bl_num_blocks bloom))
         (\<lambda>k. modify (\<lambda>age. if int (unat age) < 255 - int (unat (bl_d bloom) div 2)
                            then age + of_nat (unat (bl_d bloom) div 2) else 255) k)
         0 (bl_bitset bloom);
       Some (bloom\<lparr>bl_bitset := bs\<rparr>)
     }"

definition np_neuropil_bloom_count_decrement :: "np_bloom \<Rightarrow> np_bloom option" where
  "np_neuropil_bloom_count_decrement bloom =
     (if unat (bl_free_items bloom) < SCALE3D_FREE_ITEMS
      then do {
        bs \<leftarrow> loop_w (2 :: u16) (block_size bloom * unat (bl_num_blocks bloom))
          (\<lambda>k. modify (\<lambda>c. if c > 0 then c - 1 else c) (k + 1)) 0 (bl_bitset bloom);
        Some (bloom\<lparr>bl_bitset := bs, bl_free_items := bl_free_items bloom + 1\<rparr>)
      }
      else Some bloom)"

section \<open>Pairs of filters\<close>

definition neuropil_pair :: "np_bloom \<Rightarrow> np_bloom \<Rightarrow> bool" where
  "neuropil_pair a b \<longleftrightarrow>
     bl_type a = neuropil_bf \<and> bl_type a = bl_type b \<and> bl_size a = SCALE3D_X * SCALE3D_Y * SCALE3D_Z
     \<and> bl_size a = bl_size b \<and> bl_d a = bl_d b \<and> bl_num_blocks a = bl_num_blocks b"

definition byte_size :: "np_bloom \<Rightarrow> nat" where
  "byte_size a = unat (bl_num_blocks a) * bl_size a * unat (bl_d a) div 8"

definition np_neuropil_bloom_intersect :: "np_bloom \<Rightarrow> np_bloom \<Rightarrow> (bool \<times> np_bloom) option" where
  "np_neuropil_bloom_intersect result to_intersect =
     (if neuropil_pair result to_intersect
         \<and> unat (bl_free_items to_intersect) + unat (bl_free_items result) \<ge> SCALE3D_FREE_ITEMS
      then do {
        (i, bs) \<leftarrow> loop_w (2 :: u16) (byte_size result) (\<lambda>k (i :: u16, bs). do {
            r \<leftarrow> rd bs k;
            t \<leftarrow> rd (bl_bitset to_intersect) k;
            let age = (if r > t then t else r);
            bs1 \<leftarrow> wr bs k age;
            (if age > 0
             then do { tc \<leftarrow> rd (bl_bitset to_intersect) (k + 1); bs2 \<leftarrow> modify (\<lambda>c. c + tc) (k + 1) bs1; Some (i + 1, bs2) }
             else Some (i, bs1))
          }) 0 (0, bl_bitset result);
        Some (i > 0, result\<lparr>bl_bitset := bs, bl_free_items := 0\<rparr>)
      }
      else None)"

text \<open>The loop of the test leaves the function at the first cell that only one filter has.\<close>

partial_function (option) intersect_test_loop :: "nat \<Rightarrow> u8 list \<Rightarrow> u8 list \<Rightarrow> u16 \<Rightarrow> u16 \<Rightarrow> u16 \<Rightarrow> bool option" where
  "intersect_test_loop bound rs ts k i j =
     (if unat k < bound
      then do {
        r \<leftarrow> rd rs (unat k);
        t \<leftarrow> rd ts (unat k);
        (i1, j1) \<leftarrow> (if r > 0 \<and> t > 0
          then do { rc \<leftarrow> rd rs (unat k + 1); tc \<leftarrow> rd ts (unat k + 1); Some (i + ucast tc, if rc \<ge> tc then j + ucast tc else j) }
          else Some (i, j));
        (if r > 0 \<and> t = 0 \<or> r = 0 \<and> t > 0 then Some False else intersect_test_loop bound rs ts (k + 2) i1 j1)
      }
      else Some (i = j))"

definition np_neuropil_bloom_intersect_test :: "np_bloom \<Rightarrow> np_bloom \<Rightarrow> bool option" where
  "np_neuropil_bloom_intersect_test result to_intersect =
     (if neuropil_pair result to_intersect
      then intersect_test_loop (byte_size result) (bl_bitset result) (bl_bitset to_intersect) 0 0 0
      else None)"

definition np_neuropil_bloom_intersect_age :: "np_bloom \<Rightarrow> np_bloom \<Rightarrow> real option" where
  "np_neuropil_bloom_intersect_age result to_intersect =
     (if neuropil_pair result to_intersect
      then do {
        (ret, i) \<leftarrow> loop_w (2 :: u16) (byte_size result) (\<lambda>k (ret, i :: u8). do {
            t \<leftarrow> rd (bl_bitset to_intersect) k;
            (if t > 0
             then do {
               tc \<leftarrow> rd (bl_bitset to_intersect) (k + 1);
               r \<leftarrow> rd (bl_bitset result) k;
               Some (if r > 0 then (if ret < real (unat r) / 256 then ret else real (unat r) / 256) else 0, i + tc)
             }
             else Some (ret, i))
          }) 0 (1, 0);
        Some (if i = 0 then 0 else ret)
      }
      else None)"

definition np_neuropil_bloom_intersect_ignore_age :: "np_bloom \<Rightarrow> np_bloom \<Rightarrow> (bool \<times> np_bloom) option" where
  "np_neuropil_bloom_intersect_ignore_age result to_intersect =
     (if neuropil_pair result to_intersect
         \<and> unat (bl_free_items to_intersect) + unat (bl_free_items result) \<ge> SCALE3D_FREE_ITEMS
      then do {
        (i, bs) \<leftarrow> loop_w (2 :: u16) (byte_size result) (\<lambda>k (i :: u16, bs). do {
            rc \<leftarrow> rd bs (k + 1);
            tc \<leftarrow> rd (bl_bitset to_intersect) (k + 1);
            bs1 \<leftarrow> wr bs (k + 1) (if rc > 0 \<and> tc > 0 then rc + tc else 0);
            Some (i + 1, bs1)
          }) 0 (0, bl_bitset result);
        Some (i > 0, result\<lparr>bl_bitset := bs, bl_free_items := 0\<rparr>)
      }
      else None)"

definition np_neuropil_bloom_union :: "np_bloom \<Rightarrow> np_bloom \<Rightarrow> np_bloom option" where
  "np_neuropil_bloom_union result to_add =
     (if neuropil_pair result to_add
         \<and> (int SCALE3D_FREE_ITEMS - int (unat (bl_free_items result))) + (int SCALE3D_FREE_ITEMS - int (unat (bl_free_items to_add)))
             \<le> int SCALE3D_FREE_ITEMS
      then do {
        bs \<leftarrow> loop_w (2 :: u16) (byte_size result) (\<lambda>k bs. do {
            r \<leftarrow> rd bs k;
            t \<leftarrow> rd (bl_bitset to_add) k;
            let temp = (ucast r + ucast t :: u16);
            bs1 \<leftarrow> wr bs k (if temp \<ge> 255 then 255 else ucast temp);
            tc \<leftarrow> rd (bl_bitset to_add) (k + 1);
            modify (\<lambda>c. c + tc) (k + 1) bs1
          }) 0 (bl_bitset result);
        Some (result\<lparr>bl_bitset := bs,
          bl_free_items := bl_free_items result + bl_free_items to_add - of_nat SCALE3D_FREE_ITEMS\<rparr>)
      }
      else None)"

definition np_neuropil_bloom_similarity :: "np_bloom \<Rightarrow> np_bloom \<Rightarrow> real option" where
  "np_neuropil_bloom_similarity first second =
     (if neuropil_pair first second \<and> unat (bl_free_items first) \<le> SCALE3D_FREE_ITEMS
         \<and> unat (bl_free_items second) \<le> SCALE3D_FREE_ITEMS
      then do {
        (union_count, intersection_count) \<leftarrow> loop_w (2 :: u16) (byte_size first) (\<lambda>k (u :: u16, i :: u16). do {
            f \<leftarrow> rd (bl_bitset first) (k + 1);
            s \<leftarrow> rd (bl_bitset second) (k + 1);
            (if f > 0 \<or> s > 0
             then let u1 = u + (if f \<ge> s then ucast f else 0);
                      u2 = u1 + (if f < s then ucast s else 0)
                  in if f > 0 \<and> s > 0
                     then let i1 = i + (if f \<ge> s then ucast s else 0);
                              i2 = i1 + (if f < s then ucast f else 0)
                          in Some (u2, i2)
                     else Some (u2, i)
             else Some (u, i))
          }) 0 (0, 0);
        Some (if union_count > 0 then real (unat intersection_count) / real (unat union_count) else 0)
      }
      else None)"

definition np_neuropil_bloom_containment :: "np_bloom \<Rightarrow> np_bloom \<Rightarrow> bool option" where
  "np_neuropil_bloom_containment first second =
     (if neuropil_pair first second \<and> unat (bl_free_items first) \<le> SCALE3D_FREE_ITEMS
         \<and> unat (bl_free_items second) \<le> SCALE3D_FREE_ITEMS
      then do {
        (second_count, first_count) \<leftarrow> loop_w (2 :: u16) (byte_size first) (\<lambda>k (sc :: u16, fc :: u16). do {
            s \<leftarrow> rd (bl_bitset second) (k + 1);
            (if s > 0
             then do { f \<leftarrow> rd (bl_bitset first) (k + 1); Some (sc + 1, fc + (if s \<le> f then 1 else 0)) }
             else Some (sc, fc))
          }) 0 (0, 0);
        Some (first_count = second_count)
      }
      else None)"

section \<open>Compression and comparison\<close>

text \<open>Four bytes for each cell that has an age and a count: the index of the cell, little endian, age and count.\<close>

definition np_neuropil_bloom_compress :: "np_bloom \<Rightarrow> u8 list option" where
  "np_neuropil_bloom_compress bloom =
     do {
       (j, out) \<leftarrow> loop_w (2 :: u16) (byte_size bloom) (\<lambda>k (j :: u16, out). do {
           age \<leftarrow> rd (bl_bitset bloom) k;
           c \<leftarrow> rd (bl_bitset bloom) (k + 1);
           Some (j + 1, if age > 0 \<and> c > 0 then out @ [ucast j, ucast (drop_bit 8 j), age, c] else out)
         }) 0 (0, []);
       Some (if length out < 32 then out @ replicate (32 - length out) 0 else out)
     }"

partial_function (option) cmp_loop :: "nat \<Rightarrow> u8 list \<Rightarrow> u8 list \<Rightarrow> u16 \<Rightarrow> int option" where
  "cmp_loop bound as bs k =
     (if unat k < bound
      then do {
        a \<leftarrow> rd as (unat k + 1);
        b \<leftarrow> rd bs (unat k + 1);
        (if a = 0 \<and> b > 0 \<or> b = 0 \<and> a > 0 then Some (-1) else cmp_loop bound as bs (k + 2))
      }
      else Some 0)"

definition np_neuropil_bloom_cmp :: "np_bloom \<Rightarrow> np_bloom \<Rightarrow> int option" where
  "np_neuropil_bloom_cmp a b =
     (if neuropil_pair a b then cmp_loop (byte_size a) (bl_bitset a) (bl_bitset b) 0 else None)"

end
