(* ===== verification/Np_Bloom_Bag.thy ===== *)
theory Np_Bloom_Bag
  imports Np_Bloom_Neuropil Np_Bloom_Cells
begin

text \<open>
  The neuropil filter of \<^verbatim>\<open>src/util/np_bloom.c\<close> as an aged bag of keys: the counts of the cells are those of a
  multiset of at most 64 keys (\<open>rep\<close>) and the ages of the cells are given beside it (\<open>rep_aged\<close>). Adding, removing
  and union are the operations of multisets on the counts; what they do to the ages decides what a check finds.
  Similarity, age of the intersection and compression are described through the counts and ages.
\<close>

section \<open>Cells\<close>

abbreviation age :: "u8 list \<Rightarrow> nat \<Rightarrow> u8" where "age bs i \<equiv> bs ! (2 * i)"

abbreviation cnt :: "u8 list \<Rightarrow> nat \<Rightarrow> u8" where "cnt bs i \<equiv> bs ! (2 * i + 1)"

definition neuro_shape :: "np_bloom \<Rightarrow> bool" where
  "neuro_shape f \<longleftrightarrow> bl_type f = neuropil_bf \<and> bl_size f = 255 \<and> bl_d f = 16 \<and> bl_num_blocks f = 4 \<and> length (bl_bitset f) = 2040"

lemma shape_sizes:
  assumes "neuro_shape f"
  shows "block_size f = 510" "byte_size f = 2040" "block_size f * unat (bl_num_blocks f) = 2040"
  using assms by (simp_all add: neuro_shape_def block_size_def byte_size_def)

lemma shape_pair: "neuro_shape f \<Longrightarrow> neuro_shape g \<Longrightarrow> neuropil_pair f g"
  by (simp add: neuro_shape_def neuropil_pair_def SCALE3D_X_def SCALE3D_Y_def SCALE3D_Z_def)

definition slots :: "np_dhkey \<Rightarrow> nat list" where
  "slots key = map (\<lambda>(k, w). k div 2 * 255 + (scale3d_pos w - 1)) (enumerate 0 (dhkey_t key))"

lemma scale3d_pos_bounds: "0 < scale3d_pos w" "scale3d_pos w - 1 < 255"
proof -
  have "unat w mod 3 + 1 \<le> 3" "unat w mod 5 + 1 \<le> 5" "unat w mod 17 + 1 \<le> 17"
    using mod_less_divisor [of 3 "unat w"] mod_less_divisor [of 5 "unat w"] mod_less_divisor [of 17 "unat w"] by linarith+
  then have "scale3d_pos w \<le> 3 * 5 * 17"
    unfolding scale3d_pos_def SCALE3D_X_def SCALE3D_Y_def SCALE3D_Z_def by (intro mult_le_mono)
  then show "0 < scale3d_pos w" "scale3d_pos w - 1 < 255" by (simp_all add: scale3d_pos_def)
qed

lemma slots_unfold:
  "slots key = (let p = \<lambda>w. scale3d_pos w - 1 in
     [p (t0 key), p (t1 key), 255 + p (t2 key), 255 + p (t3 key), 510 + p (t4 key), 510 + p (t5 key), 765 + p (t6 key), 765 + p (t7 key)])"
  by (simp add: slots_def dhkey_t_def Let_def)

lemma slots_less: "i \<in> set (slots key) \<Longrightarrow> i < 1020"
  using scale3d_pos_bounds(2) [of "t0 key"] scale3d_pos_bounds(2) [of "t1 key"] scale3d_pos_bounds(2) [of "t2 key"]
    scale3d_pos_bounds(2) [of "t3 key"] scale3d_pos_bounds(2) [of "t4 key"] scale3d_pos_bounds(2) [of "t5 key"]
    scale3d_pos_bounds(2) [of "t6 key"] scale3d_pos_bounds(2) [of "t7 key"]
  by (auto simp: slots_unfold Let_def)

lemma length_slots [simp]: "length (slots key) = 8"
  by (simp add: slots_unfold Let_def)

lemma slots_count: "count_list (slots key) i \<le> 2"
proof -
  have b: "scale3d_pos w - 1 < 255" for w by (rule scale3d_pos_bounds)
  consider "i < 255" | "255 \<le> i" "i < 510" | "510 \<le> i" "i < 765" | "765 \<le> i" by linarith
  then show ?thesis
    using b [of "t0 key"] b [of "t1 key"] b [of "t2 key"] b [of "t3 key"] b [of "t4 key"] b [of "t5 key"]
    by cases (auto simp: slots_unfold Let_def)
qed

lemma key_loop_enumerate:
  "key_loop f 510 (enumerate k ws) (k div 2 + 1) s
    = for_each (\<lambda>i. f (2 * i)) (map (\<lambda>(k, w). k div 2 * 255 + (scale3d_pos w - 1)) (enumerate k ws)) s"
proof (induction ws arbitrary: k s)
  case (Cons w ws)
  have "(if (k + 1) mod 2 = 0 then k div 2 + 1 + 1 else k div 2 + 1) = Suc k div 2 + 1" by presburger
  moreover have "(k div 2 + 1 - 1) * 510 + (scale3d_pos w - 1) * 2 = 2 * (k div 2 * 255 + (scale3d_pos w - 1))" by simp
  moreover have "key_loop f 510 (enumerate (Suc k) ws) (Suc k div 2 + 1)
      = for_each (\<lambda>i. f (2 * i)) (map (\<lambda>(k, w). k div 2 * 255 + (scale3d_pos w - 1)) (enumerate (Suc k) ws))"
    by (rule ext) (rule Cons.IH)
  ultimately show ?case
    unfolding enumerate_simps list.map key_loop.simps for_each.simps prod.case by (simp only:)
qed simp

lemma key_loop_slots: "key_loop f 510 (enumerate 0 (dhkey_t key)) 1 s = for_each (\<lambda>i. f (2 * i)) (slots key) s"
  using key_loop_enumerate [of f 0 "dhkey_t key" s] by (simp add: slots_def)

text \<open>Passes over the cells of a key, and over all cells.\<close>

lemma key_pass:
  assumes "length bs = 2 * n" "\<forall>i \<in> set is. i < n"
  shows "\<exists>bs'. for_each (\<lambda>i bs. do { bs1 \<leftarrow> modify g (2 * i) bs; modify h (2 * i + 1) bs1 }) is bs = Some bs' \<and> length bs' = 2 * n
    \<and> (\<forall>i < n. age bs' i = (g ^^ count_list is i) (age bs i) \<and> cnt bs' i = (h ^^ count_list is i) (cnt bs i))"
  using assms
proof (induction "is" arbitrary: bs)
  case (Cons i "is")
  let ?bs = "bs[2 * i := g (age bs i), 2 * i + 1 := h (cnt bs i)]"
  have i: "2 * i < length bs" "2 * i + 1 < length bs" using Cons.prems by auto
  have st: "do { bs1 \<leftarrow> modify g (2 * i) bs; modify h (2 * i + 1) bs1 } = Some ?bs" using i by simp
  from Cons.IH [of ?bs] Cons.prems obtain bs' where
    bs': "for_each (\<lambda>i bs. do { bs1 \<leftarrow> modify g (2 * i) bs; modify h (2 * i + 1) bs1 }) is ?bs = Some bs'" "length bs' = 2 * n"
      "\<forall>j < n. age bs' j = (g ^^ count_list is j) (age ?bs j) \<and> cnt bs' j = (h ^^ count_list is j) (cnt ?bs j)" by auto
  have ne: "2 * a \<noteq> Suc (2 * b)" "Suc (2 * a) \<noteq> 2 * b" for a b :: nat by presburger+
  have "age ?bs j = (if j = i then g (age bs i) else age bs j)" "cnt ?bs j = (if j = i then h (cnt bs i) else cnt bs j)" for j
    using i by (auto simp: nth_list_update ne)
  then show ?case using bs' st by (simp add: funpow_swap1)
qed simp

lemma for_each_map: "for_each f (map g xs) s = for_each (\<lambda>i. f (g i)) xs s"
  by (induction xs arbitrary: s) (auto split: bind_splits)

lemma cell_loop: "loop_w (2 :: u16) 2040 f 0 s = for_each (\<lambda>i. f (2 * i)) [0..<1020] s"
  using u16_loop_2 [of 1020 f s] by (simp add: for_each_map mult.commute del: upt_Suc upt_rec_numeral)

lemma cell_pass:
  assumes "length bs = 2 * m" "n \<le> m"
    "\<And>i cs. i < n \<Longrightarrow> length cs = length bs \<Longrightarrow> age cs i = age bs i \<Longrightarrow> cnt cs i = cnt bs i
      \<Longrightarrow> f i cs = Some (cs[2 * i := a i, 2 * i + 1 := c i])"
  shows "\<exists>bs'. for_each f [0..<n] bs = Some bs' \<and> length bs' = length bs
    \<and> (\<forall>i < m. age bs' i = (if i < n then a i else age bs i) \<and> cnt bs' i = (if i < n then c i else cnt bs i))"
  using assms(2,3)
proof (induction n)
  case (Suc n)
  then obtain bs1 where bs1: "for_each f [0..<n] bs = Some bs1" "length bs1 = length bs"
      "\<forall>i < m. age bs1 i = (if i < n then a i else age bs i) \<and> cnt bs1 i = (if i < n then c i else cnt bs i)" by auto
  have n: "2 * n < length bs1" "2 * n + 1 < length bs1" "n < m" using Suc.prems(1) assms(1) bs1(2) by auto
  let ?bs = "bs1[2 * n := a n, 2 * n + 1 := c n]"
  have "f n bs1 = Some ?bs" using Suc.prems(2) bs1(2,3) n(3) by simp
  moreover have ne: "2 * x \<noteq> Suc (2 * y)" "Suc (2 * x) \<noteq> 2 * y" for x y :: nat by presburger+
  have "age ?bs j = (if j = n then a n else age bs1 j)" "cnt ?bs j = (if j = n then c n else cnt bs1 j)" for j
    using n by (auto simp: nth_list_update ne)
  then have "\<forall>i < m. age ?bs i = (if i < Suc n then a i else age bs i) \<and> cnt ?bs i = (if i < Suc n then c i else cnt bs i)"
    using bs1(3) less_Suc_eq by auto
  ultimately show ?case using bs1(1,2) by (auto simp: for_each_append)
qed simp

lemma for_each_fold: "(\<And>i s. i \<in> set xs \<Longrightarrow> f i s = Some (g i s)) \<Longrightarrow> for_each f xs s = Some (fold g xs s)"
  by (induction xs arbitrary: s) auto

section \<open>The bag of keys\<close>

text \<open>\<open>rep\<close> is about the counts of the cells only, \<open>rep_aged\<close> about counts and ages.\<close>

definition hits :: "np_dhkey multiset \<Rightarrow> nat \<Rightarrow> nat" where
  "hits M i = sum_mset (image_mset (\<lambda>key. count_list (slots key) i) M)"

definition rep :: "np_bloom \<Rightarrow> np_dhkey multiset \<Rightarrow> bool" where
  "rep f M \<longleftrightarrow> neuro_shape f \<and> size M + unat (bl_free_items f) = 64
     \<and> (\<forall>i < 1020. cnt (bl_bitset f) i = of_nat (hits M i))"

definition rep_aged :: "np_bloom \<Rightarrow> np_dhkey multiset \<Rightarrow> (nat \<Rightarrow> u8) \<Rightarrow> bool" where
  "rep_aged f M A \<longleftrightarrow> rep f M \<and> (\<forall>i < 1020. age (bl_bitset f) i = A i)"

lemma hits_simps [simp]:
  "hits {#} i = 0" "hits (add_mset k M) i = count_list (slots k) i + hits M i" "hits (M + N) i = hits M i + hits N i"
  by (simp_all add: hits_def)

lemma hits_le: "hits M i \<le> 2 * size M"
proof (induction M)
  case (add k M)
  then show ?case using slots_count [of k i] by simp
qed simp

lemma hits_mono: "N \<subseteq># M \<Longrightarrow> hits N i \<le> hits M i"
  by (metis hits_simps(3) le_add1 subset_mset.add_diff_inverse)

lemma rep_cnt:
  assumes "rep f M" "i < 1020"
  shows "unat (cnt (bl_bitset f) i) = hits M i"
proof -
  have "hits M i \<le> 128" using hits_le [of M i] assms(1) by (simp add: rep_def)
  then have "hits M i < 2 ^ LENGTH(8)" by simp
  then show ?thesis using assms by (simp add: rep_def unat_of_nat_fit)
qed

lemma rep_shape: "rep f M \<Longrightarrow> neuro_shape f"
  by (simp add: rep_def)

lemma neuropil_check_spec:
  assumes "neuro_shape f"
  shows "np_neuropil_bloom_check f key
    = Some (\<forall>i \<in> set (slots key). age (bl_bitset f) i \<noteq> 0 \<and> cnt (bl_bitset f) i \<noteq> 0)"
proof -
  have len: "length (bl_bitset f) = 2040" using assms by (simp add: neuro_shape_def)
  have "for_each (\<lambda>i ret. do { a \<leftarrow> rd (bl_bitset f) (2 * i); c \<leftarrow> rd (bl_bitset f) (2 * i + 1); Some (if a = 0 \<or> c = 0 then False else ret) }) is ret
      = Some (ret \<and> (\<forall>i \<in> set is. age (bl_bitset f) i \<noteq> 0 \<and> cnt (bl_bitset f) i \<noteq> 0))" if "\<forall>i \<in> set is. i < 1020" for "is" ret
    using that
  proof (induction "is" arbitrary: ret)
    case (Cons i "is")
    then show ?case using len by auto
  qed simp
  moreover have "\<forall>i \<in> set (slots key). i < 1020" using slots_less by blast
  ultimately show ?thesis unfolding np_neuropil_bloom_check_def shape_sizes(1) [OF assms] key_loop_slots by simp
qed

lemma funpow_plus: "((\<lambda>c. c + d) ^^ n) (c :: u8) = c + of_nat n * d"
  by (induction n) (simp_all add: algebra_simps)

lemma funpow_or: "((\<lambda>a. a OR m) ^^ n) (a :: u8) = (if n = 0 then a else a OR m)"
  by (induction n) (auto simp: or.assoc)

lemma neuropil_add_spec:
  assumes "rep f M" "bl_free_items f \<noteq> 0"
  shows "\<exists>f'. np_neuropil_bloom_add f key = Some f' \<and> rep f' (add_mset key M) \<and> bl_free_items f' = bl_free_items f - 1
    \<and> (\<forall>i < 1020. age (bl_bitset f') i = (if i \<in> set (slots key) then age (bl_bitset f) i OR 0x80 else age (bl_bitset f) i))"
proof -
  note sh = rep_shape [OF assms(1)]
  have len: "length (bl_bitset f) = 2 * 1020" and d: "bl_d f = 16" using sh by (simp_all add: neuro_shape_def)
  have m: "push_bit (unat (bl_d f) div 2 - 1) 1 = (0x80 :: u8)" by (simp add: d)
  obtain bs where bs: "for_each (\<lambda>i bs. do { bs1 \<leftarrow> modify (\<lambda>a. a OR 0x80) (2 * i) bs; modify (\<lambda>c. c + 1) (2 * i + 1) bs1 })
      (slots key) (bl_bitset f) = Some bs" "length bs = 2 * 1020"
      "\<forall>i < 1020. age bs i = ((\<lambda>a. a OR 0x80) ^^ count_list (slots key) i) (age (bl_bitset f) i)
        \<and> cnt bs i = ((\<lambda>c. c + 1) ^^ count_list (slots key) i) (cnt (bl_bitset f) i)"
    using key_pass [OF len, of "slots key"] slots_less by blast
  let ?f = "f\<lparr>bl_bitset := bs, bl_free_items := bl_free_items f - 1\<rparr>"
  have "np_neuropil_bloom_add f key = Some ?f"
    unfolding np_neuropil_bloom_add_def shape_sizes(1) [OF sh] key_loop_slots m using assms(2) bs(1) by simp
  moreover have "cnt bs i = of_nat (hits (add_mset key M) i)" if "i < 1020" for i
    using bs(3) that assms(1) by (simp add: rep_def funpow_plus add.commute)
  moreover have "size (add_mset key M) + unat (bl_free_items f - 1) = 64"
  proof -
    have "0 < unat (bl_free_items f)" using assms(2) by (simp add: unat_gt_0)
    then show ?thesis using assms by (simp add: rep_def unat_minus_one)
  qed
  moreover have "neuro_shape ?f" using sh bs(2) by (simp add: neuro_shape_def)
  moreover have "count_list (slots key) i = 0 \<longleftrightarrow> i \<notin> set (slots key)" for i by (rule count_list_0_iff)
  ultimately show ?thesis using bs(3) by (simp add: rep_def funpow_or)
qed

lemma funpow_drop: "(drop_bit (Suc 0) ^^ n) (a :: u8) = drop_bit n a"
  by (induction n) (simp_all add: drop_bit_drop_bit)

lemma neuropil_remove_spec:
  assumes "rep f M" "bl_free_items f \<noteq> 0" "key \<in># M"
  shows "\<exists>f'. np_neuropil_bloom_remove f key = Some f' \<and> rep f' (M - {#key#}) \<and> bl_free_items f' = bl_free_items f + 1
    \<and> (\<forall>i < 1020. age (bl_bitset f') i = drop_bit (count_list (slots key) i) (age (bl_bitset f) i))"
proof -
  note sh = rep_shape [OF assms(1)]
  have len: "length (bl_bitset f) = 2 * 1020" using sh by (simp add: neuro_shape_def)
  obtain bs where bs: "for_each (\<lambda>i bs. do { bs1 \<leftarrow> modify (\<lambda>a. drop_bit 1 a) (2 * i) bs; modify (\<lambda>c. c - 1) (2 * i + 1) bs1 })
      (slots key) (bl_bitset f) = Some bs" "length bs = 2 * 1020"
      "\<forall>i < 1020. age bs i = ((\<lambda>a. drop_bit 1 a) ^^ count_list (slots key) i) (age (bl_bitset f) i)
        \<and> cnt bs i = ((\<lambda>c. c - 1) ^^ count_list (slots key) i) (cnt (bl_bitset f) i)"
    using key_pass [OF len, of "slots key"] slots_less by blast
  let ?f = "f\<lparr>bl_bitset := bs, bl_free_items := bl_free_items f + 1\<rparr>"
  have "np_neuropil_bloom_remove f key = Some ?f"
    unfolding np_neuropil_bloom_remove_def shape_sizes(1) [OF sh] key_loop_slots using assms(2) bs(1) by simp
  moreover obtain N where M: "M = add_mset key N" using assms(3) by (metis insert_DiffM)
  moreover have "cnt bs i = of_nat (hits N i)" if "i < 1020" for i
  proof -
    have "cnt bs i = of_nat (count_list (slots key) i + hits N i) - of_nat (count_list (slots key) i)"
      using bs(3) that assms(1) funpow_plus [where d = "- 1"] by (simp add: rep_def M)
    then show ?thesis by simp
  qed
  moreover have "size N + unat (bl_free_items f + 1) = 64"
  proof -
    have "size N + unat (bl_free_items f) + 1 = 64" using assms(1) by (simp add: rep_def M)
    moreover from this have "unat (bl_free_items f + 1) = unat (bl_free_items f) + 1" by (simp add: unat_add_lem [THEN iffD1])
    ultimately show ?thesis by simp
  qed
  moreover have "neuro_shape ?f" using sh bs(2) by (simp add: neuro_shape_def)
  ultimately show ?thesis using bs(3) by (simp add: rep_def funpow_drop)
qed

lemma rep_zero: "neuro_shape f \<Longrightarrow> bl_free_items f = 64 \<Longrightarrow> bl_bitset f = replicate 2040 0 \<Longrightarrow> rep f {#}"
  unfolding rep_def by (auto simp del: replicate.simps)

lemma rep_create: "rep np_neuropil_bloom_create {#}"
  by (rule rep_zero) (simp_all add: neuro_shape_def np_neuropil_bloom_create_def SCALE3D_X_def SCALE3D_Y_def SCALE3D_Z_def
      SCALE3D_FREE_ITEMS_def)

lemma create_free: "bl_free_items np_neuropil_bloom_create = 64"
  by (simp add: np_neuropil_bloom_create_def SCALE3D_FREE_ITEMS_def)

lemma neuropil_clear_spec:
  assumes "neuro_shape f"
  shows "\<exists>f'. np_neuropil_bloom_clear f = Some f' \<and> rep f' {#} \<and> (\<forall>i < 1020. age (bl_bitset f') i = 0)"
proof -
  have "memset (bl_bitset f) 0 0 2040 = Some (replicate 2040 0)" using assms by (simp add: memset_def neuro_shape_def)
  then have "np_neuropil_bloom_clear f = Some (f\<lparr>bl_type := neuropil_bf, bl_size := 255, bl_d := 16, bl_p := 0, bl_num_blocks := 4,
      bl_bitset := replicate 2040 0, bl_free_items := 64\<rparr>)"
    by (simp add: np_neuropil_bloom_clear_def SCALE3D_X_def SCALE3D_Y_def SCALE3D_Z_def SCALE3D_FREE_ITEMS_def del: replicate.simps)
  moreover have "rep (f\<lparr>bl_type := neuropil_bf, bl_size := 255, bl_d := 16, bl_p := 0, bl_num_blocks := 4,
      bl_bitset := replicate 2040 0, bl_free_items := 64\<rparr>) {#}"
    by (rule rep_zero) (simp_all add: neuro_shape_def)
  ultimately show ?thesis by (auto simp del: replicate.simps)
qed

definition sat_age :: "u8 \<Rightarrow> u8 \<Rightarrow> u8" where
  "sat_age a b = (if (ucast a + ucast b :: u16) \<ge> 255 then 255 else ucast (ucast a + ucast b :: u16))"

lemma sat_age_nonzero: "a \<noteq> 0 \<or> b \<noteq> 0 \<Longrightarrow> sat_age a b \<noteq> 0"
proof -
  assume nz: "a \<noteq> 0 \<or> b \<noteq> 0"
  let ?t = "ucast a + ucast b :: u16"
  have ab: "unat a < 2 ^ LENGTH(8)" "unat b < 2 ^ LENGTH(8)" by (rule unsigned_less)+
  then have "unat (ucast a :: u16) = unat a" "unat (ucast b :: u16) = unat b"
    by (simp_all add: unsigned_ucast_eq take_bit_nat_eq_self)
  then have t: "unat ?t = unat a + unat b" using ab unat_add_lem [of "ucast a :: u16" "ucast b"] by simp
  show "sat_age a b \<noteq> 0"
  proof (cases "?t \<ge> 255")
    case False
    then have "unat ?t < 255" by (simp add: word_le_nat_alt)
    then have "unat (ucast ?t :: u8) = unat a + unat b" using t by (simp add: unsigned_ucast_eq take_bit_nat_eq_self)
    then have "unat (sat_age a b) = unat a + unat b" using False by (simp add: sat_age_def)
    moreover have "0 < unat a + unat b" using nz by (auto simp: unat_gt_0)
    ultimately show ?thesis by auto
  qed (simp add: sat_age_def)
qed

lemma neuropil_union_spec:
  assumes "rep f M" "rep g N" "size M + size N \<le> 64"
  shows "\<exists>f'. np_neuropil_bloom_union f g = Some f' \<and> rep f' (M + N)
    \<and> (\<forall>i < 1020. age (bl_bitset f') i = sat_age (age (bl_bitset f) i) (age (bl_bitset g) i))"
proof -
  note sh = rep_shape [OF assms(1)] rep_shape [OF assms(2)]
  have len: "length (bl_bitset f) = 2 * 1020" "length (bl_bitset g) = 2 * 1020" using sh by (simp_all add: neuro_shape_def)
  let ?step = "\<lambda>k bs. do { r \<leftarrow> rd bs k; t \<leftarrow> rd (bl_bitset g) k; let temp = (ucast r + ucast t :: u16);
      bs1 \<leftarrow> wr bs k (if temp \<ge> 255 then 255 else ucast temp); tc \<leftarrow> rd (bl_bitset g) (k + 1); modify (\<lambda>c. c + tc) (k + 1) bs1 }"
  have "?step (2 * i) cs = Some (cs[2 * i := sat_age (age (bl_bitset f) i) (age (bl_bitset g) i),
      2 * i + 1 := cnt (bl_bitset f) i + cnt (bl_bitset g) i])"
    if "i < 1020" "length cs = length (bl_bitset f)" "age cs i = age (bl_bitset f) i" "cnt cs i = cnt (bl_bitset f) i" for i cs
    using that len by (simp add: sat_age_def Let_def)
  then obtain bs where bs: "for_each (\<lambda>i. ?step (2 * i)) [0..<1020] (bl_bitset f) = Some bs" "length bs = length (bl_bitset f)"
      "\<forall>i < 1020. age bs i = sat_age (age (bl_bitset f) i) (age (bl_bitset g) i) \<and> cnt bs i = cnt (bl_bitset f) i + cnt (bl_bitset g) i"
    using cell_pass [OF len(1) order_refl, where f = "\<lambda>i. ?step (2 * i)" and a = "\<lambda>i. sat_age (age (bl_bitset f) i) (age (bl_bitset g) i)"
        and c = "\<lambda>i. cnt (bl_bitset f) i + cnt (bl_bitset g) i"] by auto
  let ?free = "bl_free_items f + bl_free_items g - of_nat SCALE3D_FREE_ITEMS"
  have m: "size M + unat (bl_free_items f) = 64" "size N + unat (bl_free_items g) = 64" using assms(1,2) by (simp_all add: rep_def)
  have "?free = of_nat (unat (bl_free_items f) + unat (bl_free_items g) - 64)"
    using m assms(3) by (simp add: SCALE3D_FREE_ITEMS_def of_nat_diff)
  moreover have "unat (bl_free_items f) + unat (bl_free_items g) - 64 < 2 ^ LENGTH(16)" using m by simp
  ultimately have free: "unat ?free = unat (bl_free_items f) + unat (bl_free_items g) - 64" by (metis unat_of_nat_fit)
  have "(int 64 - int (unat (bl_free_items f))) + (int 64 - int (unat (bl_free_items g))) \<le> int 64"
    using m assms(3) by linarith
  then have cond: "neuropil_pair f g \<and> (int SCALE3D_FREE_ITEMS - int (unat (bl_free_items f)))
      + (int SCALE3D_FREE_ITEMS - int (unat (bl_free_items g))) \<le> int SCALE3D_FREE_ITEMS"
    using shape_pair [OF sh] by (simp only: SCALE3D_FREE_ITEMS_def simp_thms)
  have "np_neuropil_bloom_union f g = Some (f\<lparr>bl_bitset := bs, bl_free_items := ?free\<rparr>)"
    unfolding np_neuropil_bloom_union_def shape_sizes(2) [OF sh(1)] cell_loop bs(1) if_P [OF cond] by simp
  moreover have "rep (f\<lparr>bl_bitset := bs, bl_free_items := ?free\<rparr>) (M + N)"
    using assms bs(2,3) free m by (auto simp: rep_def neuro_shape_def)
  ultimately show ?thesis using bs(3) by auto
qed

section \<open>Sums over the cells\<close>

lemma sum_hits: "(\<Sum>i < 1020. hits M i) = 8 * size M"
proof (induction M)
  case (add k M)
  have "(\<Sum>i \<in> {..<1020}. count_list (slots k) i) = length (slots k)"
    using slots_less by (intro sum_count_set) auto
  then show ?case using add by (simp add: sum.distrib)
qed simp

lemma fold_sums:
  "fold (\<lambda>i (u :: 'a :: len word, v :: 'b :: len word). (u + of_nat (a i), v + of_nat (b i))) [0..<n] (u, v)
    = (u + of_nat (\<Sum>i < n. a i), v + of_nat (\<Sum>i < n. b i))"
  by (induction n) (simp_all add: algebra_simps)

lemma of_nat_eq_fit:
  "m < 2 ^ LENGTH('w::len) \<Longrightarrow> n < 2 ^ LENGTH('w) \<Longrightarrow> (of_nat m :: 'w word) = of_nat n \<longleftrightarrow> m = n"
  by (metis unat_of_nat_fit)

lemma neuropil_containment_spec:
  assumes "rep f M" "rep g N"
  shows "np_neuropil_bloom_containment f g = Some (\<forall>i < 1020. hits N i \<le> hits M i)"
proof -
  note sh = rep_shape [OF assms(1)] rep_shape [OF assms(2)]
  have len: "length (bl_bitset f) = 2 * 1020" "length (bl_bitset g) = 2 * 1020" using sh by (simp_all add: neuro_shape_def)
  let ?a = "\<lambda>i. if hits N i > 0 then 1 else 0 :: nat" and ?b = "\<lambda>i. if hits N i > 0 \<and> hits N i \<le> hits M i then 1 else 0 :: nat"
  have c: "cnt (bl_bitset g) i > 0 \<longleftrightarrow> hits N i > 0" "cnt (bl_bitset g) i \<le> cnt (bl_bitset f) i \<longleftrightarrow> hits N i \<le> hits M i"
    if "i < 1020" for i
    using rep_cnt [OF assms(1) that] rep_cnt [OF assms(2) that] by (simp_all add: word_less_nat_alt word_le_nat_alt)
  have "for_each (\<lambda>i (sc :: u16, fc :: u16). do { s \<leftarrow> rd (bl_bitset g) (2 * i + 1);
      (if s > 0 then do { f \<leftarrow> rd (bl_bitset f) (2 * i + 1); Some (sc + 1, fc + (if s \<le> f then 1 else 0)) } else Some (sc, fc)) })
      [0..<1020] (0, 0)
    = Some (fold (\<lambda>i (u, v). (u + of_nat (?a i), v + of_nat (?b i))) [0..<1020] (0, 0))"
    using len c by (intro for_each_fold) auto
  then have res: "np_neuropil_bloom_containment f g
      = Some ((of_nat (\<Sum>i < 1020. ?b i) :: u16) = of_nat (\<Sum>i < 1020. ?a i))"
    unfolding np_neuropil_bloom_containment_def shape_sizes(2) [OF sh(1)] cell_loop fold_sums
    using shape_pair [OF sh] assms by (simp add: rep_def SCALE3D_FREE_ITEMS_def)
  have le: "(\<Sum>i < 1020. ?b i) \<le> (\<Sum>i < 1020. ?a i)" "(\<Sum>i < 1020. ?a i) \<le> (\<Sum>i < (1020 :: nat). 1)" by (intro sum_mono; simp)+
  then have small: "(\<Sum>i < 1020. ?a i) < 2 ^ LENGTH(16)" "(\<Sum>i < 1020. ?b i) < 2 ^ LENGTH(16)" by simp_all
  have "(of_nat (\<Sum>i < 1020. ?b i) :: u16) = of_nat (\<Sum>i < 1020. ?a i) \<longleftrightarrow> (\<Sum>i < 1020. ?b i) = (\<Sum>i < 1020. ?a i)"
    using small(2,1) by (rule of_nat_eq_fit)
  also have "\<dots> \<longleftrightarrow> (\<forall>i < 1020. ?b i = ?a i)"
  proof (intro iffI allI impI)
    fix i :: nat assume eq: "(\<Sum>i < 1020. ?b i) = (\<Sum>i < 1020. ?a i)" "i < 1020"
    show "?b i = ?a i" by (rule sum_mono_inv [OF eq(1)]) (use eq(2) in simp_all)
  qed simp
  also have "\<dots> \<longleftrightarrow> (\<forall>i < 1020. hits N i \<le> hits M i)" by (auto split: if_splits)
  finally show ?thesis using res by simp
qed

lemma similarity_cell:
  fixes x y :: u8 and u v :: u16
  assumes "unat x = m" "unat y = n"
  shows "(if x > 0 \<or> y > 0 then let u1 = u + (if x \<ge> y then ucast x else 0); u2 = u1 + (if x < y then ucast y else 0)
         in if x > 0 \<and> y > 0 then let v1 = v + (if x \<ge> y then ucast y else 0); v2 = v1 + (if x < y then ucast x else 0) in Some (u2, v2)
            else Some (u2, v)
       else Some (u, v)) = Some (u + of_nat (max m n), v + of_nat (min m n))"
proof -
  have c: "x > 0 \<longleftrightarrow> m > 0" "y > 0 \<longleftrightarrow> n > 0" "x \<ge> y \<longleftrightarrow> n \<le> m" "x < y \<longleftrightarrow> m < n"
    using assms by (simp_all add: word_less_nat_alt word_le_nat_alt)
  have u: "ucast x = (of_nat m :: u16)" "ucast y = (of_nat n :: u16)" unfolding assms [symmetric] by simp_all
  show ?thesis unfolding c u Let_def by (auto simp: max_def min_def)
qed

lemma neuropil_similarity_spec:
  assumes "rep f M" "rep g N"
  shows "np_neuropil_bloom_similarity f g
    = Some (real (\<Sum>i < 1020. min (hits M i) (hits N i)) / real (\<Sum>i < 1020. max (hits M i) (hits N i)))"
proof -
  note sh = rep_shape [OF assms(1)] rep_shape [OF assms(2)]
  have len: "length (bl_bitset f) = 2 * 1020" "length (bl_bitset g) = 2 * 1020" using sh by (simp_all add: neuro_shape_def)
  let ?a = "\<lambda>i. max (hits M i) (hits N i)" and ?b = "\<lambda>i. min (hits M i) (hits N i)"
  let ?step = "\<lambda>i (u :: u16, v :: u16). do { x \<leftarrow> rd (bl_bitset f) (2 * i + 1); y \<leftarrow> rd (bl_bitset g) (2 * i + 1);
      (if x > 0 \<or> y > 0 then let u1 = u + (if x \<ge> y then ucast x else 0); u2 = u1 + (if x < y then ucast y else 0)
         in if x > 0 \<and> y > 0 then let v1 = v + (if x \<ge> y then ucast y else 0); v2 = v1 + (if x < y then ucast x else 0) in Some (u2, v2)
            else Some (u2, v)
       else Some (u, v)) }"
  have "?step i s = Some (case s of (u, v) \<Rightarrow> (u + of_nat (?a i), v + of_nat (?b i)))" if "i < 1020" for i s
  proof -
    have "rd (bl_bitset f) (2 * i + 1) = Some (cnt (bl_bitset f) i)" "rd (bl_bitset g) (2 * i + 1) = Some (cnt (bl_bitset g) i)"
      using len that by simp_all
    with similarity_cell [OF rep_cnt [OF assms(1) that] rep_cnt [OF assms(2) that]] show ?thesis
      by (cases s) (simp only: prod.case bind.simps)
  qed
  then have "for_each ?step [0..<1020] (0, 0) = Some (fold (\<lambda>i (u, v). (u + of_nat (?a i), v + of_nat (?b i))) [0..<1020] (0, 0))"
    by (intro for_each_fold) simp
  then have res: "np_neuropil_bloom_similarity f g = Some (if (of_nat (\<Sum>i < 1020. ?a i) :: u16) > 0
      then real (unat (of_nat (\<Sum>i < 1020. ?b i) :: u16)) / real (unat (of_nat (\<Sum>i < 1020. ?a i) :: u16)) else 0)"
    unfolding np_neuropil_bloom_similarity_def shape_sizes(2) [OF sh(1)] cell_loop fold_sums
    using shape_pair [OF sh] assms by (simp add: rep_def SCALE3D_FREE_ITEMS_def)
  have "(\<Sum>i < 1020. ?a i) \<le> (\<Sum>i < 1020. hits M i + hits N i)" by (intro sum_mono) simp
  also have "\<dots> = 8 * size M + 8 * size N" by (simp add: sum.distrib sum_hits)
  also have "\<dots> \<le> 1024" using assms by (simp add: rep_def)
  finally have a: "(\<Sum>i < 1020. ?a i) < 2 ^ LENGTH(16)" by simp
  moreover have "(\<Sum>i < 1020. ?b i) \<le> (\<Sum>i < 1020. ?a i)" by (intro sum_mono) simp
  ultimately have b: "(\<Sum>i < 1020. ?b i) < 2 ^ LENGTH(16)" by simp
  show ?thesis unfolding res word_less_nat_alt unat_of_nat_fit [OF a] unat_of_nat_fit [OF b] by simp
qed





section \<open>Compression\<close>

definition visible :: "u8 list \<Rightarrow> nat list" where
  "visible bs = filter (\<lambda>i. age bs i > 0 \<and> cnt bs i > 0) [0..<1020]"

definition entry :: "u8 list \<Rightarrow> nat \<Rightarrow> u8 list" where
  "entry bs i = [ucast (of_nat i :: u16), ucast (drop_bit 8 (of_nat i :: u16)), age bs i, cnt bs i]"

lemma neuropil_compress_spec:
  assumes "neuro_shape f"
  shows "np_neuropil_bloom_compress f = Some (let out = concat (map (entry (bl_bitset f)) (visible (bl_bitset f)))
    in out @ replicate (32 - length out) 0)"
proof -
  let ?bs = "bl_bitset f"
  have len: "length ?bs = 2 * 1020" using assms by (simp add: neuro_shape_def)
  let ?step = "\<lambda>i (j :: u16, out). do { a \<leftarrow> rd ?bs (2 * i); c \<leftarrow> rd ?bs (2 * i + 1);
      Some (j + 1, if a > 0 \<and> c > 0 then out @ [ucast j, ucast (drop_bit 8 j), a, c] else out) }"
  have "for_each ?step [0..<n] (0, []) = Some (of_nat n, concat (map (entry ?bs) (filter (\<lambda>i. age ?bs i > 0 \<and> cnt ?bs i > 0) [0..<n])))"
    if "n \<le> 1020" for n
    using that
  proof (induction n)
    case (Suc n)
    have "rd ?bs (2 * n) = Some (age ?bs n)" "rd ?bs (2 * n + 1) = Some (cnt ?bs n)" using len Suc.prems by simp_all
    then show ?case using Suc by (simp add: for_each_append entry_def add.commute)
  qed simp
  from this [OF order_refl] show ?thesis
    unfolding np_neuropil_bloom_compress_def shape_sizes(2) [OF assms] cell_loop visible_def
    by (simp add: Let_def del: upt_rec_numeral)
qed

text \<open>Reading the entries back.\<close>

fun entries :: "u8 list \<Rightarrow> (u8 \<times> u8 \<times> u8 \<times> u8) list" where
  "entries (a # b # c # d # xs) = (if d = 0 then [] else (a, b, c, d) # entries xs)"
| "entries _ = []"

lemma entries_zero [simp]: "entries (replicate n 0) = []"
proof (cases "4 \<le> n")
  case True
  then obtain m where "n = 4 + m" by (blast dest: le_Suc_ex)
  then show ?thesis by (simp add: numeral_eq_Suc)
next
  case False
  then consider "n = 0" | "n = 1" | "n = 2" | "n = 3" by linarith
  then show ?thesis by cases (simp_all add: numeral_eq_Suc)
qed

lemma entries_concat:
  "\<forall>i \<in> set is. cnt bs i \<noteq> 0 \<Longrightarrow> entries (concat (map (entry bs) is) @ replicate n 0)
    = map (\<lambda>i. (ucast (of_nat i :: u16), ucast (drop_bit 8 (of_nat i :: u16)), age bs i, cnt bs i)) is"
  by (induction "is") (simp_all add: entry_def)

lemma ratio_le_one: "b \<le> a \<Longrightarrow> real b / real a \<le> 1"
  by (cases "a = 0") (simp_all add: divide_le_eq_1)

lemma or_top_nonzero: "(v :: u8) OR 0x80 \<noteq> 0"
proof -
  have "bit (v OR 0x80) 7" by (simp add: bit_or_iff)
  then show ?thesis by (metis bit_0_eq bot_apply bot_bool_def)
qed

interpretation neuro: bloom_filter "\<lambda>f. \<exists>M. rep f M" np_neuropil_bloom_add np_neuropil_bloom_check "\<lambda>f. unat (bl_free_items f)"
proof
  fix f key
  assume f: "\<exists>M. rep f M" "0 < unat (bl_free_items f)"
  then obtain M where M: "rep f M" by blast
  have nz: "bl_free_items f \<noteq> 0" using f(2) by auto
  from neuropil_add_spec [OF M nz, of key] obtain f' where
    f': "np_neuropil_bloom_add f key = Some f'" "rep f' (add_mset key M)" "bl_free_items f' = bl_free_items f - 1"
      "\<forall>i < 1020. age (bl_bitset f') i = (if i \<in> set (slots key) then age (bl_bitset f) i OR 0x80 else age (bl_bitset f) i)" by blast
  note or = or_top_nonzero
  have cnt': "cnt (bl_bitset f') i \<noteq> 0" if "i < 1020" "i \<in> set (slots key) \<or> cnt (bl_bitset f) i \<noteq> 0" for i
  proof -
    have "0 < hits (add_mset key M) i"
    proof (cases "i \<in> set (slots key)")
      case True
      then have "count_list (slots key) i \<noteq> 0" by (simp add: count_list_0_iff)
      then show ?thesis by simp
    next
      case False
      then have "0 < unat (cnt (bl_bitset f) i)" using that(2) by (simp add: unat_gt_0)
      then show ?thesis using rep_cnt [OF M that(1)] by simp
    qed
    then show ?thesis using rep_cnt [OF f'(2) that(1)] by auto
  qed
  have "np_neuropil_bloom_check f' key = Some True"
    unfolding neuropil_check_spec [OF rep_shape [OF f'(2)]] using f'(4) or cnt' slots_less [of _ key] by auto
  moreover have "np_neuropil_bloom_check f' j = Some True" if "np_neuropil_bloom_check f j = Some True" for j
    using that unfolding neuropil_check_spec [OF rep_shape [OF f'(2)]] neuropil_check_spec [OF rep_shape [OF M]]
    using f'(4) or cnt' slots_less [of _ j] by auto
  moreover have "unat (bl_free_items f) \<le> Suc (unat (bl_free_items f'))" using f'(3) nz by (simp add: unat_minus_one)
  ultimately show "\<exists>f'. np_neuropil_bloom_add f key = Some f' \<and> (\<exists>M. rep f' M) \<and> unat (bl_free_items f) \<le> Suc (unat (bl_free_items f'))
      \<and> np_neuropil_bloom_check f' key = Some True
      \<and> (\<forall>j. np_neuropil_bloom_check f j = Some True \<longrightarrow> np_neuropil_bloom_check f' j = Some True)" using f'(1,2) by blast
qed

section \<open>Properties\<close>

text \<open>What a filter answers when asked for containment of another one.\<close>

lemma containment_cases:
  assumes "rep f M" "rep g N"
  shows "N \<subseteq># M \<Longrightarrow> np_neuropil_bloom_containment f g = Some True"
    "size M < size N \<Longrightarrow> np_neuropil_bloom_containment f g = Some False"
proof -
  note spec = neuropil_containment_spec [OF assms]
  show "np_neuropil_bloom_containment f g = Some True" if "N \<subseteq># M" using spec hits_mono [OF that] by simp
  show "np_neuropil_bloom_containment f g = Some False" if lt: "size M < size N"
  proof (rule ccontr)
    assume "np_neuropil_bloom_containment f g \<noteq> Some False"
    then have "(\<Sum>i < 1020. hits N i) \<le> (\<Sum>i < 1020. hits M i)" using spec by (intro sum_mono) auto
    then show False using lt by (simp add: sum_hits)
  qed
qed

text \<open>
  C12: the neuropil filter implements an aged bag of at most 64 keys: the counts of its cells are those of the bag
  and each cell has an age. A key is found exactly if all its cells are counted and none has lost its age. Adding
  inserts the key and sets the top bit of the ages of its cells; removing takes one occurrence of a key of the bag
  out and halves the ages of its cells, once for each word of the key that falls on the cell; union adds the bags
  and adds the ages up to 255, and is refused when there are more than 64 keys together; clearing empties the bag
  and all ages. A filter contains another one exactly if no cell of the other is counted more often: it does if
  the bag contains the other bag, and does not if the other bag is larger. All accesses stay inside of the array
  and no counter wraps around. A full filter refuses to add and to remove.
\<close>

theorem neuropil_bloom_refines:
  assumes "rep_aged f M A" "rep_aged g N B"
  shows "np_neuropil_bloom_check f key = Some (\<forall>i \<in> set (slots key). A i \<noteq> 0 \<and> 0 < hits M i)
    \<and> (if size M = 64 then np_neuropil_bloom_add f key = None \<and> np_neuropil_bloom_remove f key = None
      else (\<exists>f'. np_neuropil_bloom_add f key = Some f'
             \<and> rep_aged f' (add_mset key M) (\<lambda>i. if i \<in> set (slots key) then A i OR 0x80 else A i))
         \<and> (key \<in># M \<longrightarrow> (\<exists>f'. np_neuropil_bloom_remove f key = Some f'
             \<and> rep_aged f' (M - {#key#}) (\<lambda>i. drop_bit (count_list (slots key) i) (A i)))))
    \<and> (if size M + size N \<le> 64 then \<exists>f'. np_neuropil_bloom_union f g = Some f' \<and> rep_aged f' (M + N) (\<lambda>i. sat_age (A i) (B i))
        else np_neuropil_bloom_union f g = None)
    \<and> np_neuropil_bloom_containment f g = Some (\<forall>i < 1020. hits N i \<le> hits M i)
    \<and> (N \<subseteq># M \<longrightarrow> np_neuropil_bloom_containment f g = Some True)
    \<and> (size M < size N \<longrightarrow> np_neuropil_bloom_containment f g = Some False)
    \<and> (\<exists>f'. np_neuropil_bloom_clear f = Some f' \<and> rep_aged f' {#} (\<lambda>_. 0))"
proof -
  note r = assms [unfolded rep_aged_def]
  have f: "rep f M" and g: "rep g N" using r by simp_all
  have m: "size M + unat (bl_free_items f) = 64" "size N + unat (bl_free_items g) = 64" using f g by (simp_all add: rep_def)
  have full: "size M = 64 \<longleftrightarrow> bl_free_items f = 0" using m(1) by (metis add.right_neutral add_left_cancel unat_0 unat_eq_zero)
  have refused: "np_neuropil_bloom_union f g = None" if "\<not> size M + size N \<le> 64"
  proof -
    have "\<not> (int 64 - int (unat (bl_free_items f))) + (int 64 - int (unat (bl_free_items g))) \<le> int 64" using m that by linarith
    then show ?thesis unfolding np_neuropil_bloom_union_def SCALE3D_FREE_ITEMS_def by (simp only: simp_thms if_False)
  qed
  have "cnt (bl_bitset f) i \<noteq> 0 \<longleftrightarrow> 0 < hits M i" if "i < 1020" for i
    using rep_cnt [OF f that] by (metis neq0_conv unat_eq_zero)
  then have check: "np_neuropil_bloom_check f key = Some (\<forall>i \<in> set (slots key). A i \<noteq> 0 \<and> 0 < hits M i)"
    unfolding neuropil_check_spec [OF rep_shape [OF f]] using r slots_less [of _ key] by auto
  have add: "\<exists>f'. np_neuropil_bloom_add f key = Some f' \<and> rep_aged f' (add_mset key M) (\<lambda>i. if i \<in> set (slots key) then A i OR 0x80 else A i)"
    if "size M \<noteq> 64" using neuropil_add_spec [OF f, of key] that full r unfolding rep_aged_def by auto
  have remove: "\<exists>f'. np_neuropil_bloom_remove f key = Some f' \<and> rep_aged f' (M - {#key#}) (\<lambda>i. drop_bit (count_list (slots key) i) (A i))"
    if "size M \<noteq> 64" "key \<in># M" using neuropil_remove_spec [OF f, of key] that full r unfolding rep_aged_def by auto
  have union: "\<exists>f'. np_neuropil_bloom_union f g = Some f' \<and> rep_aged f' (M + N) (\<lambda>i. sat_age (A i) (B i))"
    if "size M + size N \<le> 64" using neuropil_union_spec [OF f g that] r unfolding rep_aged_def by auto
  have clear: "\<exists>f'. np_neuropil_bloom_clear f = Some f' \<and> rep_aged f' {#} (\<lambda>_. 0)"
    using neuropil_clear_spec [OF rep_shape [OF f]] unfolding rep_aged_def by auto
  have none: "np_neuropil_bloom_add f key = None \<and> np_neuropil_bloom_remove f key = None" if "size M = 64"
    using that full by (simp add: np_neuropil_bloom_add_def np_neuropil_bloom_remove_def)
  show ?thesis
    using check add remove union refused clear none neuropil_containment_spec [OF f g] containment_cases [OF f g] by presburger
qed

lemma create_aged: "rep_aged np_neuropil_bloom_create {#} (\<lambda>_. 0)"
proof -
  have "bl_bitset np_neuropil_bloom_create = replicate 2040 0"
    by (simp add: np_neuropil_bloom_create_def SCALE3D_X_def SCALE3D_Y_def SCALE3D_Z_def)
  then show ?thesis using rep_create by (simp add: rep_aged_def del: replicate.simps)
qed

theorem neuropil_bloom_refines_witness:
  "(\<exists>f'. np_neuropil_bloom_add np_neuropil_bloom_create np_dhkey_half = Some f'
      \<and> rep_aged f' {#np_dhkey_half#} (\<lambda>i. if i \<in> set (slots np_dhkey_half) then 0x80 else 0)
      \<and> np_neuropil_bloom_containment np_neuropil_bloom_create f' = Some False)
    \<and> np_neuropil_bloom_check np_neuropil_bloom_create np_dhkey_half = Some False"
proof -
  have ne: "set (slots np_dhkey_half) \<noteq> {}" using length_slots [of np_dhkey_half] by fastforce
  note w = neuropil_bloom_refines [OF create_aged create_aged, of np_dhkey_half]
  then obtain f' where f': "np_neuropil_bloom_add np_neuropil_bloom_create np_dhkey_half = Some f'"
      "rep_aged f' {#np_dhkey_half#} (\<lambda>i. if i \<in> set (slots np_dhkey_half) then 0 OR 0x80 else 0)" by auto
  moreover have "np_neuropil_bloom_check np_neuropil_bloom_create np_dhkey_half = Some False" using w ne by auto
  moreover have "size ({#} :: np_dhkey multiset) < size {#np_dhkey_half#} \<longrightarrow> np_neuropil_bloom_containment np_neuropil_bloom_create f' = Some False"
    using neuropil_bloom_refines [OF create_aged f'(2), of np_dhkey_half] by blast
  ultimately show ?thesis using f'(2) [unfolded or.left_neutral] by simp
qed

text \<open>
  Removing occurrences of a key ages the others: after eight removals in a row the key is not found any more, even
  if it is still in the bag.
\<close>

lemma remove_ages:
  assumes "rep_aged f M A" "size M < 64" "n \<le> Multiset.count M key"
  shows "\<exists>f'. for_each (\<lambda>_ f. np_neuropil_bloom_remove f key) [0..<n] f = Some f'
    \<and> rep_aged f' (M - replicate_mset n key) (\<lambda>i. drop_bit (n * count_list (slots key) i) (A i))"
  using assms(3)
proof (induction n)
  case (Suc n)
  then obtain f1 where f1: "for_each (\<lambda>_ f. np_neuropil_bloom_remove f key) [0..<n] f = Some f1"
      "rep f1 (M - replicate_mset n key)" "\<forall>i < 1020. age (bl_bitset f1) i = drop_bit (n * count_list (slots key) i) (A i)"
    by (auto simp: rep_aged_def)
  have "size (M - replicate_mset n key) + unat (bl_free_items f1) = 64" using f1(2) by (simp add: rep_def)
  moreover have "size (M - replicate_mset n key) \<le> size M" by (simp add: size_mset_mono)
  ultimately have "bl_free_items f1 \<noteq> 0" using assms(2) by auto
  moreover have "key \<in># M - replicate_mset n key" using Suc.prems by (simp add: in_diff_count)
  ultimately obtain f' where f': "np_neuropil_bloom_remove f1 key = Some f'" "rep f' (M - replicate_mset n key - {#key#})"
      "\<forall>i < 1020. age (bl_bitset f') i = drop_bit (count_list (slots key) i) (age (bl_bitset f1) i)"
    using neuropil_remove_spec [OF f1(2)] by blast
  have "M - replicate_mset n key - {#key#} = M - replicate_mset (Suc n) key" by simp
  then have "rep_aged f' (M - replicate_mset (Suc n) key) (\<lambda>i. drop_bit (Suc n * count_list (slots key) i) (A i))"
    using f'(2,3) f1(3) by (simp add: rep_aged_def drop_bit_drop_bit add.commute)
  then show ?case using f1(1) f'(1) by (auto simp: for_each_append)
qed (use assms(1) in simp)

lemma remove_forgets:
  assumes "rep_aged f M A" "size M < 64" "8 < Multiset.count M key"
  shows "\<exists>f'. for_each (\<lambda>_ f. np_neuropil_bloom_remove f key) [0..<8] f = Some f' \<and> rep f' (M - replicate_mset 8 key)
    \<and> key \<in># M - replicate_mset 8 key \<and> np_neuropil_bloom_check f' key = Some False"
proof -
  obtain f' where f': "for_each (\<lambda>_ f. np_neuropil_bloom_remove f key) [0..<8] f = Some f'"
      "rep_aged f' (M - replicate_mset 8 key) (\<lambda>i. drop_bit (8 * count_list (slots key) i) (A i))"
    using remove_ages [OF assms(1,2), of 8 key] assms(3) by auto
  have "slots key \<noteq> []" using length_slots [of key] by fastforce
  then obtain i where i: "i \<in> set (slots key)" using hd_in_set by blast
  then have "0 < count_list (slots key) i" by (metis count_list_0_iff neq0_conv)
  then have "(drop_bit (8 * count_list (slots key) i) (A i) :: u8) = 0"
    by (intro bit_eqI) (auto simp: bit_drop_bit_eq bit_word_iff_drop_bit_and dest!: bit_imp_le_length)
  then have "age (bl_bitset f') i = 0" using f'(2) slots_less [OF i] by (simp add: rep_aged_def)
  then have "np_neuropil_bloom_check f' key = Some False"
    using f'(2) neuropil_check_spec [of f' key] i by (auto simp: rep_aged_def dest!: rep_shape)
  moreover have "key \<in># M - replicate_mset 8 key" using assms(3) by (simp add: in_diff_count)
  ultimately show ?thesis using f' by (auto simp: rep_aged_def)
qed

text \<open>
  C36: no false negatives of the neuropil filter. Up to 64 keys can be added to a fresh filter, each of them is
  found afterwards, and what one of two filters finds is found in their union.
\<close>

theorem neuropil_bloom_no_false_negatives:
  assumes "length ks \<le> 64"
  shows "\<exists>f. for_each (\<lambda>k f. np_neuropil_bloom_add f k) ks np_neuropil_bloom_create = Some f
    \<and> (\<forall>k \<in> set ks. np_neuropil_bloom_check f k = Some True)
    \<and> (\<forall>g M N h k. rep f M \<longrightarrow> rep g N \<longrightarrow> np_neuropil_bloom_union f g = Some h \<longrightarrow>
         np_neuropil_bloom_check f k = Some True \<or> np_neuropil_bloom_check g k = Some True \<longrightarrow> np_neuropil_bloom_check h k = Some True)"
proof -
  have "unat (bl_free_items np_neuropil_bloom_create) = 64"
    by (simp add: np_neuropil_bloom_create_def SCALE3D_FREE_ITEMS_def)
  then obtain f where f: "for_each (\<lambda>k f. np_neuropil_bloom_add f k) ks np_neuropil_bloom_create = Some f"
      "\<forall>k \<in> set ks. np_neuropil_bloom_check f k = Some True"
    using neuro.add_all [of np_neuropil_bloom_create ks] rep_create assms by auto
  have "np_neuropil_bloom_check h k = Some True"
    if r: "rep f M" "rep g N" and u: "np_neuropil_bloom_union f g = Some h"
      and c: "np_neuropil_bloom_check f k = Some True \<or> np_neuropil_bloom_check g k = Some True" for g M N h k
  proof -
    have "size M + size N \<le> 64"
    proof (rule ccontr)
      assume gt: "\<not> size M + size N \<le> 64"
      have "size M + unat (bl_free_items f) = 64" "size N + unat (bl_free_items g) = 64" using r by (simp_all add: rep_def)
      then have "\<not> (int 64 - int (unat (bl_free_items f))) + (int 64 - int (unat (bl_free_items g))) \<le> int 64" using gt by linarith
      then show False using u unfolding np_neuropil_bloom_union_def SCALE3D_FREE_ITEMS_def by (simp only: simp_thms if_False option.simps)
    qed
    from neuropil_union_spec [OF r this] u have h: "rep h (M + N)"
      "\<forall>i < 1020. age (bl_bitset h) i = sat_age (age (bl_bitset f) i) (age (bl_bitset g) i)" by auto
    have cnt: "cnt (bl_bitset h) i \<noteq> 0" if "i < 1020" "cnt (bl_bitset f) i \<noteq> 0 \<or> cnt (bl_bitset g) i \<noteq> 0" for i
    proof -
      have "0 < hits M i \<or> 0 < hits N i" using that rep_cnt [OF r(1) that(1)] rep_cnt [OF r(2) that(1)] by (metis neq0_conv unat_eq_zero)
      then show ?thesis using rep_cnt [OF h(1) that(1)] by auto
    qed
    show ?thesis
      using c unfolding neuropil_check_spec [OF rep_shape [OF r(1)]] neuropil_check_spec [OF rep_shape [OF r(2)]]
        neuropil_check_spec [OF rep_shape [OF h(1)]]
      using h(2) cnt sat_age_nonzero slots_less [of _ k] by auto
  qed
  then show ?thesis using f by blast
qed

theorem neuropil_bloom_no_false_negatives_witness:
  "\<exists>f. for_each (\<lambda>k f. np_neuropil_bloom_add f k) [np_dhkey_half, np_dhkey_max] np_neuropil_bloom_create = Some f
     \<and> np_neuropil_bloom_check f np_dhkey_max = Some True"
  using neuropil_bloom_no_false_negatives [of "[np_dhkey_half, np_dhkey_max]"] by auto

text \<open>
  C37: the similarity of two filters is the number of cell counts they share over the number of cell counts of
  either. It is symmetric, lies between 0 and 1, and is 1 for filters of the same bag that is not empty.
\<close>

theorem neuropil_similarity_jaccard:
  assumes "rep f M" "rep g N"
  shows "\<exists>r. np_neuropil_bloom_similarity f g = Some r \<and> np_neuropil_bloom_similarity g f = Some r \<and> 0 \<le> r \<and> r \<le> 1
    \<and> r = real (\<Sum>i < 1020. min (hits M i) (hits N i)) / real (\<Sum>i < 1020. max (hits M i) (hits N i))
    \<and> (M = N \<and> M \<noteq> {#} \<longrightarrow> r = 1)"
proof -
  define b where "b = (\<Sum>i < 1020. min (hits M i) (hits N i))"
  define a where "a = (\<Sum>i < 1020. max (hits M i) (hits N i))"
  have "b \<le> a" unfolding a_def b_def by (intro sum_mono) simp
  then have le: "real b / real a \<le> 1" by (rule ratio_le_one)
  have one: "real b / real a = 1" if "M = N" "M \<noteq> {#}"
  proof -
    have "b = 8 * size M" "a = 8 * size M" using that(1) sum_hits [of M] by (simp_all add: a_def b_def)
    then show ?thesis using that(2) by simp
  qed
  have s: "np_neuropil_bloom_similarity f g = Some (real b / real a)" "np_neuropil_bloom_similarity g f = Some (real b / real a)"
    unfolding a_def b_def using neuropil_similarity_spec [OF assms] neuropil_similarity_spec [OF assms(2,1)]
    by (simp_all only: min.commute max.commute)
  show ?thesis unfolding a_def [symmetric] b_def [symmetric] using s le one by auto
qed

theorem neuropil_similarity_jaccard_witness:
  "\<exists>f. np_neuropil_bloom_add np_neuropil_bloom_create np_dhkey_half = Some f \<and> np_neuropil_bloom_similarity f f = Some 1
     \<and> np_neuropil_bloom_similarity np_neuropil_bloom_create np_neuropil_bloom_create = Some 0"
proof -
  obtain f where f: "np_neuropil_bloom_add np_neuropil_bloom_create np_dhkey_half = Some f" "rep f {#np_dhkey_half#}"
    using neuropil_add_spec [OF rep_create, of np_dhkey_half] by (auto simp: create_free)
  then show ?thesis
    using neuropil_similarity_jaccard [OF f(2) f(2)] neuropil_similarity_jaccard [OF rep_create rep_create] by auto
qed




text \<open>
  C39: two filters have the same compressed form exactly when the same cells are visible in them, with the same ages
  and counts.
\<close>

theorem neuropil_compress_faithful:
  assumes "neuro_shape f" "neuro_shape g"
  shows "np_neuropil_bloom_compress f = np_neuropil_bloom_compress g
    \<longleftrightarrow> visible (bl_bitset f) = visible (bl_bitset g)
      \<and> (\<forall>i \<in> set (visible (bl_bitset f)). age (bl_bitset f) i = age (bl_bitset g) i \<and> cnt (bl_bitset f) i = cnt (bl_bitset g) i)"
    (is "_ \<longleftrightarrow> ?same")
proof
  let ?q = "\<lambda>bs i. (ucast (of_nat i :: u16) :: u8, ucast (drop_bit 8 (of_nat i :: u16)) :: u8, age bs i, cnt bs i)"
  have nz: "\<forall>i \<in> set (visible bs). cnt bs i \<noteq> 0" for bs by (auto simp: visible_def)
  assume "np_neuropil_bloom_compress f = np_neuropil_bloom_compress g"
  then have "entries (the (np_neuropil_bloom_compress f)) = entries (the (np_neuropil_bloom_compress g))" by simp
  then have eq: "map (?q (bl_bitset f)) (visible (bl_bitset f)) = map (?q (bl_bitset g)) (visible (bl_bitset g))"
    unfolding neuropil_compress_spec [OF assms(1)] neuropil_compress_spec [OF assms(2)] Let_def option.sel
    by (simp only: entries_concat [OF nz])
  have inj: "i = j" if "?q bs i = ?q cs j" "i < 1020" "j < 1020" for i j bs cs
  proof -
    have e: "(ucast (of_nat i :: u16) :: u8) = ucast (of_nat j :: u16)"
      "(ucast (drop_bit 8 (of_nat i :: u16)) :: u8) = ucast (drop_bit 8 (of_nat j :: u16))"
      using that(1) by (simp_all only: prod.inject)
    have "(of_nat j :: u16) = of_nat i" by (rule join_bytes [of "of_nat i", unfolded e, unfolded join_bytes])
    then show ?thesis using that(2,3) of_nat_eq_fit [where 'w = 16, of j i] by simp
  qed
  have len: "length (visible (bl_bitset f)) = length (visible (bl_bitset g))" using arg_cong [OF eq, of length] by (simp only: length_map)
  have "visible (bl_bitset f) = visible (bl_bitset g)"
  proof (rule nth_equalityI [OF len])
    fix n assume n: "n < length (visible (bl_bitset f))"
    then have n': "n < length (visible (bl_bitset g))" using len by simp
    have "?q (bl_bitset f) (visible (bl_bitset f) ! n) = ?q (bl_bitset g) (visible (bl_bitset g) ! n)"
      using arg_cong [OF eq, of "\<lambda>qs. qs ! n"] unfolding nth_map [OF n] nth_map [OF n'] .
    moreover have "visible (bl_bitset f) ! n < 1020" "visible (bl_bitset g) ! n < 1020"
      using n len nth_mem [of n "visible (bl_bitset f)"] nth_mem [of n "visible (bl_bitset g)"] by (auto simp: visible_def)
    ultimately show "visible (bl_bitset f) ! n = visible (bl_bitset g) ! n" by (rule inj)
  qed
  moreover from this have "\<forall>i \<in> set (visible (bl_bitset f)). ?q (bl_bitset f) i = ?q (bl_bitset g) i"
    using eq by (simp only: map_eq_conv)
  ultimately show ?same by blast
next
  assume ?same
  then have "concat (map (entry (bl_bitset f)) (visible (bl_bitset f))) = concat (map (entry (bl_bitset g)) (visible (bl_bitset g)))"
    by (intro arg_cong [where f = concat] map_cong) (simp_all add: entry_def)
  then show "np_neuropil_bloom_compress f = np_neuropil_bloom_compress g"
    unfolding neuropil_compress_spec [OF assms(1)] neuropil_compress_spec [OF assms(2)] by simp
qed

theorem neuropil_compress_faithful_witness:
  "\<exists>f'. np_neuropil_bloom_add np_neuropil_bloom_create np_dhkey_half = Some f'
     \<and> np_neuropil_bloom_compress f' \<noteq> np_neuropil_bloom_compress np_neuropil_bloom_create"
proof -
  have nz: "bl_free_items np_neuropil_bloom_create \<noteq> 0" "0 < unat (bl_free_items np_neuropil_bloom_create)"
    by (simp_all add: create_free)
  obtain f where f: "np_neuropil_bloom_add np_neuropil_bloom_create np_dhkey_half = Some f" "rep f {#np_dhkey_half#}"
    using neuropil_add_spec [OF rep_create nz(1), of np_dhkey_half] by blast
  have chk: "np_neuropil_bloom_check f np_dhkey_half = Some True"
    using neuro.add_ok [OF _ nz(2), of np_dhkey_half] rep_create f(1) by auto
  let ?i = "hd (slots np_dhkey_half)"
  have i: "?i \<in> set (slots np_dhkey_half)" by (simp add: slots_unfold Let_def)
  from chk have "?i \<in> set (visible (bl_bitset f))"
    using i slots_less [OF i] unfolding neuropil_check_spec [OF rep_shape [OF f(2)]] visible_def
    by (simp add: word_greater_zero_iff)
  moreover have "visible (bl_bitset np_neuropil_bloom_create) = []"
    using rep_create by (simp add: rep_def visible_def filter_empty_conv)
  ultimately have "visible (bl_bitset f) \<noteq> visible (bl_bitset np_neuropil_bloom_create)" by auto
  with neuropil_compress_faithful [OF rep_shape [OF f(2)] rep_shape [OF rep_create]] f(1) show ?thesis by blast
qed

end
