(* ===== verification/Np_Statemachine.thy ===== *)
theory Np_Statemachine
  imports Np_Bytes
begin

text \<open>
  The state machines of \<^verbatim>\<open>src/util/np_statemachine.c\<close>. A machine runs over a table of states, an array of
  pointers of which some may be NULL; each state has a table of transitions. Function pointers are labels of type
  \<open>'f\<close> (actions) and \<open>'c\<close> (conditions), \<open>None\<close> is the NULL pointer, and the arguments \<open>act\<close> and \<open>cnd\<close> say
  what the functions behind the labels do to the machine; \<open>None\<close> as a result is an abort.
\<close>

section \<open>Data\<close>

datatype np_util_statemachine_error_codes = NO_ERROR | CONDITION_NOT_MET | NO_RULE

record 'u statemachine =
  sm_start_state :: u8
  sm_current_state :: u8
  sm_user_data :: 'u

record ('f, 'c) sm_transition =
  tr_active :: bool
  tr_source_state :: u8
  tr_target_state :: u8
  tr_action :: "'f option"
  tr_condition :: "'c option"

record ('f, 'c) sm_state =
  st_state_id :: u8
  st_state_name :: "u8 list"
  st_error :: "'f option"
  st_enter :: "'f option"
  st_exit :: "'f option"
  st_transitions :: u8
  st_transition_table :: "('f, 'c) sm_transition list"

record sm_result =
  res_success :: bool
  res_error_code :: np_util_statemachine_error_codes

type_synonym ('f, 'c) state_table = "('f, 'c) sm_state option list"

type_synonym ('f, 'u, 'e) sm_actions = "'f \<Rightarrow> 'u statemachine \<Rightarrow> 'e \<Rightarrow> 'u statemachine option"

type_synonym ('c, 'u, 'e) sm_conditions = "'c \<Rightarrow> 'u statemachine \<Rightarrow> 'e \<Rightarrow> (bool \<times> 'u statemachine) option"

definition ok_result :: sm_result where
  "ok_result = \<lparr>res_success = True, res_error_code = NO_ERROR\<rparr>"

definition condition_not_met_result :: sm_result where
  "condition_not_met_result = \<lparr>res_success = False, res_error_code = CONDITION_NOT_MET\<rparr>"

definition no_rule_result :: sm_result where
  "no_rule_result = \<lparr>res_success = False, res_error_code = NO_RULE\<rparr>"

section \<open>Tables\<close>

text \<open>\<^verbatim>\<open>strncpy (.., 25)\<close> into a zeroed array of 25 bytes.\<close>

definition state_name :: "u8 list \<Rightarrow> u8 list" where
  "state_name name = take 25 (takeWhile (\<lambda>c. c \<noteq> 0) name @ replicate 25 0)"

definition add_state :: "('f, 'c) state_table \<Rightarrow> ('f, 'c) sm_state \<Rightarrow> ('f, 'c) state_table option" where
  "add_state states state =
     wr states (unat (st_state_id state))
       (Some (state\<lparr>st_state_name := state_name (st_state_name state), st_transitions := 0, st_transition_table := []\<rparr>))"

text \<open>The new table has room for \<^verbatim>\<open>count + 1\<close> transitions; the counter is one byte.\<close>

definition add_transition :: "('f, 'c) state_table \<Rightarrow> u8 \<Rightarrow> ('f, 'c) sm_transition \<Rightarrow> ('f, 'c) state_table option" where
  "add_transition states state tr =
     do {
       entry \<leftarrow> rd states (unat state);
       st \<leftarrow> entry;
       let count = unat (st_transitions st);
       (if count \<le> length (st_transition_table st)
        then wr states (unat state)
          (Some (st\<lparr>st_transition_table := take count (st_transition_table st) @ [tr], st_transitions := st_transitions st + 1\<rparr>))
        else None)
     }"

definition STATEMACHINE_TRANSITION ::
  "u8 \<Rightarrow> u8 \<Rightarrow> 'f option \<Rightarrow> 'c option \<Rightarrow> ('f, 'c) state_table \<Rightarrow> ('f, 'c) state_table option" where
  "STATEMACHINE_TRANSITION source target action condition states =
     add_transition states source
       \<lparr>tr_active = True, tr_source_state = source, tr_target_state = target, tr_action = action, tr_condition = condition\<rparr>"

definition STATEMACHINE_STATE ::
  "u8 \<Rightarrow> u8 list \<Rightarrow> 'f option \<Rightarrow> 'f option \<Rightarrow> 'f option \<Rightarrow> ('f, 'c) state_table \<Rightarrow> ('f, 'c) state_table option" where
  "STATEMACHINE_STATE state name err enter exit states =
     add_state states
       \<lparr>st_state_id = state, st_state_name = name, st_error = err, st_enter = enter, st_exit = exit,
        st_transitions = 0, st_transition_table = []\<rparr>"

definition STATEMACHINE_INIT :: "u8 \<Rightarrow> 'u \<Rightarrow> 'u statemachine" where
  "STATEMACHINE_INIT start user = \<lparr>sm_start_state = start, sm_current_state = start, sm_user_data = user\<rparr>"

definition get_state :: "'u statemachine \<Rightarrow> u8" where
  "get_state machine = sm_current_state machine"

section \<open>Steps\<close>

text \<open>Calls through a pointer that is checked against NULL, and through one that is not.\<close>

definition call_checked :: "('f, 'u, 'e) sm_actions \<Rightarrow> 'f option \<Rightarrow> 'u statemachine \<Rightarrow> 'e \<Rightarrow> 'u statemachine option" where
  "call_checked act f machine ev = (case f of None \<Rightarrow> Some machine | Some g \<Rightarrow> act g machine ev)"

definition call_unchecked :: "('f, 'u, 'e) sm_actions \<Rightarrow> 'f option \<Rightarrow> 'u statemachine \<Rightarrow> 'e \<Rightarrow> 'u statemachine option" where
  "call_unchecked act f machine ev = (case f of None \<Rightarrow> None | Some g \<Rightarrow> act g machine ev)"

text \<open>A condition gets the machine by reference and may change its user data.\<close>

definition met :: "('c, 'u, 'e) sm_conditions \<Rightarrow> 'c option \<Rightarrow> 'u statemachine \<Rightarrow> 'e \<Rightarrow> (bool \<times> 'u statemachine) option" where
  "met cnd c machine ev = (case c of None \<Rightarrow> Some (True, machine) | Some d \<Rightarrow> cnd d machine ev)"

definition the_state :: "('f, 'c) state_table \<Rightarrow> u8 \<Rightarrow> ('f, 'c) sm_state option" where
  "the_state tbl s = do { entry \<leftarrow> rd tbl (unat s); entry }"

text \<open>
  The body of the loop for the transition that is taken. The state entered is that of the table unless the action
  or the exit function has moved the machine already; \<open>None\<close> in \<open>st'\<close> is a NULL entry, harmful when used.
\<close>

definition auto_fire ::
  "('f, 'u, 'e) sm_actions \<Rightarrow> ('f, 'c) state_table \<Rightarrow> ('f, 'c) sm_state \<Rightarrow> u8 \<Rightarrow> ('f, 'c) sm_transition
    \<Rightarrow> 'u statemachine \<Rightarrow> 'e \<Rightarrow> 'u statemachine option" where
  "auto_fire act tbl st old_state t machine ev =
     do {
       m1 \<leftarrow> call_checked act (tr_action t) machine ev;
       let process_enter_exit_states = (tr_target_state t \<noteq> st_state_id st);
       m2 \<leftarrow> (if process_enter_exit_states then call_unchecked act (st_exit st) m1 ev else Some m1);
       (m3, st') \<leftarrow> (if sm_current_state m2 = old_state
          then do { entry \<leftarrow> rd tbl (unat (tr_target_state t)); Some (m2\<lparr>sm_current_state := tr_target_state t\<rparr>, entry) }
          else Some (m2, Some st));
       (if process_enter_exit_states
        then do { entered \<leftarrow> st'; call_unchecked act (st_enter entered) m3 ev }
        else Some m3)
     }"

fun auto_loop ::
  "('f, 'u, 'e) sm_actions \<Rightarrow> ('c, 'u, 'e) sm_conditions \<Rightarrow> ('f, 'c) state_table \<Rightarrow> ('f, 'c) sm_state \<Rightarrow> u8 \<Rightarrow> nat list
    \<Rightarrow> 'u statemachine \<Rightarrow> 'e \<Rightarrow> (bool \<times> 'u statemachine) option" where
  "auto_loop act cnd tbl st old_state [] machine ev = Some (False, machine)"
| "auto_loop act cnd tbl st old_state (i # is) machine ev =
     do {
       t \<leftarrow> rd (st_transition_table st) i;
       (b, machine1) \<leftarrow> (if tr_active t then met cnd (tr_condition t) machine ev else Some (False, machine));
       (if b then do { m \<leftarrow> auto_fire act tbl st old_state t machine1 ev; Some (True, m) }
        else auto_loop act cnd tbl st old_state is machine1 ev)
     }"

definition invoke_auto_transition ::
  "('f, 'u, 'e) sm_actions \<Rightarrow> ('c, 'u, 'e) sm_conditions \<Rightarrow> ('f, 'c) state_table \<Rightarrow> 'u statemachine \<Rightarrow> 'e
    \<Rightarrow> (bool \<times> 'u statemachine) option" where
  "invoke_auto_transition act cnd tbl machine ev =
     do {
       st \<leftarrow> the_state tbl (sm_current_state machine);
       auto_loop act cnd tbl st (sm_current_state machine) [0..<unat (st_transitions st)] machine ev
     }"

definition invoke_auto_transitions ::
  "'e \<Rightarrow> ('f, 'u, 'e) sm_actions \<Rightarrow> ('c, 'u, 'e) sm_conditions \<Rightarrow> ('f, 'c) state_table \<Rightarrow> 'u statemachine
    \<Rightarrow> (bool \<times> 'u statemachine) option" where
  "invoke_auto_transitions noop_event act cnd tbl machine = invoke_auto_transition act cnd tbl machine noop_event"

text \<open>The explicit transition sets the state in any case, and prints the name of the state it has entered.\<close>

definition fire ::
  "('f, 'u, 'e) sm_actions \<Rightarrow> ('f, 'c) state_table \<Rightarrow> ('f, 'c) sm_state \<Rightarrow> ('f, 'c) sm_transition
    \<Rightarrow> 'u statemachine \<Rightarrow> 'e \<Rightarrow> 'u statemachine option" where
  "fire act tbl st t machine ev =
     do {
       m1 \<leftarrow> call_checked act (tr_action t) machine ev;
       let process_enter_exit_states = (tr_target_state t \<noteq> st_state_id st);
       m2 \<leftarrow> (if process_enter_exit_states then call_unchecked act (st_exit st) m1 ev else Some m1);
       let m3 = m2\<lparr>sm_current_state := tr_target_state t\<rparr>;
       entered \<leftarrow> the_state tbl (sm_current_state m3);
       (if process_enter_exit_states then call_unchecked act (st_enter entered) m3 ev else Some m3)
     }"

fun transition_loop ::
  "('f, 'u, 'e) sm_actions \<Rightarrow> ('c, 'u, 'e) sm_conditions \<Rightarrow> ('f, 'c) state_table \<Rightarrow> ('f, 'c) sm_state \<Rightarrow> u8 \<Rightarrow> nat list
    \<Rightarrow> 'u statemachine \<Rightarrow> 'e \<Rightarrow> (sm_result \<times> 'u statemachine) option" where
  "transition_loop act cnd tbl st target [] machine ev = Some (no_rule_result, machine)"
| "transition_loop act cnd tbl st target (i # is) machine ev =
     do {
       t \<leftarrow> rd (st_transition_table st) i;
       (if \<not> tr_active t then transition_loop act cnd tbl st target is machine ev
        else if tr_target_state t \<noteq> target then transition_loop act cnd tbl st target is machine ev
        else do {
          (b, machine1) \<leftarrow> met cnd (tr_condition t) machine ev;
          (if b then do { m \<leftarrow> fire act tbl st t machine1 ev; Some (ok_result, m) }
           else Some (condition_not_met_result, machine1))
        })
     }"

definition statemachine_transition ::
  "'e \<Rightarrow> ('f, 'u, 'e) sm_actions \<Rightarrow> ('c, 'u, 'e) sm_conditions \<Rightarrow> ('f, 'c) state_table \<Rightarrow> 'u statemachine \<Rightarrow> u8
    \<Rightarrow> (sm_result \<times> 'u statemachine) option" where
  "statemachine_transition noop_event act cnd tbl machine target =
     do {
       st \<leftarrow> the_state tbl (sm_current_state machine);
       transition_loop act cnd tbl st target [0..<unat (st_transitions st)] machine noop_event
     }"

section \<open>Well formed tables\<close>

definition state_ok :: "('f, 'c) state_table \<Rightarrow> ('f, 'c) sm_state \<Rightarrow> bool" where
  "state_ok tbl st \<longleftrightarrow> st_enter st \<noteq> None \<and> st_exit st \<noteq> None
     \<and> unat (st_transitions st) = length (st_transition_table st)
     \<and> list_all (\<lambda>t. tr_source_state t = st_state_id st \<and> the_state tbl (tr_target_state t) \<noteq> None) (st_transition_table st)"

definition table_ok :: "('f, 'c) state_table \<Rightarrow> bool" where
  "table_ok tbl \<longleftrightarrow>
     list_all (\<lambda>(i, entry). case entry of None \<Rightarrow> True | Some st \<Rightarrow> unat (st_state_id st) = i \<and> state_ok tbl st) (enumerate 0 tbl)"

lemma table_ok_state:
  assumes "table_ok tbl" "the_state tbl s = Some st"
  shows "st_state_id st = s" "state_ok tbl st"
proof -
  have s: "unat s < length tbl" "tbl ! unat s = Some st"
    using assms(2) by (auto simp: the_state_def rd_def split: bind_splits if_splits)
  then have "(unat s, Some st) \<in> set (enumerate 0 tbl)" by (auto simp: in_set_enumerate_eq)
  then have "unat (st_state_id st) = unat s \<and> state_ok tbl st"
    using assms(1) by (fastforce simp: table_ok_def list_all_iff)
  then show "st_state_id st = s" "state_ok tbl st" by (simp_all add: word_unat_eq_iff)
qed

text \<open>Adding a transition appends it, until the one byte counter wraps and hides all transitions of the state.\<close>

lemma add_transition_spec:
  assumes "the_state tbl s = Some st" "unat (st_transitions st) = length (st_transition_table st)"
  shows "add_transition tbl s t = Some (tbl[unat s := Some (st\<lparr>st_transition_table := st_transition_table st @ [t],
      st_transitions := st_transitions st + 1\<rparr>)])"
    "unat (st_transitions st + 1) = (if length (st_transition_table st) = 255 then 0 else length (st_transition_table st @ [t]))"
proof -
  have "unat s < length tbl" "tbl ! unat s = Some st"
    using assms(1) by (auto simp: the_state_def rd_def split: bind_splits if_splits)
  then show "add_transition tbl s t = Some (tbl[unat s := Some (st\<lparr>st_transition_table := st_transition_table st @ [t],
      st_transitions := st_transitions st + 1\<rparr>)])"
    using assms(2) by (simp add: add_transition_def rd_def wr_def)
  show "unat (st_transitions st + 1) = (if length (st_transition_table st) = 255 then 0 else length (st_transition_table st @ [t]))"
  proof (cases "unat (st_transitions st) = 255")
    case True
    then have "st_transitions st = of_nat 255" by (simp add: word_unat_eq_iff)
    then show ?thesis using assms(2) True by simp
  next
    case False
    moreover have "unat (st_transitions st) < 2 ^ LENGTH(8)" by (rule unsigned_less)
    ultimately have "unat (st_transitions st + 1) = Suc (unat (st_transitions st))"
      using unat_add_lem [of "st_transitions st" 1] by simp
    then show ?thesis using assms(2) False by simp
  qed
qed

section \<open>Loops\<close>

text \<open>The scan for the first transition that is active and whose condition holds.\<close>

fun scan ::
  "('c, 'u, 'e) sm_conditions \<Rightarrow> ('f, 'c) sm_transition list \<Rightarrow> 'u statemachine \<Rightarrow> 'e
    \<Rightarrow> (('f, 'c) sm_transition option \<times> 'u statemachine) option" where
  "scan cnd [] m ev = Some (None, m)"
| "scan cnd (t # ts) m ev =
     do {
       (b, m1) \<leftarrow> (if tr_active t then met cnd (tr_condition t) m ev else Some (False, m));
       (if b then Some (Some t, m1) else scan cnd ts m1 ev)
     }"

lemma auto_loop_scan:
  assumes "k \<le> length (st_transition_table st)"
  shows "auto_loop act cnd tbl st old [k..<length (st_transition_table st)] m ev =
    do {
      (found, m1) \<leftarrow> scan cnd (drop k (st_transition_table st)) m ev;
      (case found of None \<Rightarrow> Some (False, m1) | Some t \<Rightarrow> do { m2 \<leftarrow> auto_fire act tbl st old t m1 ev; Some (True, m2) })
    }"
  using assms
proof (induction arbitrary: m rule: inc_induct)
  case (step n)
  let ?ts = "st_transition_table st"
  have d: "drop n ?ts = ?ts ! n # drop (Suc n) ?ts" using step.hyps by (simp add: Cons_nth_drop_Suc)
  have r: "rd ?ts n = Some (?ts ! n)" using step.hyps by (simp add: rd_def)
  have u: "[n..<length ?ts] = n # [Suc n..<length ?ts]" using step.hyps by (simp add: upt_rec)
  show ?case unfolding u auto_loop.simps r d scan.simps step.IH by (auto split: bind_splits)
qed simp

lemma transition_loop_find:
  assumes "k \<le> length (st_transition_table st)"
  shows "transition_loop act cnd tbl st target [k..<length (st_transition_table st)] m ev =
    (case find (\<lambda>t. tr_active t \<and> tr_target_state t = target) (drop k (st_transition_table st)) of
       None \<Rightarrow> Some (no_rule_result, m)
     | Some t \<Rightarrow> do {
         (b, m1) \<leftarrow> met cnd (tr_condition t) m ev;
         (if b then do { m2 \<leftarrow> fire act tbl st t m1 ev; Some (ok_result, m2) } else Some (condition_not_met_result, m1))
       })"
  using assms
proof (induction rule: inc_induct)
  case (step n)
  let ?ts = "st_transition_table st"
  have d: "drop n ?ts = ?ts ! n # drop (Suc n) ?ts" using step.hyps by (simp add: Cons_nth_drop_Suc)
  have r: "rd ?ts n = Some (?ts ! n)" using step.hyps by (simp add: rd_def)
  have u: "[n..<length ?ts] = n # [Suc n..<length ?ts]" using step.hyps by (simp add: upt_rec)
  show ?case unfolding u transition_loop.simps r d find.simps step.IH by simp
qed simp

text \<open>
  An action that moves the machine itself keeps its state; the enter function that runs is then the one of the
  state that has just been left.
\<close>

lemma auto_fire_follow_up:
  assumes "tr_action t = Some f" "act f m ev = Some m1" "tr_target_state t \<noteq> st_state_id st"
    "st_exit st = Some ex" "act ex m1 ev = Some m2" "sm_current_state m2 \<noteq> old" "st_enter st = Some en"
  shows "auto_fire act tbl st old t m ev = act en m2 ev"
  using assms by (simp add: auto_fire_def call_checked_def call_unchecked_def)

section \<open>Machines with well formed tables\<close>

text \<open>
  The contract of the callbacks: a condition does not touch the state of the machine. Actions are free: they may
  fail, and they may move the machine, as an action does that hands another event to its own machine.
\<close>

locale typed_machine =
  fixes tbl :: "('f, 'c) state_table"
    and act :: "('f, 'u, 'e) sm_actions"
    and cnd :: "('c, 'u, 'e) sm_conditions"
  assumes table: "table_ok tbl"
    and condition: "cnd c m ev = Some (b, m') \<Longrightarrow> sm_current_state m' = sm_current_state m"
begin

lemma met_keeps: "met cnd c m ev = Some (b, m') \<Longrightarrow> sm_current_state m' = sm_current_state m"
  by (cases c) (auto simp: met_def dest: condition)

lemma scan_keeps: "scan cnd ts m ev = Some (found, m') \<Longrightarrow>
  sm_current_state m' = sm_current_state m \<and> (\<forall>t. found = Some t \<longrightarrow> t \<in> set ts)"
proof (induction ts arbitrary: m)
  case (Cons t ts)
  obtain b m1 where b: "(if tr_active t then met cnd (tr_condition t) m ev else Some (False, m)) = Some (b, m1)"
    and rest: "(if b then Some (Some t, m1) else scan cnd ts m1 ev) = Some (found, m')"
    using Cons.prems by (auto split: bind_splits)
  have "sm_current_state m1 = sm_current_state m" using b met_keeps by (auto split: if_splits)
  then show ?case using rest Cons.IH [of m1] by (auto split: if_splits)
qed simp

text \<open>
  A transition to the same state is its action. Another one runs the action, the exit function and, unless these
  have moved the machine, the enter function of the target; else that of the state which has been left.
\<close>

lemma auto_fire_same:
  assumes "the_state tbl old = Some st" "tr_target_state t = old"
  shows "auto_fire act tbl st old t m ev = call_checked act (tr_action t) m ev"
proof -
  have st: "st_state_id st = old" "rd tbl (unat old) = Some (Some st)"
    using table_ok_state(1) [OF table assms(1)] assms(1) by (auto simp: the_state_def split: bind_splits)
  have "m1\<lparr>sm_current_state := sm_current_state m1\<rparr> = m1" for m1 :: "'u statemachine" by simp
  then show ?thesis using st assms(2) by (cases "call_checked act (tr_action t) m ev") (auto simp: auto_fire_def Let_def)
qed

lemma auto_fire_other:
  assumes "the_state tbl old = Some st" "t \<in> set (st_transition_table st)" "tr_target_state t \<noteq> old"
  obtains ex en en' where "auto_fire act tbl st old t m ev =
    do {
      m1 \<leftarrow> call_checked act (tr_action t) m ev;
      m2 \<leftarrow> act ex m1 ev;
      (if sm_current_state m2 = old then act en' (m2\<lparr>sm_current_state := tr_target_state t\<rparr>) ev else act en m2 ev)
    }"
proof -
  note ok = table_ok_state [OF table assms(1)]
  obtain ex en where e: "st_exit st = Some ex" "st_enter st = Some en" using ok(2) by (auto simp: state_ok_def)
  obtain st' where st': "the_state tbl (tr_target_state t) = Some st'" using ok(2) assms(2) by (auto simp: state_ok_def list_all_iff)
  then have r: "rd tbl (unat (tr_target_state t)) = Some (Some st')" by (auto simp: the_state_def split: bind_splits)
  obtain en' where e': "st_enter st' = Some en'" using table_ok_state(2) [OF table st'] by (auto simp: state_ok_def)
  show thesis
    by (rule that [of ex en' en]) (use e e' r ok(1) assms(3) in \<open>auto simp: auto_fire_def call_unchecked_def Let_def split: bind_splits\<close>)
qed

text \<open>It fails only in an action, and keeps what the actions keep.\<close>

lemma auto_fire_fails:
  assumes "the_state tbl old = Some st" "t \<in> set (st_transition_table st)" "auto_fire act tbl st old t m ev = None"
  shows "\<exists>f m1. act f m1 ev = None"
proof (cases "tr_target_state t = old")
  case True
  then show ?thesis using auto_fire_same [OF assms(1) True] assms(3) by (auto simp: call_checked_def split: option.splits)
next
  case False
  obtain ex en en' where f: "auto_fire act tbl st old t m ev =
    do {
      m1 \<leftarrow> call_checked act (tr_action t) m ev;
      m2 \<leftarrow> act ex m1 ev;
      (if sm_current_state m2 = old then act en' (m2\<lparr>sm_current_state := tr_target_state t\<rparr>) ev else act en m2 ev)
    }" by (rule auto_fire_other [OF assms(1,2) False])
  consider "call_checked act (tr_action t) m ev = None" | m1 where "act ex m1 ev = None"
    | m2 where "act en' (m2\<lparr>sm_current_state := tr_target_state t\<rparr>) ev = None" | m2 where "act en m2 ev = None"
    using assms(3) unfolding f by (auto simp: bind_eq_None_conv split: if_splits)
  then show ?thesis
  proof cases
    case 1
    then show ?thesis by (auto simp: call_checked_def split: option.splits)
  qed blast+
qed

lemma auto_fire_keeps:
  assumes "the_state tbl old = Some st" "t \<in> set (st_transition_table st)" "auto_fire act tbl st old t m ev = Some m'"
    and acts: "\<And>f a b. act f a ev = Some b \<Longrightarrow> P (sm_current_state a) \<Longrightarrow> P (sm_current_state b)"
    and "P (sm_current_state m)" "P (tr_target_state t)"
  shows "P (sm_current_state m')"
proof (cases "tr_target_state t = old")
  case True
  then show ?thesis using auto_fire_same [OF assms(1) True] assms(3,5) acts by (auto simp: call_checked_def split: option.splits)
next
  case False
  obtain ex en en' where f: "auto_fire act tbl st old t m ev =
    do {
      m1 \<leftarrow> call_checked act (tr_action t) m ev;
      m2 \<leftarrow> act ex m1 ev;
      (if sm_current_state m2 = old then act en' (m2\<lparr>sm_current_state := tr_target_state t\<rparr>) ev else act en m2 ev)
    }" by (rule auto_fire_other [OF assms(1,2) False])
  obtain m1 m2 where m: "call_checked act (tr_action t) m ev = Some m1" "act ex m1 ev = Some m2"
      "(if sm_current_state m2 = old then act en' (m2\<lparr>sm_current_state := tr_target_state t\<rparr>) ev else act en m2 ev) = Some m'"
    using assms(3) unfolding f by (auto simp: bind_eq_Some_conv)
  have "P (sm_current_state m1)" using m(1) acts assms(5) by (auto simp: call_checked_def split: option.splits)
  then have "P (sm_current_state m2)" using m(2) acts by blast
  then show ?thesis using m(3) acts [where b = m'] assms(6) by (auto split: if_splits)
qed

lemma invoke_scan:
  assumes "the_state tbl (sm_current_state m) = Some st"
  shows "invoke_auto_transition act cnd tbl m ev = do {
      (found, m1) \<leftarrow> scan cnd (st_transition_table st) m ev;
      (case found of None \<Rightarrow> Some (False, m1)
       | Some t \<Rightarrow> do { m2 \<leftarrow> auto_fire act tbl st (sm_current_state m) t m1 ev; Some (True, m2) }) }"
  using table_ok_state(2) [OF table assms(1)] auto_loop_scan [of 0 st] assms(1)
  by (simp add: invoke_auto_transition_def state_ok_def)

text \<open>The explicit transition fails only in an action as well.\<close>

lemma fire_fails:
  assumes "the_state tbl s = Some st" "t \<in> set (st_transition_table st)" "fire act tbl st t m ev = None"
  shows "\<exists>f m1. act f m1 ev = None"
proof -
  note ok = table_ok_state [OF table assms(1)]
  obtain ex where e: "st_exit st = Some ex" using ok(2) by (auto simp: state_ok_def)
  obtain st' where st': "the_state tbl (tr_target_state t) = Some st'"
    using ok(2) assms(2) by (auto simp: state_ok_def list_all_iff)
  obtain en' where e': "st_enter st' = Some en'" using table_ok_state(2) [OF table st'] by (auto simp: state_ok_def)
  consider "call_checked act (tr_action t) m ev = None" | m1 where "act ex m1 ev = None" | m2 where "act en' m2 ev = None"
    using assms(3) e e' st' by (auto simp: fire_def call_unchecked_def Let_def bind_eq_None_conv split: if_splits)
  then show ?thesis
  proof cases
    case 1
    then show ?thesis by (auto simp: call_checked_def split: option.splits)
  qed blast+
qed

lemma transition_spec:
  assumes "the_state tbl (sm_current_state m) = Some st"
  shows "statemachine_transition ev act cnd tbl m target
      = (case find (\<lambda>t. tr_active t \<and> tr_target_state t = target) (st_transition_table st) of
      None \<Rightarrow> Some (no_rule_result, m)
    | Some t \<Rightarrow> do {
         (b, m1) \<leftarrow> met cnd (tr_condition t) m ev;
         (if b then do { m2 \<leftarrow> fire act tbl st t m1 ev; Some (ok_result, m2) } else Some (condition_not_met_result, m1)) })"
  using table_ok_state(2) [OF table assms(1)] transition_loop_find [of 0 st] assms(1)
  by (simp add: statemachine_transition_def state_ok_def)

end

end
