(* ===== verification/Np_Aaatoken.thy ===== *)
theory Np_Aaatoken
  imports Complex_Main Np_Dhkey Np_Bytes
begin

text \<open>
  Tokens of \<^verbatim>\<open>src/np_aaatoken.c\<close>: creation, hashing, signing, encoding into a tree, decoding, the check of
  validity and the conversion from and to the tokens of the user interface.

  The functions of libsodium, the byte representation of a double and the data blocks that hold the attributes
  (built on a CBOR library) are fields of the record \<open>token_env\<close>. Character arrays are lists of bytes of the
  length of the array.
\<close>

section \<open>Data\<close>

unbundle bit_operations_syntax

definition FLAG_CMP :: "u32 \<Rightarrow> u32 \<Rightarrow> bool" where
  "FLAG_CMP data flag \<longleftrightarrow> data AND flag = flag"

definition np_aaatoken_type_identity :: u32 where "np_aaatoken_type_identity = 0x01"

definition np_aaatoken_type_node :: u32 where "np_aaatoken_type_node = 0x02"

definition np_aaatoken_type_handshake :: u32 where "np_aaatoken_type_handshake = 0x04"

definition np_aaatoken_type_message_intent :: u32 where "np_aaatoken_type_message_intent = 0x10"

definition np_aaatoken_scope_private :: u32 where "np_aaatoken_scope_private = 1"

definition np_aaatoken_scope_private_available :: u32 where "np_aaatoken_scope_private_available = 2"

definition np_aaatoken_scope_public :: u32 where "np_aaatoken_scope_public = 3"

definition np_aaatoken_scope_undefined :: u32 where "np_aaatoken_scope_undefined = 4"

definition AAA_VALID :: u32 where "AAA_VALID = 1"

lemmas token_consts [simp] = np_aaatoken_type_identity_def np_aaatoken_type_node_def np_aaatoken_type_handshake_def
  np_aaatoken_type_message_intent_def np_aaatoken_scope_private_def np_aaatoken_scope_private_available_def
  np_aaatoken_scope_public_def np_aaatoken_scope_undefined_def AAA_VALID_def

datatype np_data_return = np_key_not_found | np_data_other

datatype np_data_value = D_bin "u8 list" | D_int "int" | D_uint u32 | D_str "u8 list"

text \<open>
  Values of the tree that a token is encoded into: \<^verbatim>\<open>np_treeval_new_ush\<close>, \<^verbatim>\<open>_bin\<close>, \<^verbatim>\<open>_s\<close> and \<^verbatim>\<open>_d\<close>.
  A tree from the network may hold values of other types, of which only the printed form matters here.
\<close>

datatype np_treeval = TV_ush u8 | TV_bin "u8 list" | TV_s "u8 list" | TV_d real | TV_other "u8 list"

text \<open>The issuer token is the token itself, another token, of which only the secret key is used, or NULL.\<close>

datatype issuer_ref = Issuer_self | Issuer_other "u8 list" | Issuer_null

record token_env =
  generichash :: "u8 list \<Rightarrow> u8 list"
  sign_detached :: "u8 list \<Rightarrow> u8 list \<Rightarrow> u8 list option"
  verify_detached :: "u8 list \<Rightarrow> u8 list \<Rightarrow> u8 list \<Rightarrow> int"
  pk_to_curve25519 :: "u8 list \<Rightarrow> u8 list option"
  bin2hex :: "u8 list \<Rightarrow> string"
  hex2bin :: "string \<Rightarrow> u8 list option"
  snprintf_u :: "u8 \<Rightarrow> string"
  snprintf_f :: "real \<Rightarrow> string"
  double_bytes :: "real \<Rightarrow> u8 list"
  init_datablock :: "nat \<Rightarrow> u8 list"
  get_data_size :: "u8 list \<Rightarrow> nat option"
  get_data :: "u8 list \<Rightarrow> string \<Rightarrow> np_data_return + np_data_value"
  set_data :: "u8 list \<Rightarrow> string \<Rightarrow> u8 list \<Rightarrow> u8 list option"

record np_crypto =
  cr_ed25519_public_key :: "u8 list"
  cr_ed25519_secret_key :: "u8 list"
  cr_derived_kx_public_key :: "u8 list"
  cr_public_key_is_set :: bool
  cr_secret_key_is_set :: bool
  cr_kx_public_key_is_set :: bool
  cr_kx_secret_key_is_set :: bool

record np_aaatoken =
  tk_uuid :: "u8 list"
  tk_realm :: "u8 list"
  tk_issuer :: "u8 list"
  tk_subject :: "u8 list"
  tk_audience :: "u8 list"
  tk_issued_at :: real
  tk_not_before :: real
  tk_expires_at :: real
  tk_attributes :: "u8 list"
  tk_attributes_signature :: "u8 list"
  tk_crypto :: np_crypto
  tk_signature :: "u8 list"
  tk_state :: u32
  tk_type :: u32
  tk_scope :: u32
  tk_private_key_is_set :: bool
  tk_issuer_token :: issuer_ref
  tk_is_signature_verified :: bool
  tk_is_signature_attributes_verified :: bool

text \<open>C strings in arrays: what \<^verbatim>\<open>strnlen\<close> sees, and what \<^verbatim>\<open>strncpy\<close> leaves behind.\<close>

definition c_str :: "nat \<Rightarrow> u8 list \<Rightarrow> u8 list" where
  "c_str n buf = takeWhile (\<lambda>b. b \<noteq> 0) (take n buf)"

definition c_strncpy :: "nat \<Rightarrow> u8 list \<Rightarrow> u8 list" where
  "c_strncpy n s = take n (s @ replicate n 0)"

definition str_of_bytes :: "u8 list \<Rightarrow> string" where
  "str_of_bytes bs = map (\<lambda>b. char_of (unat b)) bs"

definition bytes_of_str :: "string \<Rightarrow> u8 list" where
  "bytes_of_str cs = map (\<lambda>c. of_nat (of_char c)) cs"

text \<open>\<^verbatim>\<open>np_treeval_new_s\<close> runs to the end of the string; an array without an end is overrun.\<close>

definition np_treeval_new_s :: "u8 list \<Rightarrow> np_treeval option" where
  "np_treeval_new_s buf = (if 0 \<in> set buf then Some (TV_s (takeWhile (\<lambda>b. b \<noteq> 0) buf)) else None)"

section \<open>Creation\<close>

definition np_aaatoken_new :: "token_env \<Rightarrow> u8 list \<Rightarrow> real \<Rightarrow> u32 \<Rightarrow> np_aaatoken" where
  "np_aaatoken_new env uuid now rnd =
     \<lparr>tk_uuid = uuid, tk_realm = replicate 255 0, tk_issuer = replicate 65 0, tk_subject = replicate 255 0,
      tk_audience = replicate 255 0, tk_issued_at = now, tk_not_before = now, tk_expires_at = now + real (unat rnd mod 20 + 10),
      tk_attributes = init_datablock env 10240, tk_attributes_signature = replicate 64 0,
      tk_crypto = \<lparr>cr_ed25519_public_key = replicate 32 0, cr_ed25519_secret_key = replicate 64 0,
        cr_derived_kx_public_key = replicate 32 0, cr_public_key_is_set = False, cr_secret_key_is_set = False,
        cr_kx_public_key_is_set = False, cr_kx_secret_key_is_set = False\<rparr>,
      tk_signature = replicate 64 0, tk_state = 0, tk_type = 0, tk_scope = np_aaatoken_scope_undefined,
      tk_private_key_is_set = False, tk_issuer_token = Issuer_self, tk_is_signature_verified = False,
      tk_is_signature_attributes_verified = False\<rparr>"

definition np_aaatoken_update_scope :: "np_aaatoken \<Rightarrow> np_aaatoken" where
  "np_aaatoken_update_scope self =
     self\<lparr>tk_scope := if tk_private_key_is_set self then np_aaatoken_scope_private else np_aaatoken_scope_public\<rparr>"

section \<open>Hashes and signatures\<close>

definition np_aaatoken_get_hash :: "token_env \<Rightarrow> np_aaatoken \<Rightarrow> u8 list" where
  "np_aaatoken_get_hash env self =
     generichash env (tk_uuid self @ c_str 255 (tk_realm self) @ c_str 65 (tk_issuer self) @ c_str 255 (tk_subject self)
       @ c_str 255 (tk_audience self) @ cr_ed25519_public_key (tk_crypto self) @ double_bytes env (tk_expires_at self)
       @ double_bytes env (tk_issued_at self) @ double_bytes env (tk_not_before self))"

definition np_aaatoken_get_attributes_hash :: "token_env \<Rightarrow> np_aaatoken \<Rightarrow> u8 list option" where
  "np_aaatoken_get_attributes_hash env self =
     do {
       attr_data_size \<leftarrow> get_data_size env (tk_attributes self);
       (if attr_data_size \<le> length (tk_attributes self)
        then Some (generichash env (take attr_data_size (tk_attributes self) @ tk_signature self))
        else None)
     }"

definition np_aaatoken_get_fingerprint :: "token_env \<Rightarrow> np_aaatoken \<Rightarrow> bool \<Rightarrow> np_dhkey option" where
  "np_aaatoken_get_fingerprint env self include_extensions =
     do {
       attr \<leftarrow> (if include_extensions then np_aaatoken_get_attributes_hash env self else Some []);
       np_dhkey_create_from_hash (hex2bin env)
         (bin2hex env (generichash env (np_aaatoken_get_hash env self @ tk_signature self @ attr)))
     }"

definition issuer_secret :: "np_aaatoken \<Rightarrow> u8 list option" where
  "issuer_secret self = (case tk_issuer_token self of
     Issuer_self \<Rightarrow> Some (cr_ed25519_secret_key (tk_crypto self)) | Issuer_other sk \<Rightarrow> Some sk | Issuer_null \<Rightarrow> None)"

definition np_aaatoken_update_attributes_signature :: "token_env \<Rightarrow> np_aaatoken \<Rightarrow> np_aaatoken option" where
  "np_aaatoken_update_attributes_signature env self =
     (if tk_scope self \<le> np_aaatoken_scope_private_available
      then do {
        sk \<leftarrow> issuer_secret self;
        hash \<leftarrow> np_aaatoken_get_attributes_hash env self;
        sig \<leftarrow> sign_detached env hash sk;
        Some (self\<lparr>tk_attributes_signature := sig\<rparr>)
      }
      else None)"

text \<open>
  Signing without a signee signs the hash of the token with the key of the issuer. A signee signs the signature,
  and its public key and signature are added to the attributes under the fingerprint of the signee, which has to
  be the issuer of the token.
\<close>

definition np_aaatoken_set_signature ::
  "token_env \<Rightarrow> np_aaatoken \<Rightarrow> np_aaatoken option \<Rightarrow> np_aaatoken option" where
  "np_aaatoken_set_signature env self signee =
     (if \<not> cr_public_key_is_set (tk_crypto self) then None
      else case signee of
        None \<Rightarrow>
          (if tk_scope self \<le> np_aaatoken_scope_private_available
           then do {
             sk \<leftarrow> issuer_secret self;
             sig \<leftarrow> sign_detached env (np_aaatoken_get_hash env self) sk;
             Some (self\<lparr>tk_signature := sig\<rparr>)
           }
           else None)
      | Some s \<Rightarrow>
          (if tk_private_key_is_set s \<and> cr_secret_key_is_set (tk_crypto s)
           then do {
             my_token_fp \<leftarrow> np_aaatoken_get_fingerprint env s False;
             let signee_token_fp = np_dhkey_str (bin2hex env) my_token_fp;
             (if bytes_of_str (take 64 signee_token_fp) = c_str 64 (tk_issuer self)
              then do {
                sig \<leftarrow> sign_detached env (take 32 (tk_signature self)) (cr_ed25519_secret_key (tk_crypto s));
                let attrs = (case set_data env (tk_attributes self) signee_token_fp (cr_ed25519_public_key (tk_crypto s) @ sig) of
                   None \<Rightarrow> tk_attributes self | Some attrs \<Rightarrow> attrs);
                np_aaatoken_update_attributes_signature env (self\<lparr>tk_attributes := attrs\<rparr>)
              }
              else None)
           }
           else None))"

section \<open>The partner of a token\<close>

definition np_aaatoken_set_partner_fp :: "token_env \<Rightarrow> np_aaatoken \<Rightarrow> np_dhkey \<Rightarrow> np_aaatoken option" where
  "np_aaatoken_set_partner_fp env self partner_fp =
     do {
       attrs \<leftarrow> set_data env (tk_attributes self) ''_np.partner_fp'' (dhkey_bytes partner_fp);
       np_aaatoken_update_attributes_signature env (self\<lparr>tk_attributes := attrs\<rparr>)
     }"

definition np_aaatoken_get_partner_fp :: "token_env \<Rightarrow> np_aaatoken \<Rightarrow> np_dhkey option" where
  "np_aaatoken_get_partner_fp env self =
     (case get_data env (tk_attributes self) ''_np.partner_fp'' of
        Inr (D_bin bs) \<Rightarrow> (if length bs = 32 then Some (dhkey_of_bytes bs) else None)
      | Inr v \<Rightarrow> None
      | Inl np_key_not_found \<Rightarrow>
          (if c_str 65 (tk_issuer self) = [] then np_aaatoken_get_fingerprint env self False
           else np_dhkey_create_from_hash (hex2bin env) (str_of_bytes (c_str 65 (tk_issuer self))))
      | Inl np_data_other \<Rightarrow> None)"

section \<open>Encoding\<close>

definition np_aaatoken_encode ::
  "token_env \<Rightarrow> (string \<rightharpoonup> np_treeval) \<Rightarrow> np_aaatoken \<Rightarrow> ((string \<rightharpoonup> np_treeval) \<times> np_aaatoken) option" where
  "np_aaatoken_encode env data token =
     do {
       realm \<leftarrow> np_treeval_new_s (tk_realm token);
       issuer \<leftarrow> np_treeval_new_s (tk_issuer token);
       subject \<leftarrow> np_treeval_new_s (tk_subject token);
       audience \<leftarrow> np_treeval_new_s (tk_audience token);
       let attributes_size = (case get_data_size env (tk_attributes token) of None \<Rightarrow> 0 | Some n \<Rightarrow> n);
       (if attributes_size \<le> length (tk_attributes token) then Some () else None);
       token1 \<leftarrow> (if tk_scope token \<le> np_aaatoken_scope_private_available
                 then np_aaatoken_update_attributes_signature env token else Some token);
       Some (data(''np.t.type'' \<mapsto> TV_ush (ucast (tk_type token)),
                  ''np.t.u'' \<mapsto> TV_bin (tk_uuid token),
                  ''np.t.r'' \<mapsto> realm, ''np.t.i'' \<mapsto> issuer, ''np.t.s'' \<mapsto> subject, ''np.t.a'' \<mapsto> audience,
                  ''np.t.p'' \<mapsto> TV_bin (cr_ed25519_public_key (tk_crypto token)),
                  ''np.t.ex'' \<mapsto> TV_d (tk_expires_at token),
                  ''np.t.ia'' \<mapsto> TV_d (tk_issued_at token),
                  ''np.t.nb'' \<mapsto> TV_d (tk_not_before token),
                  ''np.t.si'' \<mapsto> TV_bin (tk_signature token),
                  ''np.t.e'' \<mapsto> TV_bin (take attributes_size (tk_attributes token)),
                  ''np.t.sie'' \<mapsto> TV_bin (tk_attributes_signature token1)), token1)
     }"

text \<open>
  Decoding reads the members of the union of a tree value without looking at its type, and copies fixed lengths
  out of binary values without looking at their size; \<open>None\<close> is the undefined behaviour that follows when the
  value is of another type or too short. A mandatory field that is absent sets \<^verbatim>\<open>ret\<close> to false, which skips
  the fields after it.
\<close>

fun value_bin :: "nat \<Rightarrow> np_treeval \<Rightarrow> u8 list option" where
  "value_bin n (TV_bin bs) = (if n \<le> length bs then Some (take n bs) else None)"
| "value_bin n v = None"

fun value_d :: "np_treeval \<Rightarrow> real option" where
  "value_d (TV_d x) = Some x"
| "value_d v = None"

fun value_ush :: "np_treeval \<Rightarrow> u8 option" where
  "value_ush (TV_ush w) = Some w"
| "value_ush v = None"

fun np_treeval_to_str :: "token_env \<Rightarrow> np_treeval \<Rightarrow> u8 list" where
  "np_treeval_to_str env (TV_s s) = s"
| "np_treeval_to_str env (TV_bin bs) = bytes_of_str (''0x'' @ bin2hex env bs)"
| "np_treeval_to_str env (TV_ush w) = bytes_of_str (snprintf_u env w)"
| "np_treeval_to_str env (TV_d x) = bytes_of_str (snprintf_f env x)"
| "np_treeval_to_str env (TV_other s) = s"

definition decode_field ::
  "bool \<Rightarrow> (string \<rightharpoonup> np_treeval) \<Rightarrow> string \<Rightarrow> (np_treeval \<Rightarrow> np_aaatoken \<Rightarrow> (bool \<times> np_aaatoken) option)
    \<Rightarrow> bool \<times> np_aaatoken \<Rightarrow> (bool \<times> np_aaatoken) option" where
  "decode_field mandatory data key f s =
     (case s of (ret, token) \<Rightarrow>
        if ret then (case data key of Some v \<Rightarrow> f v token | None \<Rightarrow> Some (\<not> mandatory, token)) else Some (False, token))"

definition set_bytes :: "(u8 list \<Rightarrow> np_aaatoken \<Rightarrow> np_aaatoken) \<Rightarrow> nat \<Rightarrow> np_treeval \<Rightarrow> np_aaatoken \<Rightarrow> (bool \<times> np_aaatoken) option" where
  "set_bytes upd n v token = map_option (\<lambda>bs. (True, upd bs token)) (value_bin n v)"

definition set_string :: "token_env \<Rightarrow> (u8 list \<Rightarrow> np_aaatoken \<Rightarrow> np_aaatoken) \<Rightarrow> nat \<Rightarrow> np_treeval \<Rightarrow> np_aaatoken \<Rightarrow> (bool \<times> np_aaatoken) option" where
  "set_string env upd n v token = Some (True, upd (c_strncpy n (np_treeval_to_str env v)) token)"

definition set_double :: "(real \<Rightarrow> np_aaatoken \<Rightarrow> np_aaatoken) \<Rightarrow> np_treeval \<Rightarrow> np_aaatoken \<Rightarrow> (bool \<times> np_aaatoken) option" where
  "set_double upd v token = map_option (\<lambda>x. (True, upd x token)) (value_d v)"

definition np_cryptofactory_by_public :: "token_env \<Rightarrow> np_crypto \<Rightarrow> u8 list \<Rightarrow> bool \<times> np_crypto" where
  "np_cryptofactory_by_public env buffer pk =
     (let buffer1 = buffer\<lparr>cr_ed25519_public_key := pk, cr_public_key_is_set := True\<rparr>
      in case pk_to_curve25519 env pk of
           None \<Rightarrow> (False, buffer1)
         | Some kx \<Rightarrow> (True, buffer1\<lparr>cr_derived_kx_public_key := kx, cr_kx_public_key_is_set := True,
             cr_secret_key_is_set := False, cr_kx_secret_key_is_set := False\<rparr>))"

text \<open>Overwriting the head of an array.\<close>

definition memcpy_into :: "u8 list \<Rightarrow> u8 list \<Rightarrow> u8 list" where
  "memcpy_into dest src = take (length dest) src @ drop (length src) dest"

definition decode_attributes ::
  "(string \<rightharpoonup> np_treeval) \<Rightarrow> np_treeval \<Rightarrow> np_aaatoken \<Rightarrow> (bool \<times> np_aaatoken) option" where
  "decode_attributes data v token =
     (case v of
        TV_bin attrs \<Rightarrow>
          (let token1 = token\<lparr>tk_attributes := memcpy_into (tk_attributes token) attrs\<rparr>
           in case data ''np.t.sie'' of
                Some (TV_bin sig) \<Rightarrow>
                  Some (True, token1\<lparr>tk_attributes_signature := memcpy_into (tk_attributes_signature token1) (take 64 sig),
                    tk_is_signature_attributes_verified := False\<rparr>)
              | Some w \<Rightarrow> None
              | None \<Rightarrow> Some (False, token1))
      | w \<Rightarrow> None)"

definition np_aaatoken_decode ::
  "token_env \<Rightarrow> (string \<rightharpoonup> np_treeval) \<Rightarrow> np_aaatoken \<Rightarrow> (bool \<times> np_aaatoken) option" where
  "np_aaatoken_decode env data token =
     do {
       let s0 = (True, token\<lparr>tk_scope := np_aaatoken_scope_undefined, tk_type := 0\<rparr>);
       s1 \<leftarrow> decode_field True data ''np.t.u'' (set_bytes (\<lambda>b. tk_uuid_update (\<lambda>_. b)) 16) s0;
       s2 \<leftarrow> decode_field True data ''np.t.type''
         (\<lambda>v t. map_option (\<lambda>w. (True, t\<lparr>tk_type := ucast w\<rparr>)) (value_ush v)) s1;
       s3 \<leftarrow> decode_field False data ''np.t.r'' (set_string env (\<lambda>b. tk_realm_update (\<lambda>_. b)) 255) s2;
       s4 \<leftarrow> decode_field True data ''np.t.i'' (set_string env (\<lambda>b. tk_issuer_update (\<lambda>_. b)) 65) s3;
       s5 \<leftarrow> decode_field True data ''np.t.s'' (set_string env (\<lambda>b. tk_subject_update (\<lambda>_. b)) 255) s4;
       s6 \<leftarrow> decode_field False data ''np.t.a'' (set_string env (\<lambda>b. tk_audience_update (\<lambda>_. b)) 255) s5;
       s7 \<leftarrow> decode_field True data ''np.t.p''
         (\<lambda>v t. map_option (\<lambda>pk. let (ok, c) = np_cryptofactory_by_public env (tk_crypto t) pk in (ok, t\<lparr>tk_crypto := c\<rparr>)) (value_bin 32 v)) s6;
       s8 \<leftarrow> decode_field True data ''np.t.ex'' (set_double (\<lambda>x. tk_expires_at_update (\<lambda>_. x))) s7;
       s9 \<leftarrow> decode_field False data ''np.t.ia'' (set_double (\<lambda>x. tk_issued_at_update (\<lambda>_. x))) s8;
       s10 \<leftarrow> decode_field False data ''np.t.nb'' (set_double (\<lambda>x. tk_not_before_update (\<lambda>_. x))) s9;
       s11 \<leftarrow> decode_field True data ''np.t.si''
         (set_bytes (\<lambda>b t. t\<lparr>tk_signature := b, tk_is_signature_verified := False\<rparr>) 64) s10;
       (ret, t) \<leftarrow> decode_field False data ''np.t.e'' (decode_attributes data) s11;
       Some (ret, np_aaatoken_update_scope t)
     }"

section \<open>Validity\<close>

definition invalidate :: "np_aaatoken \<Rightarrow> np_aaatoken" where
  "invalidate token = token\<lparr>tk_state := tk_state token AND NOT AAA_VALID\<rparr>"

definition verify_token :: "token_env \<Rightarrow> np_aaatoken \<Rightarrow> bool \<times> np_aaatoken" where
  "verify_token env token =
     (if tk_is_signature_verified token then (True, token)
      else if verify_detached env (tk_signature token) (np_aaatoken_get_hash env token) (cr_ed25519_public_key (tk_crypto token)) < 0
      then (False, token)
      else (True, token\<lparr>tk_is_signature_verified := True\<rparr>))"

definition verify_attributes :: "token_env \<Rightarrow> np_aaatoken \<Rightarrow> (bool \<times> np_aaatoken) option" where
  "verify_attributes env token =
     (if tk_is_signature_attributes_verified token then Some (True, token)
      else case get_data_size env (tk_attributes token) of
        None \<Rightarrow> Some (False, token)
      | Some _ \<Rightarrow> do {
          hash \<leftarrow> np_aaatoken_get_attributes_hash env token;
          (if verify_detached env (tk_attributes_signature token) hash (cr_ed25519_public_key (tk_crypto token)) = 0
           then Some (True, token\<lparr>tk_is_signature_attributes_verified := True\<rparr>)
           else Some (False, token))
        })"

definition check_thresholds :: "token_env \<Rightarrow> np_aaatoken \<Rightarrow> bool option" where
  "check_thresholds env token =
     (case (get_data env (tk_attributes token) ''max_threshold'', get_data env (tk_attributes token) ''msg_threshold'') of
        (Inr (D_uint token_max_threshold), Inr (D_uint token_msg_threshold)) \<Rightarrow> Some (token_msg_threshold \<le> token_max_threshold)
      | (Inr _, Inr _) \<Rightarrow> None
      | _ \<Rightarrow> Some False)"

text \<open>
  A token of another type than the expected one fails an assertion: the code is built with \<^verbatim>\<open>DEBUG\<close> defined.
\<close>

definition np_aaatoken_is_valid :: "token_env \<Rightarrow> real \<Rightarrow> np_aaatoken \<Rightarrow> u32 \<Rightarrow> (bool \<times> np_aaatoken) option" where
  "np_aaatoken_is_valid env now token expected_type =
     (if \<not> FLAG_CMP (tk_type token) expected_type then None
      else if now > tk_expires_at token then Some (False, invalidate token)
      else do {
        (ok, token1) \<leftarrow>
          (if tk_scope token > np_aaatoken_scope_private_available
           then (let (ok, token1) = verify_token env token in if ok then verify_attributes env token1 else Some (False, token1))
           else Some (True, token));
        (if \<not> ok then Some (False, invalidate token1)
         else do {
           ok2 \<leftarrow> (if FLAG_CMP (tk_type token1) np_aaatoken_type_message_intent then check_thresholds env token1 else Some True);
           (if ok2 then Some (True, token1\<lparr>tk_state := tk_state token1 OR AAA_VALID\<rparr>) else Some (False, invalidate token1))
         })
      })"

section \<open>Tokens of the user interface\<close>

record np_token =
  ut_uuid :: "u8 list"
  ut_subject :: "u8 list"
  ut_issuer :: "u8 list"
  ut_realm :: "u8 list"
  ut_audience :: "u8 list"
  ut_issued_at :: real
  ut_not_before :: real
  ut_expires_at :: real
  ut_public_key :: "u8 list"
  ut_secret_key :: "u8 list"
  ut_signature :: "u8 list"
  ut_attributes :: "u8 list"
  ut_attributes_signature :: "u8 list"

definition np_aaatoken4user :: "token_env \<Rightarrow> np_token \<Rightarrow> np_aaatoken \<Rightarrow> np_token option" where
  "np_aaatoken4user env dest src =
     do {
       realm \<leftarrow> np_dhkey_create_from_hash (hex2bin env) (str_of_bytes (c_str 255 (tk_realm src)));
       audience \<leftarrow> np_dhkey_create_from_hash (hex2bin env) (str_of_bytes (c_str 255 (tk_audience src)));
       issuer \<leftarrow> np_dhkey_create_from_hash (hex2bin env) (str_of_bytes (c_str 65 (tk_issuer src)));
       Some \<lparr>ut_uuid = tk_uuid src, ut_subject = c_strncpy 255 (c_str 255 (tk_subject src)),
         ut_issuer = dhkey_bytes issuer, ut_realm = dhkey_bytes realm, ut_audience = dhkey_bytes audience,
         ut_issued_at = tk_issued_at src, ut_not_before = tk_not_before src, ut_expires_at = tk_expires_at src,
         ut_public_key = cr_ed25519_public_key (tk_crypto src),
         ut_secret_key = (if tk_private_key_is_set src then cr_ed25519_secret_key (tk_crypto src) else replicate 64 0),
         ut_signature = tk_signature src,
         ut_attributes = (case get_data_size env (tk_attributes src) of
             Some n \<Rightarrow> if n \<le> length (tk_attributes src) then tk_attributes src else ut_attributes dest
           | None \<Rightarrow> ut_attributes dest),
         ut_attributes_signature = tk_attributes_signature src\<rparr>
     }"

text \<open>A zero id clears the first 32 bytes of the string only.\<close>

definition id_to_str :: "token_env \<Rightarrow> u8 list \<Rightarrow> u8 list \<Rightarrow> u8 list" where
  "id_to_str env dest src =
     (if src = dhkey_bytes dhkey_zero then memcpy_into dest (replicate 32 0)
      else memcpy_into dest (bytes_of_str (bin2hex env src) @ [0]))"

definition np_user4aaatoken :: "token_env \<Rightarrow> np_aaatoken \<Rightarrow> np_token \<Rightarrow> np_aaatoken option" where
  "np_user4aaatoken env dest src =
     (if length (tk_attributes dest) = length (ut_attributes src)
         \<and> length (tk_attributes_signature dest) = length (ut_attributes_signature src)
      then Some (np_aaatoken_update_scope (dest\<lparr>tk_expires_at := ut_expires_at src, tk_issued_at := ut_issued_at src,
        tk_not_before := ut_not_before src, tk_uuid := ut_uuid src,
        tk_issuer := id_to_str env (tk_issuer dest) (ut_issuer src),
        tk_realm := id_to_str env (tk_realm dest) (ut_realm src),
        tk_audience := id_to_str env (tk_audience dest) (ut_audience src),
        tk_subject := c_strncpy 255 (c_str 255 (ut_subject src)),
        tk_crypto := (tk_crypto dest)\<lparr>cr_ed25519_public_key := ut_public_key src, cr_public_key_is_set := True\<rparr>,
        tk_signature := ut_signature src, tk_attributes := ut_attributes src,
        tk_attributes_signature := ut_attributes_signature src\<rparr>))
      else None)"

section \<open>A token on its way to another node\<close>

lemma c_str_strncpy:
  assumes "length buf = n" "0 \<in> set buf"
  shows "c_str n (c_strncpy n (takeWhile (\<lambda>b. b \<noteq> 0) buf)) = c_str n buf"
proof -
  let ?s = "takeWhile (\<lambda>b. b \<noteq> 0) buf"
  have "?s \<noteq> buf" using assms(2) by (simp add: takeWhile_eq_all_conv)
  then have "length ?s \<noteq> length buf" by (metis takeWhile_eq_take take_all order_refl)
  then have "length ?s < n" using assms(1) length_takeWhile_le [of "\<lambda>b. b \<noteq> 0" buf] by simp
  then obtain m where m: "n - length ?s = Suc m" by (metis Suc_diff_Suc)
  have "c_strncpy n ?s = ?s @ 0 # replicate m 0"
    using m \<open>length ?s < n\<close> by (simp add: c_strncpy_def take_replicate min_def flip: replicate_Suc)
  moreover have "takeWhile (\<lambda>b. b \<noteq> 0) (?s @ 0 # replicate m 0) = ?s"
    by (subst takeWhile_append2) (auto dest: set_takeWhileD)
  moreover have "length (?s @ 0 # replicate m 0) = n" using m \<open>length ?s < n\<close> by simp
  ultimately show ?thesis using assms by (simp add: c_str_def)
qed

definition string_ok :: "nat \<Rightarrow> u8 list \<Rightarrow> bool" where
  "string_ok n buf \<longleftrightarrow> length buf = n \<and> 0 \<in> set buf"

definition token_ok :: "np_aaatoken \<Rightarrow> bool" where
  "token_ok t \<longleftrightarrow> length (tk_uuid t) = 16 \<and> string_ok 255 (tk_realm t) \<and> string_ok 65 (tk_issuer t)
     \<and> string_ok 255 (tk_subject t) \<and> string_ok 255 (tk_audience t) \<and> length (cr_ed25519_public_key (tk_crypto t)) = 32
     \<and> length (tk_attributes t) = 10240 \<and> length (tk_attributes_signature t) = 64 \<and> tk_type t = ucast (ucast (tk_type t) :: u8)"

lemma string_ok_new: "string_ok n buf \<Longrightarrow> np_treeval_new_s buf = Some (TV_s (takeWhile (\<lambda>b. b \<noteq> 0) buf))"
  by (simp add: np_treeval_new_s_def string_ok_def)

lemma string_ok_copy: "string_ok n buf \<Longrightarrow> c_str n (c_strncpy n (takeWhile (\<lambda>b. b \<noteq> 0) buf)) = c_str n buf"
  by (simp add: c_str_strncpy string_ok_def)

text \<open>The fields that reach the other side.\<close>

definition same_content :: "np_aaatoken \<Rightarrow> np_aaatoken \<Rightarrow> bool" where
  "same_content a b \<longleftrightarrow> tk_uuid a = tk_uuid b \<and> c_str 255 (tk_realm a) = c_str 255 (tk_realm b) \<and> c_str 65 (tk_issuer a) = c_str 65 (tk_issuer b)
     \<and> c_str 255 (tk_subject a) = c_str 255 (tk_subject b) \<and> c_str 255 (tk_audience a) = c_str 255 (tk_audience b)
     \<and> cr_ed25519_public_key (tk_crypto a) = cr_ed25519_public_key (tk_crypto b) \<and> tk_expires_at a = tk_expires_at b
     \<and> tk_issued_at a = tk_issued_at b \<and> tk_not_before a = tk_not_before b \<and> tk_signature a = tk_signature b
     \<and> tk_attributes_signature a = tk_attributes_signature b \<and> tk_type a = tk_type b"

lemma same_content_hash: "same_content a b \<Longrightarrow> np_aaatoken_get_hash env a = np_aaatoken_get_hash env b"
  by (simp add: same_content_def np_aaatoken_get_hash_def)

lemma decode_encode:
  assumes "token_ok t" "token_ok fresh" "get_data_size env (tk_attributes t) = Some n" "n \<le> 10240" "length (tk_signature t) = 64"
    "np_aaatoken_encode env data0 t = Some (data, enc)" "length (tk_attributes_signature enc) = 64"
    "pk_to_curve25519 env (cr_ed25519_public_key (tk_crypto t)) \<noteq> None" "\<not> tk_private_key_is_set fresh"
  shows "\<exists>got. np_aaatoken_decode env data fresh = Some (True, got) \<and> same_content got enc
    \<and> tk_scope got = np_aaatoken_scope_public \<and> \<not> tk_is_signature_verified got \<and> \<not> tk_is_signature_attributes_verified got
    \<and> length (tk_attributes got) = 10240 \<and> take n (tk_attributes got) = take n (tk_attributes t)"
proof -
  let ?d = "\<lambda>sig. data0(''np.t.type'' \<mapsto> TV_ush (ucast (tk_type t)), ''np.t.u'' \<mapsto> TV_bin (tk_uuid t),
      ''np.t.r'' \<mapsto> TV_s (takeWhile (\<lambda>b. b \<noteq> 0) (tk_realm t)), ''np.t.i'' \<mapsto> TV_s (takeWhile (\<lambda>b. b \<noteq> 0) (tk_issuer t)),
      ''np.t.s'' \<mapsto> TV_s (takeWhile (\<lambda>b. b \<noteq> 0) (tk_subject t)), ''np.t.a'' \<mapsto> TV_s (takeWhile (\<lambda>b. b \<noteq> 0) (tk_audience t)),
      ''np.t.p'' \<mapsto> TV_bin (cr_ed25519_public_key (tk_crypto t)), ''np.t.ex'' \<mapsto> TV_d (tk_expires_at t),
      ''np.t.ia'' \<mapsto> TV_d (tk_issued_at t), ''np.t.nb'' \<mapsto> TV_d (tk_not_before t), ''np.t.si'' \<mapsto> TV_bin (tk_signature t),
      ''np.t.e'' \<mapsto> TV_bin (take n (tk_attributes t)), ''np.t.sie'' \<mapsto> TV_bin sig)"
  have len: "length (tk_attributes t) = 10240" "length (tk_attributes fresh) = 10240" "length (tk_attributes_signature fresh) = 64"
      "length (tk_uuid t) = 16" "length (cr_ed25519_public_key (tk_crypto t)) = 32" using assms(1,2) by (simp_all add: token_ok_def)
  have strs: "string_ok 255 (tk_realm t)" "string_ok 65 (tk_issuer t)" "string_ok 255 (tk_subject t)" "string_ok 255 (tk_audience t)"
    using assms(1) by (simp_all add: token_ok_def)
  have "enc = t\<lparr>tk_attributes_signature := tk_attributes_signature enc\<rparr>" "data = ?d (tk_attributes_signature enc)"
    using assms(6) len(1) assms(3,4) string_ok_new [OF strs(1)] string_ok_new [OF strs(2)] string_ok_new [OF strs(3)] string_ok_new [OF strs(4)]
    by (auto simp: np_aaatoken_encode_def np_aaatoken_update_attributes_signature_def Let_def split: bind_splits if_splits)
  then obtain sig where enc: "enc = t\<lparr>tk_attributes_signature := sig\<rparr>" and data: "data = ?d sig" by blast
  obtain kx where kx: "pk_to_curve25519 env (cr_ed25519_public_key (tk_crypto t)) = Some kx" using assms(8) by blast
  have sig: "length sig = 64" using assms(7) by (simp add: enc)
  have ty: "ucast (ucast (tk_type t) :: u8) = tk_type t" using assms(1) by (simp add: token_ok_def)
  show ?thesis
    unfolding data enc
    by (simp add: np_aaatoken_decode_def decode_field_def set_bytes_def set_string_def set_double_def decode_attributes_def
        np_cryptofactory_by_public_def kx Let_def len assms(4,5,9) sig np_aaatoken_update_scope_def same_content_def ty memcpy_into_def
        string_ok_copy [OF strs(1)] string_ok_copy [OF strs(2)] string_ok_copy [OF strs(3)] string_ok_copy [OF strs(4)])
qed

text \<open>A pair of keys of the signature scheme: what the secret key signs, the public key verifies.\<close>

definition key_pair :: "token_env \<Rightarrow> u8 list \<Rightarrow> u8 list \<Rightarrow> bool" where
  "key_pair env sk pk \<longleftrightarrow>
     (\<forall>hash. \<exists>sig. sign_detached env hash sk = Some sig \<and> length sig = 64 \<and> verify_detached env sig hash pk = 0)"

text \<open>A data block of \<open>n\<close> bytes: bytes behind the used length do not matter.\<close>

definition datablock :: "token_env \<Rightarrow> u8 list \<Rightarrow> nat \<Rightarrow> bool" where
  "datablock env attrs n \<longleftrightarrow> n \<le> length attrs
     \<and> (\<forall>bs. length bs = length attrs \<longrightarrow> take n bs = take n attrs \<longrightarrow> get_data_size env bs = Some n \<and> get_data env bs = get_data env attrs)"

lemma datablockD:
  assumes "datablock env attrs n" "length bs = length attrs" "take n bs = take n attrs"
  shows "get_data_size env bs = Some n" "get_data env bs = get_data env attrs"
  using assms unfolding datablock_def by blast+

lemma datablock_le: "datablock env attrs n \<Longrightarrow> n \<le> length attrs"
  unfolding datablock_def by blast

lemma key_pairD:
  assumes "key_pair env sk pk"
  obtains sig where "sign_detached env hash sk = Some sig" "length sig = 64" "verify_detached env sig hash pk = 0"
  using assms by (auto simp: key_pair_def)

lemma encode_signs:
  assumes "token_ok t" "tk_scope t \<le> np_aaatoken_scope_private_available" "issuer_secret t = Some sk" "key_pair env sk pk"
    "get_data_size env (tk_attributes t) = Some n" "n \<le> 10240"
  obtains data sig where "np_aaatoken_encode env data0 t = Some (data, t\<lparr>tk_attributes_signature := sig\<rparr>)" "length sig = 64"
    "verify_detached env sig (generichash env (take n (tk_attributes t) @ tk_signature t)) pk = 0"
proof -
  have strs: "string_ok 255 (tk_realm t)" "string_ok 65 (tk_issuer t)" "string_ok 255 (tk_subject t)" "string_ok 255 (tk_audience t)"
    and len: "length (tk_attributes t) = 10240" using assms(1) by (simp_all add: token_ok_def)
  obtain sig where sig: "sign_detached env (generichash env (take n (tk_attributes t) @ tk_signature t)) sk = Some sig" "length sig = 64"
      "verify_detached env sig (generichash env (take n (tk_attributes t) @ tk_signature t)) pk = 0"
    using assms(4) by (rule key_pairD)
  have "np_aaatoken_update_attributes_signature env t = Some (t\<lparr>tk_attributes_signature := sig\<rparr>)"
    using assms sig(1) len by (simp add: np_aaatoken_update_attributes_signature_def np_aaatoken_get_attributes_hash_def)
  then obtain data where "np_aaatoken_encode env data0 t = Some (data, t\<lparr>tk_attributes_signature := sig\<rparr>)"
    using assms(2,5,6) len
    by (simp add: np_aaatoken_encode_def string_ok_new [OF strs(1)] string_ok_new [OF strs(2)] string_ok_new [OF strs(3)] string_ok_new [OF strs(4)])
  then show thesis using sig that by blast
qed

text \<open>
  C8: A token that holds or can use its private key and is signed, encoded and decoded by another node arrives with
  the same content and is valid there for every type it carries until it expires, whatever its \<^verbatim>\<open>not_before\<close> says,
  and is invalid afterwards. The signature scheme verifies what it signs, the attributes are a data block, and the
  thresholds of an intent are not used up.
\<close>

theorem token_travels:
  assumes "token_ok t" "token_ok fresh" "\<not> tk_private_key_is_set fresh"
    and "tk_scope t \<le> np_aaatoken_scope_private_available" "cr_public_key_is_set (tk_crypto t)"
    and "issuer_secret t = Some sk" "key_pair env sk (cr_ed25519_public_key (tk_crypto t))"
    and "pk_to_curve25519 env (cr_ed25519_public_key (tk_crypto t)) \<noteq> None"
    and "datablock env (tk_attributes t) n"
    and "FLAG_CMP (tk_type t) np_aaatoken_type_message_intent \<longrightarrow> check_thresholds env t = Some True"
    and "FLAG_CMP (tk_type t) expected"
  shows "\<exists>signed data sent got.
    np_aaatoken_set_signature env t None = Some signed
    \<and> np_aaatoken_encode env (\<lambda>_. None) signed = Some (data, sent)
    \<and> np_aaatoken_decode env data fresh = Some (True, got)
    \<and> same_content got sent \<and> take n (tk_attributes got) = take n (tk_attributes t) \<and> tk_scope got = np_aaatoken_scope_public
    \<and> (\<exists>checked. np_aaatoken_is_valid env now got expected = Some (now \<le> tk_expires_at t, checked))"
proof -
  let ?pk = "cr_ed25519_public_key (tk_crypto t)"
  obtain sig where sig: "sign_detached env (np_aaatoken_get_hash env t) sk = Some sig" "length sig = 64"
      "verify_detached env sig (np_aaatoken_get_hash env t) ?pk = 0" using assms(7) by (rule key_pairD)
  let ?s = "t\<lparr>tk_signature := sig\<rparr>"
  have signed: "np_aaatoken_set_signature env t None = Some ?s" using assms sig(1) by (simp add: np_aaatoken_set_signature_def)
  have len: "length (tk_attributes t) = 10240" using assms(1) by (simp add: token_ok_def)
  then have n: "n \<le> 10240" "get_data_size env (tk_attributes t) = Some n"
    using datablock_le [OF assms(9)] datablockD(1) [OF assms(9) refl refl] by simp_all
  have ok: "token_ok ?s" "issuer_secret ?s = Some sk" using assms(1,6) by (simp_all add: token_ok_def issuer_secret_def split: issuer_ref.splits)
  obtain data asig where enc: "np_aaatoken_encode env (\<lambda>_. None) ?s = Some (data, ?s\<lparr>tk_attributes_signature := asig\<rparr>)" "length asig = 64"
      "verify_detached env asig (generichash env (take n (tk_attributes ?s) @ tk_signature ?s)) ?pk = 0"
    by (rule encode_signs [OF ok(1) _ ok(2), of env ?pk n "\<lambda>_. None"]) (use assms(4,7) n in simp_all)
  have s: "get_data_size env (tk_attributes ?s) = Some n" "length (tk_signature ?s) = 64"
      "length (tk_attributes_signature (?s\<lparr>tk_attributes_signature := asig\<rparr>)) = 64"
      "pk_to_curve25519 env (cr_ed25519_public_key (tk_crypto ?s)) \<noteq> None" using n(2) sig(2) enc(2) assms(8) by simp_all
  obtain got where got: "np_aaatoken_decode env data fresh = Some (True, got)" "same_content got (?s\<lparr>tk_attributes_signature := asig\<rparr>)"
      "tk_scope got = np_aaatoken_scope_public" "\<not> tk_is_signature_verified got" "\<not> tk_is_signature_attributes_verified got"
      "length (tk_attributes got) = 10240" "take n (tk_attributes got) = take n (tk_attributes ?s)"
    using decode_encode [OF ok(1) assms(2) s(1) n(1) s(2) enc(1) s(3,4) assms(3)] by blast
  have block: "get_data_size env (tk_attributes got) = Some n" "get_data env (tk_attributes got) = get_data env (tk_attributes t)"
    using datablockD [OF assms(9), of "tk_attributes got"] got(6,7) len by simp_all
  have fields: "tk_signature got = sig" "tk_attributes_signature got = asig" "cr_ed25519_public_key (tk_crypto got) = ?pk"
      "tk_type got = tk_type t" "tk_expires_at got = tk_expires_at t" using got(2) by (simp_all add: same_content_def)
  have hash: "np_aaatoken_get_hash env got = np_aaatoken_get_hash env t"
    using same_content_hash [OF got(2), of env] by (simp add: np_aaatoken_get_hash_def)
  have "verify_token env got = (True, got\<lparr>tk_is_signature_verified := True\<rparr>)"
    using got(4) sig(3) by (simp add: verify_token_def fields hash)
  moreover have "verify_attributes env (got\<lparr>tk_is_signature_verified := True\<rparr>)
      = Some (True, got\<lparr>tk_is_signature_verified := True, tk_is_signature_attributes_verified := True\<rparr>)"
    using got(5,6,7) enc(3) n(1) by (simp add: verify_attributes_def np_aaatoken_get_attributes_hash_def block fields)
  moreover have "check_thresholds env (got\<lparr>tk_is_signature_verified := True, tk_is_signature_attributes_verified := True\<rparr>)
      = check_thresholds env t"
    by (simp add: check_thresholds_def block)
  ultimately have "\<exists>checked. np_aaatoken_is_valid env now got expected = Some (now \<le> tk_expires_at t, checked)"
    using assms(10,11) got(3) by (simp add: np_aaatoken_is_valid_def fields Let_def)
  then show ?thesis using signed enc(1) got by auto
qed

definition demo_env :: token_env where
  "demo_env = \<lparr>generichash = (\<lambda>bs. take 32 (bs @ replicate 32 0)), sign_detached = (\<lambda>h sk. Some (take 64 (h @ replicate 64 0))),
     verify_detached = (\<lambda>sig h pk. if sig = take 64 (h @ replicate 64 0) then 0 else - 1), pk_to_curve25519 = Some,
     bin2hex = (\<lambda>bs. []), hex2bin = (\<lambda>s. Some (replicate 32 0)), snprintf_u = (\<lambda>w. ''1''), snprintf_f = (\<lambda>x. ''1''),
     double_bytes = (\<lambda>x. replicate 8 0), init_datablock = (\<lambda>n. replicate n 0), get_data_size = (\<lambda>bs. Some 0),
     get_data = (\<lambda>bs key. Inl np_key_not_found), set_data = (\<lambda>bs key v. Some bs)\<rparr>"

definition demo_token :: np_aaatoken where
  "demo_token = np_aaatoken_new demo_env (replicate 16 7) 100 3"

definition demo_identity :: np_aaatoken where
  "demo_identity = demo_token\<lparr>tk_type := np_aaatoken_type_identity, tk_scope := np_aaatoken_scope_private, tk_private_key_is_set := True,
     tk_crypto := (tk_crypto demo_token)\<lparr>cr_public_key_is_set := True, cr_secret_key_is_set := True\<rparr>\<rparr>"

lemma demo_ok: "token_ok demo_token" "token_ok demo_identity"
  by (simp_all add: token_ok_def string_ok_def demo_token_def demo_identity_def np_aaatoken_new_def demo_env_def)

theorem token_travels_witness:
  "\<exists>signed data sent got.
    np_aaatoken_set_signature demo_env demo_identity None = Some signed
    \<and> np_aaatoken_encode demo_env (\<lambda>_. None) signed = Some (data, sent)
    \<and> np_aaatoken_decode demo_env data demo_token = Some (True, got)
    \<and> same_content got sent \<and> take 0 (tk_attributes got) = take 0 (tk_attributes demo_identity)
    \<and> tk_scope got = np_aaatoken_scope_public
    \<and> (\<exists>checked. np_aaatoken_is_valid demo_env 105 got np_aaatoken_type_identity = Some (105 \<le> tk_expires_at demo_identity, checked))"
proof (rule token_travels [OF demo_ok(2,1)])
  show "key_pair demo_env (replicate 64 0) (cr_ed25519_public_key (tk_crypto demo_identity))"
    by (auto simp: key_pair_def demo_env_def min_def)
  show "datablock demo_env (tk_attributes demo_identity) 0" by (simp add: datablock_def demo_env_def)
qed (simp_all add: demo_identity_def demo_token_def np_aaatoken_new_def issuer_secret_def demo_env_def FLAG_CMP_def)

text \<open>
  A tree value of another type in the place of the uuid is read as a pointer.
\<close>

lemma decode_type_confusion:
  assumes "data ''np.t.u'' = Some (TV_ush w)"
  shows "np_aaatoken_decode env data token = None"
  using assms by (simp add: np_aaatoken_decode_def decode_field_def set_bytes_def)

end
