(* ===== verification/Np_Key_Events.thy ===== *)
theory Np_Key_Events
  imports Np_Settings Np_Aaatoken Np_Bloom
begin

text \<open>
  Events that reach a key, and the conditions that the state machine of keys tests on them
  (\<^verbatim>\<open>src/core/np_comp_node.c\<close>, \<^verbatim>\<open>np_comp_alias.c\<close>, \<^verbatim>\<open>np_comp_identity.c\<close>, \<^verbatim>\<open>np_comp_intent.c\<close>,
  \<^verbatim>\<open>np_comp_msgproperty.c\<close>, \<^verbatim>\<open>src/np_key.c\<close>).

  A condition reads the key and the event; the ones that ask a stable bloom filter whether something is a
  duplicate also change the filter, so conditions return the key as well. \<open>None\<close> is a failed assertion, a NULL
  pointer that is followed, or an object used as one of another type. The flags that the check of a token caches
  in the token are not carried from one condition to the next. \<open>key_env\<close> holds what a condition asks outside of
  key and event: the time, the own node key, the key cache, the configured subjects and the crypto sessions.
\<close>

section \<open>Objects\<close>

record peer_node =
  pn_host_key :: "string option"
  pn_ip_string :: "string option"
  pn_port :: "string option"
  pn_join_send_at :: real
  pn_leave_send_at :: real
  pn_connection_attempts :: u8
  pn_is_in_routing_table :: bool
  pn_is_in_leafset :: bool
  pn_success_avg :: real
  pn_msg_forward_filter :: np_bloom

datatype np_mx_audience_type = NP_MX_AUD_PUBLIC | NP_MX_AUD_VIRTUAL | NP_MX_AUD_PROTECTED | NP_MX_AUD_PRIVATE

record np_msgproperty_conf =
  mc_is_internal :: bool
  mc_audience_type :: np_mx_audience_type
  mc_max_threshold :: u32

record np_msgproperty_run =
  mr_msg_threshold :: u32

text \<open>The header fields of a part are pointers into its buffer, \<open>None\<close> is NULL.\<close>

record np_messagepart =
  mp_subject :: "np_dhkey option"
  mp_audience :: "np_dhkey option"
  mp_tstamp :: "real option"
  mp_ttl :: "u32 option"
  mp_uuid :: "u8 list option"
  mp_nonce :: "u8 list option"
  mp_chunk_offset :: u16

datatype np_memory_types =
  T_none | T_BLOB_1024 | T_np_message | T_np_msgproperty_conf | T_np_msgproperty_run | T_np_node | T_np_responsecontainer
  | T_np_messagepart | T_np_aaatoken

datatype np_object =
  O_blob | O_message | O_conf np_msgproperty_conf | O_run np_msgproperty_run | O_node peer_node | O_response
  | O_messagepart np_messagepart | O_token np_aaatoken | O_bloom np_bloom

fun memory_type :: "np_object \<Rightarrow> np_memory_types" where
  "memory_type O_blob = T_BLOB_1024"
| "memory_type O_message = T_np_message"
| "memory_type (O_conf c) = T_np_msgproperty_conf"
| "memory_type (O_run r) = T_np_msgproperty_run"
| "memory_type (O_node n) = T_np_node"
| "memory_type O_response = T_np_responsecontainer"
| "memory_type (O_messagepart m) = T_np_messagepart"
| "memory_type (O_token t) = T_np_aaatoken"
| "memory_type (O_bloom b) = T_none"

definition np_memory_get_type :: "np_object option \<Rightarrow> np_memory_types" where
  "np_memory_get_type item = (case item of None \<Rightarrow> T_none | Some obj \<Rightarrow> memory_type obj)"

definition np_memory_rtti_check :: "np_object option \<Rightarrow> np_memory_types \<Rightarrow> bool" where
  "np_memory_rtti_check item ty = (case item of None \<Rightarrow> False | Some obj \<Rightarrow> memory_type obj = ty)"

text \<open>\<^verbatim>\<open>NP_CAST\<close> followed by the use of the object.\<close>

definition cast_token :: "np_object option \<Rightarrow> np_aaatoken option" where
  "cast_token item = (case item of Some (O_token t) \<Rightarrow> Some t | _ \<Rightarrow> None)"

definition cast_node :: "np_object option \<Rightarrow> peer_node option" where
  "cast_node item = (case item of Some (O_node n) \<Rightarrow> Some n | _ \<Rightarrow> None)"

definition cast_messagepart :: "np_object option \<Rightarrow> np_messagepart option" where
  "cast_messagepart item = (case item of Some (O_messagepart m) \<Rightarrow> Some m | _ \<Rightarrow> None)"

definition cast_conf :: "np_object option \<Rightarrow> np_msgproperty_conf option" where
  "cast_conf item = (case item of Some (O_conf c) \<Rightarrow> Some c | _ \<Rightarrow> None)"

definition cast_run :: "np_object option \<Rightarrow> np_msgproperty_run option" where
  "cast_run item = (case item of Some (O_run r) \<Rightarrow> Some r | _ \<Rightarrow> None)"

definition cast_bloom :: "np_object option \<Rightarrow> np_bloom option" where
  "cast_bloom item = (case item of Some (O_bloom b) \<Rightarrow> Some b | _ \<Rightarrow> None)"

lemmas cast_defs = cast_token_def cast_node_def cast_messagepart_def cast_conf_def cast_run_def cast_bloom_def
  np_memory_get_type_def np_memory_rtti_check_def

section \<open>Events and keys\<close>

definition evt_noop :: u32 where "evt_noop = 0x0000"
definition evt_internal :: u32 where "evt_internal = 0x0001"
definition evt_external :: u32 where "evt_external = 0x0002"
definition evt_timeout :: u32 where "evt_timeout = 0x0004"
definition evt_userspace :: u32 where "evt_userspace = 0x0008"
definition evt_message :: u32 where "evt_message = 0x0010"
definition evt_token :: u32 where "evt_token = 0x0020"
definition evt_property :: u32 where "evt_property = 0x0040"
definition evt_response :: u32 where "evt_response = 0x0080"
definition evt_authn :: u32 where "evt_authn = 0x0100"
definition evt_authz :: u32 where "evt_authz = 0x0200"
definition evt_accnt :: u32 where "evt_accnt = 0x0400"
definition evt_redeliver :: u32 where "evt_redeliver = 0x0800"
definition evt_shutdown :: u32 where "evt_shutdown = 0x1000"
definition evt_disable :: u32 where "evt_disable = 0x2000"
definition evt_enable :: u32 where "evt_enable = 0x4000"

lemmas evt_defs = evt_noop_def evt_internal_def evt_external_def evt_timeout_def evt_userspace_def evt_message_def
  evt_token_def evt_property_def evt_response_def evt_authn_def evt_authz_def evt_accnt_def evt_redeliver_def
  evt_shutdown_def evt_disable_def evt_enable_def

record np_event =
  ev_source_dhkey :: np_dhkey
  ev_target_dhkey :: np_dhkey
  ev_type :: u32
  ev_user_data :: "np_object option"

definition np_key_type_unknown :: u32 where "np_key_type_unknown = 0x001"
definition np_key_type_alias :: u32 where "np_key_type_alias = 0x002"
definition np_key_type_node :: u32 where "np_key_type_node = 0x004"
definition np_key_type_wildcard :: u32 where "np_key_type_wildcard = 0x008"

lemmas key_type_defs = np_key_type_unknown_def np_key_type_alias_def np_key_type_node_def np_key_type_wildcard_def

record np_key =
  k_dhkey :: np_dhkey
  k_parent_dhkey :: np_dhkey
  k_type :: u32
  k_created_at :: real
  k_last_update :: real
  k_entity_array :: "np_object option list"

definition e_handshake_token :: nat where "e_handshake_token = 0"
definition e_aaatoken :: nat where "e_aaatoken = 1"
definition e_nodeinfo :: nat where "e_nodeinfo = 2"
definition e_network :: nat where "e_network = 3"

definition entity :: "np_key \<Rightarrow> nat \<Rightarrow> np_object option" where
  "entity key i = (case rd (k_entity_array key) i of None \<Rightarrow> None | Some e \<Rightarrow> e)"

text \<open>\<^verbatim>\<open>_np_key_get_node\<close> and \<^verbatim>\<open>_np_key_get_token\<close>: a pointer that may be NULL.\<close>

definition np_key_get_node :: "np_key \<Rightarrow> np_object option" where
  "np_key_get_node key = entity key e_nodeinfo"

definition np_key_get_token :: "np_key \<Rightarrow> np_object option" where
  "np_key_get_token key = entity key e_aaatoken"

record key_env =
  ke_now :: real
  ke_token :: token_env
  ke_blake2b :: "u8 list \<Rightarrow> u8 list"
  ke_my_node_key :: np_dhkey
  ke_keycache_exists :: "np_dhkey \<Rightarrow> bool"
  ke_msgproperty_conf_get :: "np_dhkey \<Rightarrow> np_msgproperty_conf option"
  ke_has_crypto_session :: "np_key \<Rightarrow> np_dhkey \<Rightarrow> bool"

definition token_is_valid :: "key_env \<Rightarrow> np_aaatoken \<Rightarrow> u32 \<Rightarrow> bool option" where
  "token_is_valid env token expected = map_option fst (np_aaatoken_is_valid (ke_token env) (ke_now env) token expected)"

definition np_generate_subject :: "key_env \<Rightarrow> np_dhkey \<Rightarrow> u8 list \<Rightarrow> np_dhkey" where
  "np_generate_subject env subject_id subject = np_dhkey_xor subject_id (np_dhkey_generate_hash (ke_blake2b env) subject)"

definition subject_of :: "key_env \<Rightarrow> string \<Rightarrow> np_dhkey" where
  "subject_of env name = np_generate_subject env dhkey_zero (bytes_of_str name)"

section \<open>Conditions of nodes\<close>

abbreviation event_is :: "np_event \<Rightarrow> u32 \<Rightarrow> bool" where
  "event_is ev flag \<equiv> FLAG_CMP (ev_type ev) flag"

definition is_noop_event :: "np_event \<Rightarrow> bool option" where
  "is_noop_event ev = Some (event_is ev evt_noop)"

definition issuer_is_source :: "key_env \<Rightarrow> np_aaatoken \<Rightarrow> np_event \<Rightarrow> bool option" where
  "issuer_is_source env token ev =
     do {
       issuer_dhkey \<leftarrow> np_str_dhkey (hex2bin (ke_token env)) (str_of_bytes (tk_issuer token));
       Some (np_dhkey_equal issuer_dhkey (ev_source_dhkey ev))
     }"

definition is_node_handshake_token :: "key_env \<Rightarrow> np_event \<Rightarrow> bool option" where
  "is_node_handshake_token env ev =
     (if (event_is ev evt_token \<and> event_is ev evt_external) \<and> np_memory_get_type (ev_user_data ev) = T_np_aaatoken
      then do {
        hs_token \<leftarrow> cast_token (ev_user_data ev);
        ret \<leftarrow> (if FLAG_CMP (tk_type hs_token) np_aaatoken_type_handshake then issuer_is_source env hs_token ev else Some False);
        valid \<leftarrow> token_is_valid env hs_token (tk_type hs_token);
        Some (ret \<and> valid)
      }
      else Some False)"

definition is_shutdown_event :: "key_env \<Rightarrow> np_key \<Rightarrow> np_event \<Rightarrow> bool option" where
  "is_shutdown_event env key ev =
     do {
       let ret0 = event_is ev evt_shutdown;
       ret1 \<leftarrow> (if ret0 \<and> event_is ev evt_external
         then do {
           remote_token \<leftarrow> cast_token (ev_user_data ev);
           valid \<leftarrow> token_is_valid env remote_token np_aaatoken_type_node;
           (if np_key_get_token key \<noteq> None \<and> valid
            then do {
              local_token \<leftarrow> cast_token (np_key_get_token key);
              Some (cr_ed25519_public_key (tk_crypto remote_token) = cr_ed25519_public_key (tk_crypto local_token))
            }
            else Some valid)
         }
         else Some ret0);
       Some (if ret1 \<and> event_is ev evt_internal then np_dhkey_equal (k_dhkey key) (ev_target_dhkey ev) else ret1)
     }"

definition is_node_token :: "key_env \<Rightarrow> np_event \<Rightarrow> bool option" where
  "is_node_token env ev =
     (if (event_is ev evt_token \<and> event_is ev evt_external) \<and> np_memory_get_type (ev_user_data ev) = T_np_aaatoken
      then do {
        token \<leftarrow> cast_token (ev_user_data ev);
        valid \<leftarrow> token_is_valid env token (tk_type token);
        Some (FLAG_CMP (tk_type token) np_aaatoken_type_node \<and> \<not> tk_private_key_is_set token \<and> valid)
      }
      else Some False)"

definition key_token_invalid :: "key_env \<Rightarrow> np_key \<Rightarrow> (np_aaatoken \<Rightarrow> u32) \<Rightarrow> bool option" where
  "key_token_invalid env key expected =
     (case np_key_get_token key of
        None \<Rightarrow> Some True
      | Some obj \<Rightarrow> do { token \<leftarrow> cast_token (Some obj); valid \<leftarrow> token_is_valid env token (expected token); Some (\<not> valid) })"

definition is_node_invalid :: "key_env \<Rightarrow> np_key \<Rightarrow> np_event \<Rightarrow> bool option" where
  "is_node_invalid env node_key ev =
     (if \<not> event_is ev evt_noop then Some False
      else if FLAG_CMP (k_type node_key) np_key_type_unknown then Some True
      else if k_created_at node_key + BAD_LINK_REMOVE_GRACETIME > ke_now env then Some False
      else case np_key_get_node node_key of
        None \<Rightarrow> Some True
      | Some obj \<Rightarrow> do {
          node \<leftarrow> cast_node (Some obj);
          (if pn_connection_attempts node > 15 then Some True
           else if \<not> pn_is_in_leafset node \<and> \<not> pn_is_in_routing_table node then Some True
           else if pn_success_avg node < BAD_LINK then Some True
           else key_token_invalid env node_key tk_type)
        })"

definition has_to_leave :: "key_env \<Rightarrow> np_key \<Rightarrow> np_event \<Rightarrow> bool option" where
  "has_to_leave env node_key ev =
     (if \<not> event_is ev evt_noop then Some False
      else if \<not> FLAG_CMP (k_type node_key) np_key_type_node then Some True
      else if k_created_at node_key + BAD_LINK_REMOVE_GRACETIME > ke_now env + NP_PI then Some False
      else case np_key_get_node node_key of
        None \<Rightarrow> Some True
      | Some obj \<Rightarrow> do {
          node \<leftarrow> cast_node (Some obj);
          let ret = ((\<not> pn_is_in_leafset node \<and> \<not> pn_is_in_routing_table node) \<or> pn_success_avg node < BAD_LINK);
          Some (if pn_leave_send_at node > pn_join_send_at node then True else ret)
        })"

definition np_node_check_address_validity :: "peer_node \<Rightarrow> bool" where
  "np_node_check_address_validity node \<longleftrightarrow> pn_ip_string node \<noteq> None \<and> pn_port node \<noteq> None"

definition host_key_head :: "peer_node \<Rightarrow> char option" where
  "host_key_head node = do { h \<leftarrow> pn_host_key node; Some (case h of [] \<Rightarrow> CHR 0x00 | c # cs \<Rightarrow> c) }"

definition is_wildcard_key :: "np_event \<Rightarrow> bool option" where
  "is_wildcard_key ev =
     (if event_is ev evt_internal \<and> np_memory_rtti_check (ev_user_data ev) T_np_node
      then do {
        node \<leftarrow> cast_node (ev_user_data ev);
        c \<leftarrow> host_key_head node;
        Some (np_node_check_address_validity node \<and> c = CHR ''*'')
      }
      else Some False)"

definition is_node_info :: "np_event \<Rightarrow> bool option" where
  "is_node_info ev =
     (if event_is ev evt_internal \<and> np_memory_rtti_check (ev_user_data ev) T_np_node
      then do {
        node \<leftarrow> cast_node (ev_user_data ev);
        c \<leftarrow> host_key_head node;
        Some (np_node_check_address_validity node \<and> c \<noteq> CHR ''*'')
      }
      else Some False)"

definition is_node_authn :: "np_event \<Rightarrow> bool option" where
  "is_node_authn ev =
     Some ((event_is ev evt_internal \<and> event_is ev evt_token) \<and> event_is ev evt_authn
       \<and> np_memory_rtti_check (ev_user_data ev) T_np_aaatoken)"

definition is_node_identity_authn :: "key_env \<Rightarrow> np_key \<Rightarrow> np_event \<Rightarrow> bool option" where
  "is_node_identity_authn env node_key ev =
     (if (event_is ev evt_internal \<and> event_is ev evt_token) \<and> event_is ev evt_authn
         \<and> np_memory_rtti_check (ev_user_data ev) T_np_aaatoken
      then do {
        token \<leftarrow> cast_token (ev_user_data ev);
        (if FLAG_CMP (tk_type token) np_aaatoken_type_identity
         then do {
           partner_fp \<leftarrow> np_aaatoken_get_partner_fp (ke_token env) token;
           Some (np_dhkey_equal partner_fp (k_dhkey node_key))
         }
         else Some False)
      }
      else Some False)"

definition is_wildcard_invalid :: "key_env \<Rightarrow> np_key \<Rightarrow> bool option" where
  "is_wildcard_invalid env wildcard_key =
     Some (FLAG_CMP (k_type wildcard_key) np_key_type_wildcard \<and> k_created_at wildcard_key + 10 < ke_now env)"

definition internal_message :: "np_event \<Rightarrow> bool" where
  "internal_message ev \<longleftrightarrow> event_is ev evt_internal \<and> event_is ev evt_message"

definition is_np_message :: "np_key \<Rightarrow> np_event \<Rightarrow> bool option" where
  "is_np_message node_key ev =
     Some (internal_message ev \<and> FLAG_CMP (k_type node_key) np_key_type_node \<and> ev_user_data ev \<noteq> None
       \<and> np_memory_rtti_check (ev_user_data ev) T_np_message)"

definition u16_bytes :: "u16 \<Rightarrow> u8 list" where
  "u16_bytes w = [ucast w, ucast (drop_bit 8 w)]"

text \<open>The check of the stable filter enters the message, so the node of the key changes.\<close>

definition is_new_np_messagepart :: "key_env \<Rightarrow> np_key \<Rightarrow> np_event \<Rightarrow> (bool \<times> np_key) option" where
  "is_new_np_messagepart env node_key ev =
     do {
       msg_part \<leftarrow> cast_messagepart (ev_user_data ev);
       node \<leftarrow> cast_node (np_key_get_node node_key);
       uuid \<leftarrow> mp_uuid msg_part;
       nonce \<leftarrow> mp_nonce msg_part;
       audience \<leftarrow> mp_audience msg_part;
       let cache_msg_id = np_generate_subject env audience (uuid @ nonce @ u16_bytes (mp_chunk_offset msg_part));
       (is_duplicate, filter1) \<leftarrow> np_stable_bloom_check (pn_msg_forward_filter node) cache_msg_id;
       Some (\<not> is_duplicate, node_key\<lparr>k_entity_array :=
         (k_entity_array node_key)[e_nodeinfo := Some (O_node (node\<lparr>pn_msg_forward_filter := filter1\<rparr>))]\<rparr>)
     }"

definition is_np_messagepart :: "key_env \<Rightarrow> np_key \<Rightarrow> np_event \<Rightarrow> (bool \<times> np_key) option" where
  "is_np_messagepart env node_key ev =
     (if internal_message ev \<and> FLAG_CMP (k_type node_key) np_key_type_node \<and> ev_user_data ev \<noteq> None
         \<and> np_memory_rtti_check (ev_user_data ev) T_np_messagepart
      then do {
        (ret, node_key1) \<leftarrow> is_new_np_messagepart env node_key ev;
        (if ret
         then do {
           msg_part \<leftarrow> cast_messagepart (ev_user_data ev);
           subject \<leftarrow> mp_subject msg_part;
           Some (\<not> np_dhkey_equal subject (subject_of env ''_NP.HANDSHAKE''), node_key1)
         }
         else Some (False, node_key1))
      }
      else Some (False, node_key))"

definition is_handshake_message :: "key_env \<Rightarrow> np_key \<Rightarrow> np_event \<Rightarrow> bool option" where
  "is_handshake_message env node_key ev =
     (if internal_message ev \<and> (FLAG_CMP (k_type node_key) np_key_type_wildcard \<or> FLAG_CMP (k_type node_key) np_key_type_node)
         \<and> np_memory_rtti_check (ev_user_data ev) T_np_messagepart
      then do {
        hs_messagepart \<leftarrow> cast_messagepart (ev_user_data ev);
        subject \<leftarrow> mp_subject hs_messagepart;
        Some (np_dhkey_equal subject (subject_of env ''_NP.HANDSHAKE''))
      }
      else Some False)"

definition is_invalid_message :: "np_event \<Rightarrow> bool option" where
  "is_invalid_message ev =
     Some (internal_message ev \<and> ev_user_data ev \<noteq> None \<and> np_memory_rtti_check (ev_user_data ev) T_np_messagepart)"

definition is_join_out_message :: "key_env \<Rightarrow> np_event \<Rightarrow> bool option" where
  "is_join_out_message env ev =
     (if internal_message ev \<and> ev_user_data ev \<noteq> None \<and> np_memory_rtti_check (ev_user_data ev) T_np_messagepart
      then do {
        join_message \<leftarrow> cast_messagepart (ev_user_data ev);
        subject \<leftarrow> mp_subject join_message;
        Some (np_dhkey_equal subject (subject_of env ''_NP.JOIN.REQUEST'')
          \<or> np_dhkey_equal subject (subject_of env ''_NP.LEAVE.REQUEST''))
      }
      else Some False)"

section \<open>Conditions of identities\<close>

definition is_identity_aaatoken :: "key_env \<Rightarrow> np_event \<Rightarrow> bool option" where
  "is_identity_aaatoken env ev =
     (if (event_is ev evt_internal \<and> event_is ev evt_token) \<and> np_memory_get_type (ev_user_data ev) = T_np_aaatoken
      then do {
        identity \<leftarrow> cast_token (ev_user_data ev);
        valid \<leftarrow> token_is_valid env identity (tk_type identity);
        Some ((FLAG_CMP (tk_type identity) np_aaatoken_type_identity \<or> FLAG_CMP (tk_type identity) np_aaatoken_type_node
            \<or> FLAG_CMP (tk_type identity) np_aaatoken_type_handshake)
          \<and> (tk_private_key_is_set identity \<or> FLAG_CMP (tk_scope identity) np_aaatoken_scope_private
            \<or> FLAG_CMP (tk_scope identity) np_aaatoken_scope_private_available)
          \<and> valid)
      }
      else Some False)"

definition is_identity_invalid :: "key_env \<Rightarrow> np_key \<Rightarrow> bool option" where
  "is_identity_invalid env key =
     (case entity key e_aaatoken of
        None \<Rightarrow> Some False
      | Some obj \<Rightarrow> do {
          identity \<leftarrow> cast_token (Some obj);
          valid \<leftarrow> token_is_valid env identity (tk_type identity);
          Some ((tk_type identity = np_aaatoken_type_identity
              \<or> (tk_type identity = np_aaatoken_type_node \<and> tk_private_key_is_set identity)) \<and> \<not> valid)
        })"

definition is_identity_authn :: "bool option" where
  "is_identity_authn = Some False"

definition is_unencrypted_np_message :: "np_event \<Rightarrow> bool option" where
  "is_unencrypted_np_message ev =
     Some ((event_is ev evt_external \<and> event_is ev evt_message) \<and> np_memory_rtti_check (ev_user_data ev) T_BLOB_1024)"

text \<open>Requests are checked against the filter of tokens seen before, which lies at index 4 of the entities.\<close>

definition token_request ::
  "key_env \<Rightarrow> u32 \<Rightarrow> (np_aaatoken \<Rightarrow> bool) \<Rightarrow> np_key \<Rightarrow> np_event \<Rightarrow> (bool \<times> np_key) option" where
  "token_request env flag type_ok key ev =
     (if event_is ev flag \<and> (event_is ev evt_external \<and> event_is ev evt_token) \<and> np_memory_get_type (ev_user_data ev) = T_np_aaatoken
      then do {
        token \<leftarrow> cast_token (ev_user_data ev);
        let cache_token_id = np_generate_subject env dhkey_zero (tk_attributes_signature token);
        duplicate_filter \<leftarrow> cast_bloom (entity key 4);
        (is_duplicate, filter1) \<leftarrow> np_stable_bloom_check duplicate_filter cache_token_id;
        let key1 = key\<lparr>k_entity_array := (k_entity_array key)[4 := Some (O_bloom filter1)]\<rparr>;
        (if is_duplicate then Some (False, key1)
         else do { valid \<leftarrow> token_is_valid env token (tk_type token); Some (type_ok token \<and> valid, key1) })
      }
      else Some (False, key))"

definition is_authn_request :: "key_env \<Rightarrow> np_key \<Rightarrow> np_event \<Rightarrow> (bool \<times> np_key) option" where
  "is_authn_request env =
     token_request env evt_authn (\<lambda>token. FLAG_CMP (tk_type token) np_aaatoken_type_identity \<or> FLAG_CMP (tk_type token) np_aaatoken_type_node)"

definition is_authz_request :: "key_env \<Rightarrow> np_key \<Rightarrow> np_event \<Rightarrow> (bool \<times> np_key) option" where
  "is_authz_request env =
     token_request env evt_authz (\<lambda>token. FLAG_CMP (tk_type token) np_aaatoken_type_identity \<or> FLAG_CMP (tk_type token) np_aaatoken_type_node
       \<or> FLAG_CMP (tk_type token) np_aaatoken_type_message_intent)"

definition is_account_request :: "bool option" where
  "is_account_request = Some False"

section \<open>Conditions of aliases\<close>

definition is_alias_handshake_token :: "key_env \<Rightarrow> np_event \<Rightarrow> bool option" where
  "is_alias_handshake_token env ev =
     (if (event_is ev evt_token \<and> event_is ev evt_external) \<and> np_memory_rtti_check (ev_user_data ev) T_np_aaatoken
      then do {
        hs_token \<leftarrow> cast_token (ev_user_data ev);
        ret \<leftarrow> (if tk_type hs_token = np_aaatoken_type_handshake
          then map_option Not (issuer_is_source env hs_token ev) else Some False);
        valid \<leftarrow> token_is_valid env hs_token (tk_type hs_token);
        Some (ret \<and> valid)
      }
      else Some False)"

definition is_unused :: "key_env \<Rightarrow> np_key \<Rightarrow> bool option" where
  "is_unused env key = Some (k_last_update key + BAD_LINK_REMOVE_GRACETIME < ke_now env)"

definition is_alias_node_info :: "np_event \<Rightarrow> bool option" where
  "is_alias_node_info ev =
     (if event_is ev evt_external \<and> np_memory_rtti_check (ev_user_data ev) T_np_node
      then do { my_node \<leftarrow> cast_node (ev_user_data ev); Some (np_node_check_address_validity my_node) }
      else Some False)"

definition is_crypted_message :: "np_key \<Rightarrow> np_event \<Rightarrow> bool option" where
  "is_crypted_message alias_key ev =
     Some (FLAG_CMP (k_type alias_key) np_key_type_alias \<and> event_is ev evt_message \<and> event_is ev evt_external
       \<and> np_memory_rtti_check (ev_user_data ev) T_BLOB_1024)"

text \<open>In spite of its name the function answers whether the part is still to be delivered.\<close>

definition is_msgpart_expired :: "key_env \<Rightarrow> np_messagepart \<Rightarrow> bool option" where
  "is_msgpart_expired env part =
     do {
       tstamp \<leftarrow> mp_tstamp part;
       ttl \<leftarrow> mp_ttl part;
       Some (ke_now env < tstamp + real (unat ttl))
     }"

definition alias_messagepart :: "np_key \<Rightarrow> np_event \<Rightarrow> bool" where
  "alias_messagepart alias_key ev \<longleftrightarrow> FLAG_CMP (k_type alias_key) np_key_type_alias
     \<and> (event_is ev evt_message \<and> event_is ev evt_external) \<and> ev_user_data ev \<noteq> None
     \<and> np_memory_rtti_check (ev_user_data ev) T_np_messagepart"

definition alias_node_known :: "np_key \<Rightarrow> bool option" where
  "alias_node_known alias_key =
     (case np_key_get_node alias_key of
        None \<Rightarrow> Some False
      | Some obj \<Rightarrow> do { alias_node \<leftarrow> cast_node (Some obj); Some (pn_is_in_leafset alias_node \<or> pn_is_in_routing_table alias_node) })"

definition is_join_in_message :: "key_env \<Rightarrow> np_key \<Rightarrow> np_event \<Rightarrow> bool option" where
  "is_join_in_message env alias_key ev =
     (if alias_messagepart alias_key ev
      then do {
        join_message \<leftarrow> cast_messagepart (ev_user_data ev);
        live \<leftarrow> is_msgpart_expired env join_message;
        subject \<leftarrow> mp_subject join_message;
        Some (live \<and> (np_dhkey_equal subject (subject_of env ''_NP.JOIN.REQUEST'')
          \<or> np_dhkey_equal subject (subject_of env ''_NP.LEAVE.REQUEST'')))
      }
      else Some False)"

definition is_forward_message :: "key_env \<Rightarrow> np_key \<Rightarrow> np_event \<Rightarrow> bool option" where
  "is_forward_message env alias_key ev =
     (if alias_messagepart alias_key ev
      then do {
        known \<leftarrow> alias_node_known alias_key;
        (if known
         then do {
           forward_message \<leftarrow> cast_messagepart (ev_user_data ev);
           live \<leftarrow> is_msgpart_expired env forward_message;
           audience \<leftarrow> mp_audience forward_message;
           Some (live \<and> \<not> np_dhkey_equal (ke_my_node_key env) audience)
         }
         else Some False)
      }
      else Some False)"

definition is_discovery_message :: "key_env \<Rightarrow> np_key \<Rightarrow> np_event \<Rightarrow> bool option" where
  "is_discovery_message env alias_key ev =
     do {
       ret \<leftarrow> is_forward_message env alias_key ev;
       (if ret
        then do {
          discovery_message \<leftarrow> cast_messagepart (ev_user_data ev);
          live \<leftarrow> is_msgpart_expired env discovery_message;
          subject \<leftarrow> mp_subject discovery_message;
          Some (live \<and> (np_dhkey_equal subject (subject_of env ''_NP.MESSAGE.RECEIVER.TOKEN'')
            \<or> np_dhkey_equal subject (subject_of env ''_NP.MESSAGE.SENDER.TOKEN'')))
        }
        else Some False)
     }"

definition is_pheromone_message :: "key_env \<Rightarrow> np_key \<Rightarrow> np_event \<Rightarrow> bool option" where
  "is_pheromone_message env alias_key ev =
     (if alias_messagepart alias_key ev
      then do {
        known \<leftarrow> alias_node_known alias_key;
        (if known
         then do {
           pheromone_message \<leftarrow> cast_messagepart (ev_user_data ev);
           live \<leftarrow> is_msgpart_expired env pheromone_message;
           subject \<leftarrow> mp_subject pheromone_message;
           Some (live \<and> np_dhkey_equal subject (subject_of env ''_NP.PHEROMONE.UPDATE''))
         }
         else Some False)
      }
      else Some False)"

definition dht_subject :: "key_env \<Rightarrow> np_dhkey \<Rightarrow> bool" where
  "dht_subject env subject \<longleftrightarrow>
     np_dhkey_equal subject (subject_of env ''_NP.ACK'') \<or> np_dhkey_equal subject (subject_of env ''_NP.PING.REQUEST'')
     \<or> np_dhkey_equal subject (subject_of env ''_NP.NODES.PIGGY'') \<or> np_dhkey_equal subject (subject_of env ''_NP.NODES.UPDATE'')
     \<or> np_dhkey_equal subject (subject_of env ''_NP.LEAVE.REQUEST'')"

definition is_dht_message :: "key_env \<Rightarrow> np_key \<Rightarrow> np_event \<Rightarrow> bool option" where
  "is_dht_message env alias_key ev =
     (if alias_messagepart alias_key ev
      then do {
        known \<leftarrow> alias_node_known alias_key;
        (if known
         then do {
           dht_message \<leftarrow> cast_messagepart (ev_user_data ev);
           subject \<leftarrow> mp_subject dht_message;
           (if dht_subject env subject
            then do {
              live \<leftarrow> is_msgpart_expired env dht_message;
              audience \<leftarrow> mp_audience dht_message;
              Some (live \<and> np_dhkey_equal (ke_my_node_key env) audience)
            }
            else Some False)
         }
         else Some False)
      }
      else Some False)"

definition user_property :: "key_env \<Rightarrow> np_dhkey \<Rightarrow> bool" where
  "user_property env subject \<longleftrightarrow> (case ke_msgproperty_conf_get env subject of
     None \<Rightarrow> False | Some user_prop \<Rightarrow> \<not> mc_is_internal user_prop \<and> mc_audience_type user_prop \<noteq> NP_MX_AUD_VIRTUAL)"

definition is_usr_in_message :: "key_env \<Rightarrow> np_key \<Rightarrow> np_event \<Rightarrow> bool option" where
  "is_usr_in_message env alias_key ev =
     (if alias_messagepart alias_key ev
      then do {
        usr_message \<leftarrow> cast_messagepart (ev_user_data ev);
        live \<leftarrow> is_msgpart_expired env usr_message;
        subject \<leftarrow> mp_subject usr_message;
        Some (live \<and> user_property env subject)
      }
      else Some False)"

definition is_alias_invalid :: "key_env \<Rightarrow> np_key \<Rightarrow> bool option" where
  "is_alias_invalid env alias_key =
     (if FLAG_CMP (k_type alias_key) np_key_type_unknown then Some True
      else if k_created_at alias_key + BAD_LINK_REMOVE_GRACETIME > ke_now env then Some False
      else if np_dhkey_cmp dhkey_zero (k_parent_dhkey alias_key) \<noteq> 0 \<and> \<not> ke_keycache_exists env (k_parent_dhkey alias_key) then Some True
      else if k_last_update alias_key + BAD_LINK_REMOVE_GRACETIME < ke_now env then Some True
      else do {
        alias_node \<leftarrow> cast_node (np_key_get_node alias_key);
        (if \<not> pn_is_in_leafset alias_node \<and> \<not> pn_is_in_routing_table alias_node then Some True
         else if pn_success_avg alias_node < BAD_LINK then Some True
         else key_token_invalid env alias_key (\<lambda>_. np_aaatoken_type_node))
      })"

section \<open>Conditions of subjects\<close>

definition is_intent_authz :: "key_env \<Rightarrow> np_event \<Rightarrow> bool option" where
  "is_intent_authz env ev =
     (if event_is ev evt_authz \<and> (event_is ev evt_external \<and> event_is ev evt_token) \<and> np_memory_get_type (ev_user_data ev) = T_np_aaatoken
      then do {
        token \<leftarrow> cast_token (ev_user_data ev);
        valid \<leftarrow> token_is_valid env token np_aaatoken_type_message_intent;
        Some (FLAG_CMP (tk_type token) np_aaatoken_type_message_intent \<and> valid)
      }
      else Some False)"

definition is_msgproperty :: "np_event \<Rightarrow> bool option" where
  "is_msgproperty ev =
     Some ((event_is ev evt_property \<and> event_is ev evt_internal) \<and> np_memory_get_type (ev_user_data ev) = T_np_msgproperty_conf)"

definition is_msgproperty_lifecycle_enable :: "np_event \<Rightarrow> bool option" where
  "is_msgproperty_lifecycle_enable ev =
     Some (event_is ev evt_enable \<and> (event_is ev evt_property \<and> event_is ev evt_internal)
       \<and> np_memory_get_type (ev_user_data ev) = T_np_msgproperty_run)"

definition is_msgproperty_lifecycle_disable :: "np_event \<Rightarrow> bool option" where
  "is_msgproperty_lifecycle_disable ev =
     Some (event_is ev evt_disable \<and> (event_is ev evt_property \<and> event_is ev evt_internal)
       \<and> np_memory_get_type (ev_user_data ev) = T_np_msgproperty_run)"

definition is_external_message_event :: "np_event \<Rightarrow> bool" where
  "is_external_message_event ev \<longleftrightarrow> (event_is ev evt_message \<and> event_is ev evt_external)
     \<and> np_memory_rtti_check (ev_user_data ev) T_np_message"

definition is_internal_message_event :: "np_event \<Rightarrow> bool" where
  "is_internal_message_event ev \<longleftrightarrow> (event_is ev evt_message \<and> event_is ev evt_internal) \<and> \<not> event_is ev evt_redeliver
     \<and> (np_memory_rtti_check (ev_user_data ev) T_np_message \<or> np_memory_rtti_check (ev_user_data ev) T_np_messagepart)"

definition msgproperty_threshold_increase :: "np_msgproperty_conf \<Rightarrow> np_msgproperty_run \<Rightarrow> np_msgproperty_run" where
  "msgproperty_threshold_increase conf run =
     (if mr_msg_threshold run < mc_max_threshold conf then run\<lparr>mr_msg_threshold := mr_msg_threshold run + 1\<rparr> else run)"

definition msgproperty_threshold_breached :: "np_msgproperty_conf \<Rightarrow> np_msgproperty_run \<Rightarrow> bool" where
  "msgproperty_threshold_breached conf run \<longleftrightarrow> mr_msg_threshold run > mc_max_threshold conf"

definition msgproperty_threshold_decrease :: "np_msgproperty_run \<Rightarrow> np_msgproperty_run" where
  "msgproperty_threshold_decrease run =
     (if mr_msg_threshold run > 0 then run\<lparr>mr_msg_threshold := mr_msg_threshold run - 1\<rparr> else run)"

definition session_available :: "key_env \<Rightarrow> np_key \<Rightarrow> np_msgproperty_conf \<Rightarrow> np_msgproperty_run \<Rightarrow> np_event \<Rightarrow> bool" where
  "session_available env property_key conf run ev \<longleftrightarrow> mc_is_internal conf
     \<or> (\<not> msgproperty_threshold_breached conf run \<and> ke_has_crypto_session env property_key (ev_target_dhkey ev))"

definition is_sender_token_available :: "key_env \<Rightarrow> np_key \<Rightarrow> np_event \<Rightarrow> bool option" where
  "is_sender_token_available env property_key ev =
     do {
       conf \<leftarrow> cast_conf (entity property_key 0);
       run \<leftarrow> cast_run (entity property_key 1);
       Some (is_external_message_event ev \<and> session_available env property_key conf run ev)
     }"

definition is_receiver_token_available :: "key_env \<Rightarrow> np_key \<Rightarrow> np_event \<Rightarrow> bool option" where
  "is_receiver_token_available env property_key ev =
     (if is_internal_message_event ev
      then do {
        conf \<leftarrow> cast_conf (entity property_key 0);
        run \<leftarrow> cast_run (entity property_key 1);
        Some (session_available env property_key conf run ev)
      }
      else Some False)"

definition is_no_token_available :: "np_event \<Rightarrow> bool option" where
  "is_no_token_available ev =
     Some ((ev_user_data ev \<noteq> None \<and> np_memory_rtti_check (ev_user_data ev) T_np_message)
       \<or> is_internal_message_event ev \<or> is_external_message_event ev)"

definition is_message_redelivery_event :: "np_event \<Rightarrow> bool option" where
  "is_message_redelivery_event ev =
     Some (event_is ev evt_message \<and> (event_is ev evt_redeliver \<and> event_is ev evt_internal)
       \<and> np_memory_rtti_check (ev_user_data ev) T_np_message)"

definition is_response_event :: "np_event \<Rightarrow> bool option" where
  "is_response_event ev =
     Some (event_is ev evt_response \<and> (event_is ev evt_timeout \<or> event_is ev evt_internal)
       \<and> np_memory_rtti_check (ev_user_data ev) T_np_responsecontainer)"

end
