(* ===== verification/Np_Key.thy ===== *)
theory Np_Key
  imports Np_Statemachine Np_Key_Events
begin

text \<open>
  The state machine of a key (\<^verbatim>\<open>src/np_key.c\<close>): its states, the table of transitions that
  \<^verbatim>\<open>__np_key_populate_states\<close> builds, and the handling of events. The conditions are those of the theory
  \<open>Np_Key_Events\<close>; the actions belong to the components of nodes, aliases, identities and subjects and are an
  argument, the function \<open>acts\<close> that says what an action makes of the machine. An action may fail, and it may
  move the machine: \<^verbatim>\<open>__np_node_send_shutdown_event\<close> hands an event to its own key before it returns.
\<close>

section \<open>The table\<close>

definition UNUSED :: u8 where "UNUSED = 0"
definition IN_SETUP_NODE :: u8 where "IN_SETUP_NODE = 1"
definition IN_SETUP_ALIAS :: u8 where "IN_SETUP_ALIAS = 2"
definition IN_SETUP_WILDCARD :: u8 where "IN_SETUP_WILDCARD = 3"
definition IN_SETUP_IDENTITY :: u8 where "IN_SETUP_IDENTITY = 4"
definition IN_USE_IDENTITY :: u8 where "IN_USE_IDENTITY = 5"
definition IN_USE_NODE :: u8 where "IN_USE_NODE = 6"
definition IN_USE_ALIAS :: u8 where "IN_USE_ALIAS = 7"
definition IN_USE_MSGPROPERTY :: u8 where "IN_USE_MSGPROPERTY = 8"
definition ON_HOLD_MSGPROPERTY :: u8 where "ON_HOLD_MSGPROPERTY = 9"
definition IN_DESTROY :: u8 where "IN_DESTROY = 10"
definition MAX_KEY_STATES :: nat where "MAX_KEY_STATES = 11"

lemmas key_states = UNUSED_def IN_SETUP_NODE_def IN_SETUP_ALIAS_def IN_SETUP_WILDCARD_def IN_SETUP_IDENTITY_def IN_USE_IDENTITY_def
  IN_USE_NODE_def IN_USE_ALIAS_def IN_USE_MSGPROPERTY_def ON_HOLD_MSGPROPERTY_def IN_DESTROY_def

datatype key_action =
  Keystate_noop | Np_wildcard_set | Np_node_set_node | Np_alias_set | Np_alias_set_node | Np_node_set | Np_set_identity
  | Np_set_property | Np_alias_set_node_destroy | Np_create_session | Np_alias_decrypt | Np_handle_np_message
  | Np_node_update_token | Np_node_upgrade | Np_alias_destroy | Np_create_client_network | Np_node_send_direct
  | Np_node_send_encrypted | Np_node_discard_message | Np_node_split_message | Np_node_identity_upgrade | Np_node_destroy
  | Np_node_handle_completion | Np_identity_update | Np_identity_destroy | Np_wildcard_destroy | Np_handle_usr_msg
  | Np_handle_pheromone | Np_handle_np_discovery | Np_handle_np_forward | Np_alias_shutdown | Np_alias_update
  | Np_node_add_to_leafset | Np_node_handle_response | Np_node_send_shutdown | Np_node_send_shutdown_event
  | Np_node_update | Np_create_identity_network | Np_extract_handshake | Np_identity_handle_authn
  | Np_identity_handle_authz | Np_identity_handle_account | Np_identity_shutdown | Np_property_lifecycle_set
  | Np_response_handler_set | Np_property_redelivery_set | Np_property_handle_in_msg | Np_property_handle_out_msg
  | Np_property_handle_intent | Np_property_add_msg_to_cache | Np_property_update | Np_property_check | Np_key_destroy

datatype key_cond =
  Is_wildcard_key | Is_node_info | Is_alias_handshake_token | Is_alias_node_info | Is_node_handshake_token
  | Is_node_token | Is_identity_aaatoken | Is_msgproperty | Is_unused | Is_crypted_message | Is_join_in_message
  | Is_node_authn | Is_alias_invalid | Is_handshake_message | Is_join_out_message | Is_invalid_message | Is_np_message
  | Is_node_identity_authn | Is_shutdown_event | Is_node_invalid | Is_identity_authn | Is_identity_invalid
  | Is_wildcard_invalid | Is_usr_in_message | Is_dht_message | Is_pheromone_message | Is_discovery_message
  | Is_forward_message | Is_np_messagepart | Is_response_event | Has_to_leave | Is_unencrypted_np_message
  | Is_authn_request | Is_authz_request | Is_account_request | Is_noop_event | Is_msgproperty_lifecycle_disable
  | Is_message_redelivery_event | Is_sender_token_available | Is_receiver_token_available | Is_intent_authz
  | Is_no_token_available | Is_msgproperty_lifecycle_enable

definition observe :: "np_key \<Rightarrow> bool option \<Rightarrow> (bool \<times> np_key) option" where
  "observe key r = map_option (\<lambda>b. (b, key)) r"

fun key_condition :: "key_env \<Rightarrow> key_cond \<Rightarrow> np_key \<Rightarrow> np_event \<Rightarrow> (bool \<times> np_key) option" where
  "key_condition env Is_wildcard_key key ev = observe key (is_wildcard_key ev)"
| "key_condition env Is_node_info key ev = observe key (is_node_info ev)"
| "key_condition env Is_alias_handshake_token key ev = observe key (is_alias_handshake_token env ev)"
| "key_condition env Is_alias_node_info key ev = observe key (is_alias_node_info ev)"
| "key_condition env Is_node_handshake_token key ev = observe key (is_node_handshake_token env ev)"
| "key_condition env Is_node_token key ev = observe key (is_node_token env ev)"
| "key_condition env Is_identity_aaatoken key ev = observe key (is_identity_aaatoken env ev)"
| "key_condition env Is_msgproperty key ev = observe key (is_msgproperty ev)"
| "key_condition env Is_unused key ev = observe key (is_unused env key)"
| "key_condition env Is_crypted_message key ev = observe key (is_crypted_message key ev)"
| "key_condition env Is_join_in_message key ev = observe key (is_join_in_message env key ev)"
| "key_condition env Is_node_authn key ev = observe key (is_node_authn ev)"
| "key_condition env Is_alias_invalid key ev = observe key (is_alias_invalid env key)"
| "key_condition env Is_handshake_message key ev = observe key (is_handshake_message env key ev)"
| "key_condition env Is_join_out_message key ev = observe key (is_join_out_message env ev)"
| "key_condition env Is_invalid_message key ev = observe key (is_invalid_message ev)"
| "key_condition env Is_np_message key ev = observe key (is_np_message key ev)"
| "key_condition env Is_node_identity_authn key ev = observe key (is_node_identity_authn env key ev)"
| "key_condition env Is_shutdown_event key ev = observe key (is_shutdown_event env key ev)"
| "key_condition env Is_node_invalid key ev = observe key (is_node_invalid env key ev)"
| "key_condition env Is_identity_authn key ev = observe key (is_identity_authn)"
| "key_condition env Is_identity_invalid key ev = observe key (is_identity_invalid env key)"
| "key_condition env Is_wildcard_invalid key ev = observe key (is_wildcard_invalid env key)"
| "key_condition env Is_usr_in_message key ev = observe key (is_usr_in_message env key ev)"
| "key_condition env Is_dht_message key ev = observe key (is_dht_message env key ev)"
| "key_condition env Is_pheromone_message key ev = observe key (is_pheromone_message env key ev)"
| "key_condition env Is_discovery_message key ev = observe key (is_discovery_message env key ev)"
| "key_condition env Is_forward_message key ev = observe key (is_forward_message env key ev)"
| "key_condition env Is_np_messagepart key ev = is_np_messagepart env key ev"
| "key_condition env Is_response_event key ev = observe key (is_response_event ev)"
| "key_condition env Has_to_leave key ev = observe key (has_to_leave env key ev)"
| "key_condition env Is_unencrypted_np_message key ev = observe key (is_unencrypted_np_message ev)"
| "key_condition env Is_authn_request key ev = is_authn_request env key ev"
| "key_condition env Is_authz_request key ev = is_authz_request env key ev"
| "key_condition env Is_account_request key ev = observe key (is_account_request)"
| "key_condition env Is_noop_event key ev = observe key (is_noop_event ev)"
| "key_condition env Is_msgproperty_lifecycle_disable key ev = observe key (is_msgproperty_lifecycle_disable ev)"
| "key_condition env Is_message_redelivery_event key ev = observe key (is_message_redelivery_event ev)"
| "key_condition env Is_sender_token_available key ev = observe key (is_sender_token_available env key ev)"
| "key_condition env Is_receiver_token_available key ev = observe key (is_receiver_token_available env key ev)"
| "key_condition env Is_intent_authz key ev = observe key (is_intent_authz env ev)"
| "key_condition env Is_no_token_available key ev = observe key (is_no_token_available ev)"
| "key_condition env Is_msgproperty_lifecycle_enable key ev = observe key (is_msgproperty_lifecycle_enable ev)"

text \<open>One function for each block of \<^verbatim>\<open>__np_key_populate_states\<close>.\<close>

type_synonym key_table = "(key_action, key_cond) state_table"

definition populate_UNUSED :: "key_table \<Rightarrow> key_table option" where
  "populate_UNUSED states =
     do {
       s1 \<leftarrow> STATEMACHINE_STATE UNUSED (bytes_of_str ''UNUSED'') (Some Keystate_noop) (Some Keystate_noop) (Some Keystate_noop) states;
       s2 \<leftarrow> STATEMACHINE_TRANSITION UNUSED IN_SETUP_WILDCARD (Some Np_wildcard_set) (Some Is_wildcard_key) s1;
       s3 \<leftarrow> STATEMACHINE_TRANSITION UNUSED IN_SETUP_NODE (Some Np_node_set_node) (Some Is_node_info) s2;
       s4 \<leftarrow> STATEMACHINE_TRANSITION UNUSED IN_SETUP_ALIAS (Some Np_alias_set) (Some Is_alias_handshake_token) s3;
       s5 \<leftarrow> STATEMACHINE_TRANSITION UNUSED UNUSED (Some Np_alias_set_node) (Some Is_alias_node_info) s4;
       s6 \<leftarrow> STATEMACHINE_TRANSITION UNUSED IN_SETUP_NODE (Some Np_node_set) (Some Is_node_handshake_token) s5;
       s7 \<leftarrow> STATEMACHINE_TRANSITION UNUSED IN_SETUP_NODE (Some Np_node_set) (Some Is_node_token) s6;
       s8 \<leftarrow> STATEMACHINE_TRANSITION UNUSED IN_USE_IDENTITY (Some Np_set_identity) (Some Is_identity_aaatoken) s7;
       s9 \<leftarrow> STATEMACHINE_TRANSITION UNUSED IN_USE_MSGPROPERTY (Some Np_set_property) (Some Is_msgproperty) s8;
       STATEMACHINE_TRANSITION UNUSED IN_DESTROY (Some Np_alias_set_node_destroy) (Some Is_unused) s9
     }"

definition populate_IN_SETUP_ALIAS :: "key_table \<Rightarrow> key_table option" where
  "populate_IN_SETUP_ALIAS states =
     do {
       s1 \<leftarrow> STATEMACHINE_STATE IN_SETUP_ALIAS (bytes_of_str ''IN_SETUP_ALIAS'') (Some Keystate_noop) (Some Np_create_session) (Some Keystate_noop) states;
       s2 \<leftarrow> STATEMACHINE_TRANSITION IN_SETUP_ALIAS IN_SETUP_ALIAS (Some Np_alias_decrypt) (Some Is_crypted_message) s1;
       s3 \<leftarrow> STATEMACHINE_TRANSITION IN_SETUP_ALIAS IN_SETUP_ALIAS (Some Np_handle_np_message) (Some Is_join_in_message) s2;
       s4 \<leftarrow> STATEMACHINE_TRANSITION IN_SETUP_ALIAS IN_SETUP_ALIAS (Some Np_node_update_token) (Some Is_node_token) s3;
       s5 \<leftarrow> STATEMACHINE_TRANSITION IN_SETUP_ALIAS IN_USE_ALIAS (Some Np_node_upgrade) (Some Is_node_authn) s4;
       STATEMACHINE_TRANSITION IN_SETUP_ALIAS IN_DESTROY (Some Np_alias_destroy) (Some Is_alias_invalid) s5
     }"

definition populate_IN_SETUP_NODE :: "key_table \<Rightarrow> key_table option" where
  "populate_IN_SETUP_NODE states =
     do {
       s1 \<leftarrow> STATEMACHINE_STATE IN_SETUP_NODE (bytes_of_str ''IN_SETUP_NODE'') (Some Keystate_noop) (Some Np_create_client_network) (Some Keystate_noop) states;
       s2 \<leftarrow> STATEMACHINE_TRANSITION IN_SETUP_NODE IN_SETUP_NODE (Some Np_node_send_direct) (Some Is_handshake_message) s1;
       s3 \<leftarrow> STATEMACHINE_TRANSITION IN_SETUP_NODE IN_SETUP_NODE (Some Np_node_send_encrypted) (Some Is_join_out_message) s2;
       s4 \<leftarrow> STATEMACHINE_TRANSITION IN_SETUP_NODE IN_SETUP_NODE (Some Np_node_discard_message) (Some Is_invalid_message) s3;
       s5 \<leftarrow> STATEMACHINE_TRANSITION IN_SETUP_NODE IN_SETUP_NODE (Some Np_node_split_message) (Some Is_np_message) s4;
       s6 \<leftarrow> STATEMACHINE_TRANSITION IN_SETUP_NODE IN_SETUP_NODE (Some Np_node_update_token) (Some Is_node_handshake_token) s5;
       s7 \<leftarrow> STATEMACHINE_TRANSITION IN_SETUP_NODE IN_SETUP_NODE (Some Np_node_update_token) (Some Is_node_token) s6;
       s8 \<leftarrow> STATEMACHINE_TRANSITION IN_SETUP_NODE IN_USE_NODE (Some Np_node_identity_upgrade) (Some Is_node_identity_authn) s7;
       s9 \<leftarrow> STATEMACHINE_TRANSITION IN_SETUP_NODE IN_USE_NODE (Some Np_node_upgrade) (Some Is_node_authn) s8;
       s10 \<leftarrow> STATEMACHINE_TRANSITION IN_SETUP_NODE IN_DESTROY (Some Np_node_destroy) (Some Is_shutdown_event) s9;
       s11 \<leftarrow> STATEMACHINE_TRANSITION IN_SETUP_NODE IN_DESTROY (Some Np_node_destroy) (Some Is_node_invalid) s10;
       STATEMACHINE_TRANSITION IN_SETUP_NODE IN_SETUP_NODE (Some Np_node_handle_completion) None s11
     }"

definition populate_IN_SETUP_IDENTITY :: "key_table \<Rightarrow> key_table option" where
  "populate_IN_SETUP_IDENTITY states =
     do {
       s1 \<leftarrow> STATEMACHINE_STATE IN_SETUP_IDENTITY (bytes_of_str ''IN_SETUP_IDENTITY'') (Some Keystate_noop) (Some Keystate_noop) (Some Keystate_noop) states;
       s2 \<leftarrow> STATEMACHINE_TRANSITION IN_SETUP_IDENTITY IN_USE_IDENTITY (Some Np_identity_update) (Some Is_identity_authn) s1;
       STATEMACHINE_TRANSITION IN_SETUP_IDENTITY IN_DESTROY (Some Np_identity_destroy) (Some Is_identity_invalid) s2
     }"

definition populate_IN_SETUP_WILDCARD :: "key_table \<Rightarrow> key_table option" where
  "populate_IN_SETUP_WILDCARD states =
     do {
       s1 \<leftarrow> STATEMACHINE_STATE IN_SETUP_WILDCARD (bytes_of_str ''IN_SETUP_WILDCARD'') (Some Keystate_noop) (Some Np_create_client_network) (Some Keystate_noop) states;
       s2 \<leftarrow> STATEMACHINE_TRANSITION IN_SETUP_WILDCARD IN_SETUP_WILDCARD (Some Np_node_send_direct) (Some Is_handshake_message) s1;
       s3 \<leftarrow> STATEMACHINE_TRANSITION IN_SETUP_WILDCARD IN_DESTROY (Some Np_wildcard_destroy) (Some Is_node_handshake_token) s2;
       s4 \<leftarrow> STATEMACHINE_TRANSITION IN_SETUP_WILDCARD IN_DESTROY (Some Np_wildcard_destroy) (Some Is_wildcard_invalid) s3;
       STATEMACHINE_TRANSITION IN_SETUP_WILDCARD IN_SETUP_WILDCARD (Some Np_node_handle_completion) None s4
     }"

definition populate_IN_USE_ALIAS :: "key_table \<Rightarrow> key_table option" where
  "populate_IN_USE_ALIAS states =
     do {
       s1 \<leftarrow> STATEMACHINE_STATE IN_USE_ALIAS (bytes_of_str ''IN_USE_ALIAS'') (Some Keystate_noop) (Some Keystate_noop) (Some Keystate_noop) states;
       s2 \<leftarrow> STATEMACHINE_TRANSITION IN_USE_ALIAS IN_USE_ALIAS (Some Np_alias_decrypt) (Some Is_crypted_message) s1;
       s3 \<leftarrow> STATEMACHINE_TRANSITION IN_USE_ALIAS IN_USE_ALIAS (Some Np_handle_usr_msg) (Some Is_usr_in_message) s2;
       s4 \<leftarrow> STATEMACHINE_TRANSITION IN_USE_ALIAS IN_USE_ALIAS (Some Np_handle_np_message) (Some Is_dht_message) s3;
       s5 \<leftarrow> STATEMACHINE_TRANSITION IN_USE_ALIAS IN_USE_ALIAS (Some Np_handle_pheromone) (Some Is_pheromone_message) s4;
       s6 \<leftarrow> STATEMACHINE_TRANSITION IN_USE_ALIAS IN_USE_ALIAS (Some Np_handle_np_discovery) (Some Is_discovery_message) s5;
       s7 \<leftarrow> STATEMACHINE_TRANSITION IN_USE_ALIAS IN_USE_ALIAS (Some Np_handle_np_forward) (Some Is_forward_message) s6;
       s8 \<leftarrow> STATEMACHINE_TRANSITION IN_USE_ALIAS IN_DESTROY (Some Np_alias_destroy) (Some Is_alias_invalid) s7;
       s9 \<leftarrow> STATEMACHINE_TRANSITION IN_USE_ALIAS IN_USE_ALIAS (Some Np_alias_shutdown) (Some Is_shutdown_event) s8;
       s10 \<leftarrow> STATEMACHINE_TRANSITION IN_USE_ALIAS IN_USE_ALIAS None (Some Is_node_authn) s9;
       STATEMACHINE_TRANSITION IN_USE_ALIAS IN_USE_ALIAS (Some Np_alias_update) None s10
     }"

definition populate_IN_USE_NODE :: "key_table \<Rightarrow> key_table option" where
  "populate_IN_USE_NODE states =
     do {
       s1 \<leftarrow> STATEMACHINE_STATE IN_USE_NODE (bytes_of_str ''IN_USE_NODE'') (Some Keystate_noop) (Some Np_node_add_to_leafset) (Some Np_node_destroy) states;
       s2 \<leftarrow> STATEMACHINE_TRANSITION IN_USE_NODE IN_USE_NODE (Some Np_node_send_encrypted) (Some Is_np_messagepart) s1;
       s3 \<leftarrow> STATEMACHINE_TRANSITION IN_USE_NODE IN_USE_NODE (Some Np_node_split_message) (Some Is_np_message) s2;
       s4 \<leftarrow> STATEMACHINE_TRANSITION IN_USE_NODE IN_USE_NODE (Some Np_node_handle_response) (Some Is_response_event) s3;
       s5 \<leftarrow> STATEMACHINE_TRANSITION IN_USE_NODE IN_USE_NODE (Some Np_node_send_shutdown) (Some Is_shutdown_event) s4;
       s6 \<leftarrow> STATEMACHINE_TRANSITION IN_USE_NODE IN_USE_NODE (Some Np_node_send_shutdown_event) (Some Has_to_leave) s5;
       s7 \<leftarrow> STATEMACHINE_TRANSITION IN_USE_NODE IN_DESTROY (Some Np_node_send_shutdown) (Some Is_node_invalid) s6;
       STATEMACHINE_TRANSITION IN_USE_NODE IN_USE_NODE (Some Np_node_update) None s7
     }"

definition populate_IN_USE_IDENTITY :: "key_table \<Rightarrow> key_table option" where
  "populate_IN_USE_IDENTITY states =
     do {
       s1 \<leftarrow> STATEMACHINE_STATE IN_USE_IDENTITY (bytes_of_str ''IN_USE_IDENTITY'') (Some Keystate_noop) (Some Np_create_identity_network) (Some Np_identity_destroy) states;
       s2 \<leftarrow> STATEMACHINE_TRANSITION IN_USE_IDENTITY IN_USE_IDENTITY (Some Np_extract_handshake) (Some Is_unencrypted_np_message) s1;
       s3 \<leftarrow> STATEMACHINE_TRANSITION IN_USE_IDENTITY IN_USE_IDENTITY (Some Np_identity_handle_authn) (Some Is_authn_request) s2;
       s4 \<leftarrow> STATEMACHINE_TRANSITION IN_USE_IDENTITY IN_USE_IDENTITY (Some Np_identity_handle_authz) (Some Is_authz_request) s3;
       s5 \<leftarrow> STATEMACHINE_TRANSITION IN_USE_IDENTITY IN_USE_IDENTITY (Some Np_identity_handle_account) (Some Is_account_request) s4;
       s6 \<leftarrow> STATEMACHINE_TRANSITION IN_USE_IDENTITY IN_DESTROY (Some Np_identity_shutdown) (Some Is_shutdown_event) s5;
       s7 \<leftarrow> STATEMACHINE_TRANSITION IN_USE_IDENTITY IN_DESTROY (Some Np_identity_shutdown) (Some Is_identity_invalid) s6;
       STATEMACHINE_TRANSITION IN_USE_IDENTITY IN_USE_IDENTITY (Some Keystate_noop) (Some Is_noop_event) s7
     }"

definition populate_IN_USE_MSGPROPERTY :: "key_table \<Rightarrow> key_table option" where
  "populate_IN_USE_MSGPROPERTY states =
     do {
       s1 \<leftarrow> STATEMACHINE_STATE IN_USE_MSGPROPERTY (bytes_of_str ''IN_USE_MSGPROPERTY'') (Some Keystate_noop) (Some Keystate_noop) (Some Keystate_noop) states;
       s2 \<leftarrow> STATEMACHINE_TRANSITION IN_USE_MSGPROPERTY ON_HOLD_MSGPROPERTY (Some Np_property_lifecycle_set) (Some Is_msgproperty_lifecycle_disable) s1;
       s3 \<leftarrow> STATEMACHINE_TRANSITION IN_USE_MSGPROPERTY IN_USE_MSGPROPERTY (Some Np_response_handler_set) (Some Is_response_event) s2;
       s4 \<leftarrow> STATEMACHINE_TRANSITION IN_USE_MSGPROPERTY IN_USE_MSGPROPERTY (Some Np_property_redelivery_set) (Some Is_message_redelivery_event) s3;
       s5 \<leftarrow> STATEMACHINE_TRANSITION IN_USE_MSGPROPERTY IN_USE_MSGPROPERTY (Some Np_property_handle_in_msg) (Some Is_sender_token_available) s4;
       s6 \<leftarrow> STATEMACHINE_TRANSITION IN_USE_MSGPROPERTY IN_USE_MSGPROPERTY (Some Np_property_handle_out_msg) (Some Is_receiver_token_available) s5;
       s7 \<leftarrow> STATEMACHINE_TRANSITION IN_USE_MSGPROPERTY IN_USE_MSGPROPERTY (Some Np_property_handle_intent) (Some Is_intent_authz) s6;
       s8 \<leftarrow> STATEMACHINE_TRANSITION IN_USE_MSGPROPERTY IN_USE_MSGPROPERTY (Some Np_property_add_msg_to_cache) (Some Is_no_token_available) s7;
       s9 \<leftarrow> STATEMACHINE_TRANSITION IN_USE_MSGPROPERTY IN_USE_MSGPROPERTY (Some Np_property_update) (Some Is_msgproperty) s8;
       STATEMACHINE_TRANSITION IN_USE_MSGPROPERTY IN_USE_MSGPROPERTY (Some Np_property_check) (Some Is_noop_event) s9
     }"

definition populate_ON_HOLD_MSGPROPERTY :: "key_table \<Rightarrow> key_table option" where
  "populate_ON_HOLD_MSGPROPERTY states =
     do {
       s1 \<leftarrow> STATEMACHINE_STATE ON_HOLD_MSGPROPERTY (bytes_of_str ''ON_HOLD_MSGPROPERTY'') (Some Keystate_noop) (Some Keystate_noop) (Some Keystate_noop) states;
       STATEMACHINE_TRANSITION ON_HOLD_MSGPROPERTY IN_USE_MSGPROPERTY (Some Np_property_lifecycle_set) (Some Is_msgproperty_lifecycle_enable) s1
     }"

definition populate_IN_DESTROY :: "key_table \<Rightarrow> key_table option" where
  "populate_IN_DESTROY states =
     do {
       STATEMACHINE_STATE IN_DESTROY (bytes_of_str ''IN_DESTROY'') (Some Keystate_noop) (Some Np_key_destroy) (Some Keystate_noop) states
     }"

definition np_key_populate_states :: "key_table option" where
  "np_key_populate_states =
     do {
       s1 \<leftarrow> populate_UNUSED (replicate MAX_KEY_STATES None);
       s2 \<leftarrow> populate_IN_SETUP_ALIAS s1;
       s3 \<leftarrow> populate_IN_SETUP_NODE s2;
       s4 \<leftarrow> populate_IN_SETUP_IDENTITY s3;
       s5 \<leftarrow> populate_IN_SETUP_WILDCARD s4;
       s6 \<leftarrow> populate_IN_USE_ALIAS s5;
       s7 \<leftarrow> populate_IN_USE_NODE s6;
       s8 \<leftarrow> populate_IN_USE_IDENTITY s7;
       s9 \<leftarrow> populate_IN_USE_MSGPROPERTY s8;
       s10 \<leftarrow> populate_ON_HOLD_MSGPROPERTY s9;
       populate_IN_DESTROY s10
     }"

definition key_table :: key_table where
  "key_table = (case np_key_populate_states of Some states \<Rightarrow> states | None \<Rightarrow> [])"

section \<open>Events\<close>

type_synonym key_actions = "(key_action, np_key, np_event) sm_actions"

definition key_act :: "key_actions \<Rightarrow> key_actions" where
  "key_act acts f machine ev = (if f = Keystate_noop then Some machine else acts f machine ev)"

definition key_cnd :: "key_env \<Rightarrow> (key_cond, np_key, np_event) sm_conditions" where
  "key_cnd env c machine ev =
     map_option (\<lambda>(b, key). (b, machine\<lparr>sm_user_data := key\<rparr>)) (key_condition env c (sm_user_data machine) ev)"

definition np_key_new :: "real \<Rightarrow> np_dhkey \<Rightarrow> np_key statemachine" where
  "np_key_new now dhkey = STATEMACHINE_INIT UNUSED
     \<lparr>k_dhkey = dhkey, k_parent_dhkey = dhkey_zero, k_type = 0, k_created_at = now, k_last_update = now,
      k_entity_array = replicate 8 None\<rparr>"

definition np_key_handle_event ::
  "key_actions \<Rightarrow> key_env \<Rightarrow> np_key statemachine \<Rightarrow> np_event \<Rightarrow> (bool \<times> np_key statemachine) option" where
  "np_key_handle_event acts env machine ev =
     do {
       old_state \<leftarrow> the_state key_table (sm_current_state machine);
       (moved, machine1) \<leftarrow> invoke_auto_transition (key_act acts) (key_cnd env) key_table machine ev;
       new_state \<leftarrow> (if moved then the_state key_table (sm_current_state machine1) else Some old_state);
       Some (moved, if ev_type ev \<noteq> evt_noop
                    then machine1\<lparr>sm_user_data := (sm_user_data machine1)\<lparr>k_last_update := ke_now env\<rparr>\<rparr> else machine1)
     }"

text \<open>
  The action that hands a shutdown to its own key: the event is handled at once, inside of the event that runs the
  action. What it queues for other keys is not part of it.
\<close>

definition np_node_send_shutdown_event :: "key_actions \<Rightarrow> key_env \<Rightarrow> np_key statemachine \<Rightarrow> np_key statemachine option" where
  "np_node_send_shutdown_event acts env machine =
     (let shutdown_evt = \<lparr>ev_source_dhkey = dhkey_zero, ev_target_dhkey = k_dhkey (sm_user_data machine),
            ev_type = evt_internal OR evt_shutdown, ev_user_data = None\<rparr>
      in map_option snd (np_key_handle_event acts env machine shutdown_evt))"

end
