(* ===== verification/Np_Key_Life.thy ===== *)
theory Np_Key_Life
  imports Np_Key
begin

text \<open>
  The life of a key: the table of its state machine as data, the moves that events can cause, the states that
  are reachable, and the conditions under which no event makes the machine fail.
\<close>

section \<open>The table as data\<close>

definition tr :: "u8 \<Rightarrow> u8 \<Rightarrow> key_action option \<Rightarrow> key_cond option \<Rightarrow> (key_action, key_cond) sm_transition" where
  "tr source target action condition =
     \<lparr>tr_active = True, tr_source_state = source, tr_target_state = target, tr_action = action, tr_condition = condition\<rparr>"

definition entry_transitions :: "(key_action, key_cond) sm_state option \<Rightarrow> (key_action, key_cond) sm_transition list" where
  "entry_transitions e = (case e of None \<Rightarrow> [] | Some st \<Rightarrow> st_transition_table st)"

definition key_transitions :: "u8 \<Rightarrow> (key_action, key_cond) sm_transition list" where
  "key_transitions s = (if unat s < length key_table then entry_transitions (key_table ! unat s) else [])"

lemma key_table_ok: "table_ok key_table"
  by code_simp

lemma key_table_data:
  "map entry_transitions key_table =
    [[tr UNUSED IN_SETUP_WILDCARD (Some Np_wildcard_set) (Some Is_wildcard_key),
      tr UNUSED IN_SETUP_NODE (Some Np_node_set_node) (Some Is_node_info),
      tr UNUSED IN_SETUP_ALIAS (Some Np_alias_set) (Some Is_alias_handshake_token),
      tr UNUSED UNUSED (Some Np_alias_set_node) (Some Is_alias_node_info),
      tr UNUSED IN_SETUP_NODE (Some Np_node_set) (Some Is_node_handshake_token),
      tr UNUSED IN_SETUP_NODE (Some Np_node_set) (Some Is_node_token),
      tr UNUSED IN_USE_IDENTITY (Some Np_set_identity) (Some Is_identity_aaatoken),
      tr UNUSED IN_USE_MSGPROPERTY (Some Np_set_property) (Some Is_msgproperty),
      tr UNUSED IN_DESTROY (Some Np_alias_set_node_destroy) (Some Is_unused)],
     [tr IN_SETUP_NODE IN_SETUP_NODE (Some Np_node_send_direct) (Some Is_handshake_message),
      tr IN_SETUP_NODE IN_SETUP_NODE (Some Np_node_send_encrypted) (Some Is_join_out_message),
      tr IN_SETUP_NODE IN_SETUP_NODE (Some Np_node_discard_message) (Some Is_invalid_message),
      tr IN_SETUP_NODE IN_SETUP_NODE (Some Np_node_split_message) (Some Is_np_message),
      tr IN_SETUP_NODE IN_SETUP_NODE (Some Np_node_update_token) (Some Is_node_handshake_token),
      tr IN_SETUP_NODE IN_SETUP_NODE (Some Np_node_update_token) (Some Is_node_token),
      tr IN_SETUP_NODE IN_USE_NODE (Some Np_node_identity_upgrade) (Some Is_node_identity_authn),
      tr IN_SETUP_NODE IN_USE_NODE (Some Np_node_upgrade) (Some Is_node_authn),
      tr IN_SETUP_NODE IN_DESTROY (Some Np_node_destroy) (Some Is_shutdown_event),
      tr IN_SETUP_NODE IN_DESTROY (Some Np_node_destroy) (Some Is_node_invalid),
      tr IN_SETUP_NODE IN_SETUP_NODE (Some Np_node_handle_completion) None],
     [tr IN_SETUP_ALIAS IN_SETUP_ALIAS (Some Np_alias_decrypt) (Some Is_crypted_message),
      tr IN_SETUP_ALIAS IN_SETUP_ALIAS (Some Np_handle_np_message) (Some Is_join_in_message),
      tr IN_SETUP_ALIAS IN_SETUP_ALIAS (Some Np_node_update_token) (Some Is_node_token),
      tr IN_SETUP_ALIAS IN_USE_ALIAS (Some Np_node_upgrade) (Some Is_node_authn),
      tr IN_SETUP_ALIAS IN_DESTROY (Some Np_alias_destroy) (Some Is_alias_invalid)],
     [tr IN_SETUP_WILDCARD IN_SETUP_WILDCARD (Some Np_node_send_direct) (Some Is_handshake_message),
      tr IN_SETUP_WILDCARD IN_DESTROY (Some Np_wildcard_destroy) (Some Is_node_handshake_token),
      tr IN_SETUP_WILDCARD IN_DESTROY (Some Np_wildcard_destroy) (Some Is_wildcard_invalid),
      tr IN_SETUP_WILDCARD IN_SETUP_WILDCARD (Some Np_node_handle_completion) None],
     [tr IN_SETUP_IDENTITY IN_USE_IDENTITY (Some Np_identity_update) (Some Is_identity_authn),
      tr IN_SETUP_IDENTITY IN_DESTROY (Some Np_identity_destroy) (Some Is_identity_invalid)],
     [tr IN_USE_IDENTITY IN_USE_IDENTITY (Some Np_extract_handshake) (Some Is_unencrypted_np_message),
      tr IN_USE_IDENTITY IN_USE_IDENTITY (Some Np_identity_handle_authn) (Some Is_authn_request),
      tr IN_USE_IDENTITY IN_USE_IDENTITY (Some Np_identity_handle_authz) (Some Is_authz_request),
      tr IN_USE_IDENTITY IN_USE_IDENTITY (Some Np_identity_handle_account) (Some Is_account_request),
      tr IN_USE_IDENTITY IN_DESTROY (Some Np_identity_shutdown) (Some Is_shutdown_event),
      tr IN_USE_IDENTITY IN_DESTROY (Some Np_identity_shutdown) (Some Is_identity_invalid),
      tr IN_USE_IDENTITY IN_USE_IDENTITY (Some Keystate_noop) (Some Is_noop_event)],
     [tr IN_USE_NODE IN_USE_NODE (Some Np_node_send_encrypted) (Some Is_np_messagepart),
      tr IN_USE_NODE IN_USE_NODE (Some Np_node_split_message) (Some Is_np_message),
      tr IN_USE_NODE IN_USE_NODE (Some Np_node_handle_response) (Some Is_response_event),
      tr IN_USE_NODE IN_USE_NODE (Some Np_node_send_shutdown) (Some Is_shutdown_event),
      tr IN_USE_NODE IN_USE_NODE (Some Np_node_send_shutdown_event) (Some Has_to_leave),
      tr IN_USE_NODE IN_DESTROY (Some Np_node_send_shutdown) (Some Is_node_invalid),
      tr IN_USE_NODE IN_USE_NODE (Some Np_node_update) None],
     [tr IN_USE_ALIAS IN_USE_ALIAS (Some Np_alias_decrypt) (Some Is_crypted_message),
      tr IN_USE_ALIAS IN_USE_ALIAS (Some Np_handle_usr_msg) (Some Is_usr_in_message),
      tr IN_USE_ALIAS IN_USE_ALIAS (Some Np_handle_np_message) (Some Is_dht_message),
      tr IN_USE_ALIAS IN_USE_ALIAS (Some Np_handle_pheromone) (Some Is_pheromone_message),
      tr IN_USE_ALIAS IN_USE_ALIAS (Some Np_handle_np_discovery) (Some Is_discovery_message),
      tr IN_USE_ALIAS IN_USE_ALIAS (Some Np_handle_np_forward) (Some Is_forward_message),
      tr IN_USE_ALIAS IN_DESTROY (Some Np_alias_destroy) (Some Is_alias_invalid),
      tr IN_USE_ALIAS IN_USE_ALIAS (Some Np_alias_shutdown) (Some Is_shutdown_event),
      tr IN_USE_ALIAS IN_USE_ALIAS None (Some Is_node_authn),
      tr IN_USE_ALIAS IN_USE_ALIAS (Some Np_alias_update) None],
     [tr IN_USE_MSGPROPERTY ON_HOLD_MSGPROPERTY (Some Np_property_lifecycle_set) (Some Is_msgproperty_lifecycle_disable),
      tr IN_USE_MSGPROPERTY IN_USE_MSGPROPERTY (Some Np_response_handler_set) (Some Is_response_event),
      tr IN_USE_MSGPROPERTY IN_USE_MSGPROPERTY (Some Np_property_redelivery_set) (Some Is_message_redelivery_event),
      tr IN_USE_MSGPROPERTY IN_USE_MSGPROPERTY (Some Np_property_handle_in_msg) (Some Is_sender_token_available),
      tr IN_USE_MSGPROPERTY IN_USE_MSGPROPERTY (Some Np_property_handle_out_msg) (Some Is_receiver_token_available),
      tr IN_USE_MSGPROPERTY IN_USE_MSGPROPERTY (Some Np_property_handle_intent) (Some Is_intent_authz),
      tr IN_USE_MSGPROPERTY IN_USE_MSGPROPERTY (Some Np_property_add_msg_to_cache) (Some Is_no_token_available),
      tr IN_USE_MSGPROPERTY IN_USE_MSGPROPERTY (Some Np_property_update) (Some Is_msgproperty),
      tr IN_USE_MSGPROPERTY IN_USE_MSGPROPERTY (Some Np_property_check) (Some Is_noop_event)],
     [tr ON_HOLD_MSGPROPERTY IN_USE_MSGPROPERTY (Some Np_property_lifecycle_set) (Some Is_msgproperty_lifecycle_enable)],
     []]
   \<and> list_all (\<lambda>e. e \<noteq> None) key_table"
  by code_simp

lemma key_table_length: "length key_table = 11"
  using arg_cong [OF conjunct1 [OF key_table_data], of length] by simp

lemma key_transitions_nth: "unat s < 11 \<Longrightarrow> key_transitions s = map entry_transitions key_table ! unat s"
  by (simp add: key_transitions_def key_table_length)

lemma key_transitions_simps:
  "key_transitions UNUSED = [tr UNUSED IN_SETUP_WILDCARD (Some Np_wildcard_set) (Some Is_wildcard_key),
     tr UNUSED IN_SETUP_NODE (Some Np_node_set_node) (Some Is_node_info),
     tr UNUSED IN_SETUP_ALIAS (Some Np_alias_set) (Some Is_alias_handshake_token),
     tr UNUSED UNUSED (Some Np_alias_set_node) (Some Is_alias_node_info),
     tr UNUSED IN_SETUP_NODE (Some Np_node_set) (Some Is_node_handshake_token),
     tr UNUSED IN_SETUP_NODE (Some Np_node_set) (Some Is_node_token),
     tr UNUSED IN_USE_IDENTITY (Some Np_set_identity) (Some Is_identity_aaatoken),
     tr UNUSED IN_USE_MSGPROPERTY (Some Np_set_property) (Some Is_msgproperty),
     tr UNUSED IN_DESTROY (Some Np_alias_set_node_destroy) (Some Is_unused)]"
  "key_transitions IN_SETUP_NODE = [tr IN_SETUP_NODE IN_SETUP_NODE (Some Np_node_send_direct) (Some Is_handshake_message),
     tr IN_SETUP_NODE IN_SETUP_NODE (Some Np_node_send_encrypted) (Some Is_join_out_message),
     tr IN_SETUP_NODE IN_SETUP_NODE (Some Np_node_discard_message) (Some Is_invalid_message),
     tr IN_SETUP_NODE IN_SETUP_NODE (Some Np_node_split_message) (Some Is_np_message),
     tr IN_SETUP_NODE IN_SETUP_NODE (Some Np_node_update_token) (Some Is_node_handshake_token),
     tr IN_SETUP_NODE IN_SETUP_NODE (Some Np_node_update_token) (Some Is_node_token),
     tr IN_SETUP_NODE IN_USE_NODE (Some Np_node_identity_upgrade) (Some Is_node_identity_authn),
     tr IN_SETUP_NODE IN_USE_NODE (Some Np_node_upgrade) (Some Is_node_authn),
     tr IN_SETUP_NODE IN_DESTROY (Some Np_node_destroy) (Some Is_shutdown_event),
     tr IN_SETUP_NODE IN_DESTROY (Some Np_node_destroy) (Some Is_node_invalid),
     tr IN_SETUP_NODE IN_SETUP_NODE (Some Np_node_handle_completion) None]"
  "key_transitions IN_SETUP_ALIAS = [tr IN_SETUP_ALIAS IN_SETUP_ALIAS (Some Np_alias_decrypt) (Some Is_crypted_message),
     tr IN_SETUP_ALIAS IN_SETUP_ALIAS (Some Np_handle_np_message) (Some Is_join_in_message),
     tr IN_SETUP_ALIAS IN_SETUP_ALIAS (Some Np_node_update_token) (Some Is_node_token),
     tr IN_SETUP_ALIAS IN_USE_ALIAS (Some Np_node_upgrade) (Some Is_node_authn),
     tr IN_SETUP_ALIAS IN_DESTROY (Some Np_alias_destroy) (Some Is_alias_invalid)]"
  "key_transitions IN_SETUP_WILDCARD = [tr IN_SETUP_WILDCARD IN_SETUP_WILDCARD (Some Np_node_send_direct) (Some Is_handshake_message),
     tr IN_SETUP_WILDCARD IN_DESTROY (Some Np_wildcard_destroy) (Some Is_node_handshake_token),
     tr IN_SETUP_WILDCARD IN_DESTROY (Some Np_wildcard_destroy) (Some Is_wildcard_invalid),
     tr IN_SETUP_WILDCARD IN_SETUP_WILDCARD (Some Np_node_handle_completion) None]"
  "key_transitions IN_SETUP_IDENTITY = [tr IN_SETUP_IDENTITY IN_USE_IDENTITY (Some Np_identity_update) (Some Is_identity_authn),
     tr IN_SETUP_IDENTITY IN_DESTROY (Some Np_identity_destroy) (Some Is_identity_invalid)]"
  "key_transitions IN_USE_IDENTITY = [tr IN_USE_IDENTITY IN_USE_IDENTITY (Some Np_extract_handshake) (Some Is_unencrypted_np_message),
     tr IN_USE_IDENTITY IN_USE_IDENTITY (Some Np_identity_handle_authn) (Some Is_authn_request),
     tr IN_USE_IDENTITY IN_USE_IDENTITY (Some Np_identity_handle_authz) (Some Is_authz_request),
     tr IN_USE_IDENTITY IN_USE_IDENTITY (Some Np_identity_handle_account) (Some Is_account_request),
     tr IN_USE_IDENTITY IN_DESTROY (Some Np_identity_shutdown) (Some Is_shutdown_event),
     tr IN_USE_IDENTITY IN_DESTROY (Some Np_identity_shutdown) (Some Is_identity_invalid),
     tr IN_USE_IDENTITY IN_USE_IDENTITY (Some Keystate_noop) (Some Is_noop_event)]"
  "key_transitions IN_USE_NODE = [tr IN_USE_NODE IN_USE_NODE (Some Np_node_send_encrypted) (Some Is_np_messagepart),
     tr IN_USE_NODE IN_USE_NODE (Some Np_node_split_message) (Some Is_np_message),
     tr IN_USE_NODE IN_USE_NODE (Some Np_node_handle_response) (Some Is_response_event),
     tr IN_USE_NODE IN_USE_NODE (Some Np_node_send_shutdown) (Some Is_shutdown_event),
     tr IN_USE_NODE IN_USE_NODE (Some Np_node_send_shutdown_event) (Some Has_to_leave),
     tr IN_USE_NODE IN_DESTROY (Some Np_node_send_shutdown) (Some Is_node_invalid),
     tr IN_USE_NODE IN_USE_NODE (Some Np_node_update) None]"
  "key_transitions IN_USE_ALIAS = [tr IN_USE_ALIAS IN_USE_ALIAS (Some Np_alias_decrypt) (Some Is_crypted_message),
     tr IN_USE_ALIAS IN_USE_ALIAS (Some Np_handle_usr_msg) (Some Is_usr_in_message),
     tr IN_USE_ALIAS IN_USE_ALIAS (Some Np_handle_np_message) (Some Is_dht_message),
     tr IN_USE_ALIAS IN_USE_ALIAS (Some Np_handle_pheromone) (Some Is_pheromone_message),
     tr IN_USE_ALIAS IN_USE_ALIAS (Some Np_handle_np_discovery) (Some Is_discovery_message),
     tr IN_USE_ALIAS IN_USE_ALIAS (Some Np_handle_np_forward) (Some Is_forward_message),
     tr IN_USE_ALIAS IN_DESTROY (Some Np_alias_destroy) (Some Is_alias_invalid),
     tr IN_USE_ALIAS IN_USE_ALIAS (Some Np_alias_shutdown) (Some Is_shutdown_event),
     tr IN_USE_ALIAS IN_USE_ALIAS None (Some Is_node_authn),
     tr IN_USE_ALIAS IN_USE_ALIAS (Some Np_alias_update) None]"
  "key_transitions IN_USE_MSGPROPERTY = [tr IN_USE_MSGPROPERTY ON_HOLD_MSGPROPERTY (Some Np_property_lifecycle_set) (Some Is_msgproperty_lifecycle_disable),
     tr IN_USE_MSGPROPERTY IN_USE_MSGPROPERTY (Some Np_response_handler_set) (Some Is_response_event),
     tr IN_USE_MSGPROPERTY IN_USE_MSGPROPERTY (Some Np_property_redelivery_set) (Some Is_message_redelivery_event),
     tr IN_USE_MSGPROPERTY IN_USE_MSGPROPERTY (Some Np_property_handle_in_msg) (Some Is_sender_token_available),
     tr IN_USE_MSGPROPERTY IN_USE_MSGPROPERTY (Some Np_property_handle_out_msg) (Some Is_receiver_token_available),
     tr IN_USE_MSGPROPERTY IN_USE_MSGPROPERTY (Some Np_property_handle_intent) (Some Is_intent_authz),
     tr IN_USE_MSGPROPERTY IN_USE_MSGPROPERTY (Some Np_property_add_msg_to_cache) (Some Is_no_token_available),
     tr IN_USE_MSGPROPERTY IN_USE_MSGPROPERTY (Some Np_property_update) (Some Is_msgproperty),
     tr IN_USE_MSGPROPERTY IN_USE_MSGPROPERTY (Some Np_property_check) (Some Is_noop_event)]"
  "key_transitions ON_HOLD_MSGPROPERTY = [tr ON_HOLD_MSGPROPERTY IN_USE_MSGPROPERTY (Some Np_property_lifecycle_set) (Some Is_msgproperty_lifecycle_enable)]"
  "key_transitions IN_DESTROY = []"
  by (simp_all add: key_transitions_nth conjunct1 [OF key_table_data] key_states)

lemma the_state_key: "the_state key_table s = Some st \<longleftrightarrow> unat s < 11 \<and> key_table ! unat s = Some st"
  by (auto simp: the_state_def rd_def key_table_length)

lemma the_state_ex: "unat s < 11 \<Longrightarrow> \<exists>st. the_state key_table s = Some st \<and> st_transition_table st = key_transitions s"
  using conjunct2 [OF key_table_data] key_table_length
  by (auto simp: the_state_key key_transitions_def list_all_length entry_transitions_def)

interpretation km: typed_machine key_table "key_act acts" "key_cnd env" for acts env
  by unfold_locales (auto simp: key_table_ok key_act_def key_cnd_def)

lemma key_act_returns: "acts f m ev \<noteq> None \<Longrightarrow> key_act acts f m ev \<noteq> None"
  by (simp add: key_act_def)

definition touched :: "key_env \<Rightarrow> np_event \<Rightarrow> np_key statemachine \<Rightarrow> np_key statemachine" where
  "touched env ev m = (if ev_type ev \<noteq> evt_noop then m\<lparr>sm_user_data := (sm_user_data m)\<lparr>k_last_update := ke_now env\<rparr>\<rparr> else m)"

lemma touched_state [simp]: "sm_current_state (touched env ev m) = sm_current_state m"
  by (simp add: touched_def)

text \<open>Handling an event is the scan of the transitions of the state, and the transition that it finds.\<close>

lemma handle_event_scan:
  assumes "the_state key_table (sm_current_state m) = Some st"
  shows "np_key_handle_event acts env m ev = do {
      (found, m1) \<leftarrow> scan (key_cnd env) (key_transitions (sm_current_state m)) m ev;
      (case found of None \<Rightarrow> Some (False, touched env ev m1)
       | Some t \<Rightarrow> do {
           m2 \<leftarrow> auto_fire (key_act acts) key_table st (sm_current_state m) t m1 ev;
           new_state \<leftarrow> the_state key_table (sm_current_state m2);
           Some (True, touched env ev m2)
         }) }"
proof -
  have "unat (sm_current_state m) < 11" using assms by (simp add: the_state_key)
  then have "st_transition_table st = key_transitions (sm_current_state m)" using the_state_ex assms by fastforce
  then show ?thesis
    unfolding np_key_handle_event_def km.invoke_scan [OF assms] assms touched_def
    by (auto split: bind_splits option.splits)
qed

lemma handle_event_keeps:
  assumes "unat (sm_current_state m) < 11" "np_key_handle_event acts env m ev = Some (b, m')"
    and acts: "\<And>f a b. acts f a ev = Some b \<Longrightarrow> P (sm_current_state a) \<Longrightarrow> P (sm_current_state b)"
    and P: "P (sm_current_state m)" "\<And>t. t \<in> set (key_transitions (sm_current_state m)) \<Longrightarrow> P (tr_target_state t)"
  shows "P (sm_current_state m')"
proof -
  obtain st where st: "the_state key_table (sm_current_state m) = Some st" "st_transition_table st = key_transitions (sm_current_state m)"
    using the_state_ex [OF assms(1)] by blast
  obtain found m1 where f: "scan (key_cnd env) (key_transitions (sm_current_state m)) m ev = Some (found, m1)"
    using assms(2) unfolding handle_event_scan [OF st(1)] by (auto split: bind_splits)
  note k = km.scan_keeps [OF f]
  show ?thesis
  proof (cases found)
    case None
    then show ?thesis using assms(2) f k P(1) unfolding handle_event_scan [OF st(1)] by auto
  next
    case (Some t)
    obtain m2 where m2: "auto_fire (key_act acts) key_table st (sm_current_state m) t m1 ev = Some m2" "m' = touched env ev m2"
      using assms(2) f Some unfolding handle_event_scan [OF st(1)] by (auto split: bind_splits)
    have t: "t \<in> set (st_transition_table st)" using k Some by (simp add: st)
    have "P (sm_current_state m2)"
      by (rule km.auto_fire_keeps [OF st(1) t m2(1), where P = P])
        (use acts P k t st in \<open>auto simp: key_act_def split: if_splits\<close>)
    then show ?thesis by (simp add: m2(2))
  qed
qed

section \<open>Which states a key can reach\<close>

text \<open>
  A run of a key: work on its data, and any events, each in the circumstances of its own time. The actions of an
  event are runs themselves: they work on the key and may hand further events to it before they return.
\<close>

inductive key_run :: "np_key statemachine \<Rightarrow> np_key statemachine \<Rightarrow> bool" where
  work: "sm_current_state m' = sm_current_state m \<Longrightarrow> key_run m m'"
| follow: "key_run m m1 \<Longrightarrow> key_run m1 m2 \<Longrightarrow> key_run m m2"
| event: "(\<And>f a b. acts f a ev = Some b \<Longrightarrow> key_run a b) \<Longrightarrow> np_key_handle_event acts env m ev = Some (moved, m') \<Longrightarrow> key_run m m'"

lemma key_run_closed:
  assumes "key_run m m'" "sm_current_state m \<in> set S"
    "list_all (\<lambda>s. unat s < 11 \<and> list_all (\<lambda>t. tr_target_state t \<in> set S) (key_transitions s)) S"
  shows "sm_current_state m' \<in> set S"
  using assms
proof (induction rule: key_run.induct)
  case (event acts ev env m moved m')
  then have "unat (sm_current_state m) < 11" by (simp add: list_all_iff)
  then show ?case
    by (rule handle_event_keeps [OF _ event.hyps(2), where P = "\<lambda>s. s \<in> set S"]) (use event in \<open>auto simp: list_all_iff\<close>)
qed simp_all

text \<open>The states that can still come once a key is in a given state.\<close>

fun key_future :: "u8 \<Rightarrow> u8 list" where
  "key_future s =
     (if s = UNUSED then [UNUSED, IN_SETUP_NODE, IN_SETUP_ALIAS, IN_SETUP_WILDCARD, IN_USE_IDENTITY, IN_USE_NODE,
        IN_USE_ALIAS, IN_USE_MSGPROPERTY, ON_HOLD_MSGPROPERTY, IN_DESTROY]
      else if s = IN_SETUP_NODE then [IN_SETUP_NODE, IN_USE_NODE, IN_DESTROY]
      else if s = IN_SETUP_ALIAS then [IN_SETUP_ALIAS, IN_USE_ALIAS, IN_DESTROY]
      else if s = IN_SETUP_WILDCARD then [IN_SETUP_WILDCARD, IN_DESTROY]
      else if s = IN_USE_IDENTITY then [IN_USE_IDENTITY, IN_DESTROY]
      else if s = IN_USE_NODE then [IN_USE_NODE, IN_DESTROY]
      else if s = IN_USE_ALIAS then [IN_USE_ALIAS, IN_DESTROY]
      else if s = IN_USE_MSGPROPERTY \<or> s = ON_HOLD_MSGPROPERTY then [IN_USE_MSGPROPERTY, ON_HOLD_MSGPROPERTY]
      else if s = IN_DESTROY then [IN_DESTROY]
      else [])"

lemmas key_transitions_num = key_transitions_simps [unfolded key_states]

lemma key_future_closed:
  assumes "key_future s \<noteq> []"
  shows "s \<in> set (key_future s)"
    "list_all (\<lambda>s'. unat s' < 11 \<and> list_all (\<lambda>t. tr_target_state t \<in> set (key_future s)) (key_transitions s')) (key_future s)"
  using assms by (auto split: if_splits simp: key_transitions_num tr_def key_states)

text \<open>
  C7: a key only ever moves along its kind: whatever events arrive in whatever circumstances, also from within the
  handling of another event, a key that has become a node, an alias, a wildcard or an identity is of that kind until it is destroyed, \<open>IN_DESTROY\<close> is final,
  the key of a subject is never destroyed, and no key that starts as \<open>UNUSED\<close> gets to \<open>IN_SETUP_IDENTITY\<close>.
\<close>

theorem key_lifecycle:
  assumes "key_run m m'" "key_future (sm_current_state m) \<noteq> []"
  shows "sm_current_state m' \<in> set (key_future (sm_current_state m))"
  by (rule key_run_closed [OF assms(1) key_future_closed [OF assms(2)]])

definition demo_key_env :: key_env where
  "demo_key_env = \<lparr>ke_now = 50, ke_token = demo_env, ke_blake2b = (\<lambda>_. replicate 32 0), ke_my_node_key = dhkey_zero,
     ke_keycache_exists = (\<lambda>_. True), ke_msgproperty_conf_get = (\<lambda>_. None), ke_has_crypto_session = (\<lambda>_ _. False)\<rparr>"

definition demo_event :: "u32 \<Rightarrow> np_object option \<Rightarrow> np_event" where
  "demo_event ty obj = \<lparr>ev_source_dhkey = dhkey_zero, ev_target_dhkey = dhkey_zero, ev_type = ty, ev_user_data = obj\<rparr>"

definition demo_conf :: np_msgproperty_conf where
  "demo_conf = \<lparr>mc_is_internal = False, mc_audience_type = NP_MX_AUD_PUBLIC, mc_max_threshold = 2\<rparr>"

theorem key_lifecycle_witness:
  "\<exists>m'. key_run (np_key_new 0 dhkey_zero) m' \<and> sm_current_state m' = IN_USE_MSGPROPERTY
     \<and> key_future (sm_current_state (np_key_new 0 dhkey_zero)) \<noteq> []
     \<and> sm_current_state m' \<in> set (key_future (sm_current_state (np_key_new 0 dhkey_zero)))"
proof -
  let ?m = "np_key_new 0 dhkey_zero" and ?ev = "demo_event (evt_property OR evt_internal) (Some (O_conf demo_conf))"
    and ?t = "tr UNUSED IN_USE_MSGPROPERTY (Some Np_set_property) (Some Is_msgproperty)"
  have s: "sm_current_state ?m = UNUSED" by (simp add: np_key_new_def STATEMACHINE_INIT_def)
  obtain st where st: "the_state key_table UNUSED = Some st" "st_transition_table st = key_transitions UNUSED"
    using the_state_ex [of UNUSED] by (auto simp: key_states)
  have t: "?t \<in> set (st_transition_table st)" "tr_target_state ?t \<noteq> UNUSED"
    unfolding st(2) by (simp add: key_transitions_simps, simp add: tr_def key_states)
  have scan: "scan (key_cnd demo_key_env) (key_transitions (sm_current_state ?m)) ?m ?ev = Some (Some ?t, ?m)"
    by (simp add: s key_transitions_simps tr_def met_def key_cnd_def observe_def is_wildcard_key_def is_node_info_def
        is_alias_handshake_token_def is_alias_node_info_def is_node_handshake_token_def is_node_token_def is_identity_aaatoken_def
        is_msgproperty_def demo_event_def cast_defs FLAG_CMP_def evt_defs)
  obtain m2 where m2: "auto_fire (key_act (\<lambda>_ m _. Some m)) key_table st UNUSED ?t ?m ?ev = Some m2" "sm_current_state m2 = IN_USE_MSGPROPERTY"
    by (rule km.auto_fire_other [OF st(1) t, where m = ?m and ev = ?ev and acts = "\<lambda>_ m _. Some m"])
      (auto simp: s call_checked_def key_act_def tr_def)
  moreover have "the_state key_table IN_USE_MSGPROPERTY \<noteq> None" using the_state_ex [of IN_USE_MSGPROPERTY] by (auto simp: key_states)
  ultimately have "np_key_handle_event (\<lambda>_ m _. Some m) demo_key_env ?m ?ev = Some (True, touched demo_key_env ?ev m2)"
    using handle_event_scan [where m = ?m and env = demo_key_env and ev = ?ev] scan st(1) by (auto simp: s)
  then have "key_run ?m (touched demo_key_env ?ev m2)" by (rule key_run.event [rotated]) (simp add: key_run.work)
  moreover have "key_future (sm_current_state ?m) \<noteq> []" by (simp add: s)
  ultimately show ?thesis using key_lifecycle [of ?m "touched demo_key_env ?ev m2"] m2(2) by auto
qed

section \<open>The action that handles an event\<close>

text \<open>A transition that stays in its state runs its action on the machine and nothing else.\<close>

lemma handle_event_stays:
  assumes "unat (sm_current_state m) < 11" "scan (key_cnd env) (key_transitions (sm_current_state m)) m ev = Some (Some t, mc)"
    "tr_target_state t = sm_current_state m" "tr_action t = Some a" "a \<noteq> Keystate_noop"
  shows "np_key_handle_event acts env m ev =
    do { m' \<leftarrow> acts a mc ev; new_state \<leftarrow> the_state key_table (sm_current_state m'); Some (True, touched env ev m') }"
proof -
  obtain st where st: "the_state key_table (sm_current_state m) = Some st" using the_state_ex [OF assms(1)] by blast
  have "auto_fire (key_act acts) key_table st (sm_current_state m) t mc ev = acts a mc ev"
    using km.auto_fire_same [OF st assms(3)] assms(4,5) by (simp add: call_checked_def key_act_def)
  then show ?thesis by (simp add: handle_event_scan [OF st] assms(2))
qed

lemma tr_target: "tr_target_state (tr s s' a c) = s'"
  by (simp add: tr_def)

lemma scan_key:
  "scan (key_cnd env) (tr s s' a (Some c) # ts) m ev =
    (case key_condition env c (sm_user_data m) ev of None \<Rightarrow> None
     | Some (b, key) \<Rightarrow> if b then Some (Some (tr s s' a (Some c)), m\<lparr>sm_user_data := key\<rparr>)
         else scan (key_cnd env) ts (m\<lparr>sm_user_data := key\<rparr>) ev)"
  by (simp add: tr_def met_def key_cnd_def split: option.split prod.split)

lemma user_data_id: "sm_user_data m = key \<Longrightarrow> m\<lparr>sm_user_data := key\<rparr> = m"
  by auto

lemma scan_always: "scan (key_cnd env) (tr s s' a None # ts) m ev = Some (Some (tr s s' a None), m)"
  by (simp add: tr_def met_def)

section \<open>Message parts that reach an alias\<close>

definition alias_handler :: "key_env \<Rightarrow> np_dhkey \<Rightarrow> np_dhkey \<Rightarrow> key_action option" where
  "alias_handler env subject audience =
     (let own = np_dhkey_equal (ke_my_node_key env) audience
      in if user_property env subject then Some Np_handle_usr_msg
         else if dht_subject env subject \<and> own then Some Np_handle_np_message
         else if np_dhkey_equal subject (subject_of env ''_NP.PHEROMONE.UPDATE'') then Some Np_handle_pheromone
         else if own then None
         else if np_dhkey_equal subject (subject_of env ''_NP.MESSAGE.RECEIVER.TOKEN'')
               \<or> np_dhkey_equal subject (subject_of env ''_NP.MESSAGE.SENDER.TOKEN'') then Some Np_handle_np_discovery
         else Some Np_handle_np_forward)"

lemma FLAG_CMP_noop: "FLAG_CMP x evt_noop"
  by (simp add: FLAG_CMP_def evt_noop_def)

text \<open>
  C13: which handler a message part from another node reaches. On an alias in use whose node is in the routing
  table or the leafset, a part that has not timed out goes to the user message handler if its subject is a
  property of this node; else to the handler of the distributed hash table if it is for this node; else, for a
  pheromone update, to the pheromone handler; else it is forwarded, with discovery messages going to their own
  handler. A part for this node with another subject only updates the alias, if the alias is valid. Exactly one
  handler runs, on the machine as it was, and the handling ends where the handler leaves the machine.
\<close>

theorem alias_dispatch:
  assumes state: "sm_current_state m = IN_USE_ALIAS" and key: "sm_user_data m = key"
    and type: "FLAG_CMP (k_type key) np_key_type_alias"
    and ev: "ev_type ev = evt_external OR evt_message" "ev_user_data ev = Some (O_messagepart part)"
    and node: "np_key_get_node key = Some (O_node n)" "pn_is_in_leafset n \<or> pn_is_in_routing_table n"
    and part: "mp_subject part = Some subject" "mp_audience part = Some audience" "mp_tstamp part = Some tstamp" "mp_ttl part = Some ttl"
    and fresh: "ke_now env < tstamp + real (unat ttl)"
  shows "case alias_handler env subject audience of
      Some a \<Rightarrow> np_key_handle_event acts env m ev = do {
          m' \<leftarrow> acts a m ev;
          new_state \<leftarrow> the_state key_table (sm_current_state m');
          Some (True, m'\<lparr>sm_user_data := (sm_user_data m')\<lparr>k_last_update := ke_now env\<rparr>\<rparr>) }
    | None \<Rightarrow> is_alias_invalid env key = Some False \<longrightarrow> np_key_handle_event acts env m ev = do {
          m' \<leftarrow> acts Np_alias_update m ev;
          new_state \<leftarrow> the_state key_table (sm_current_state m');
          Some (True, m'\<lparr>sm_user_data := (sm_user_data m')\<lparr>k_last_update := ke_now env\<rparr>\<rparr>) }"
proof -
  have f: "event_is ev evt_message" "event_is ev evt_external" "\<not> event_is ev evt_shutdown" "\<not> event_is ev evt_internal"
    by (simp_all add: ev FLAG_CMP_def evt_defs)
  have msg: "alias_messagepart key ev" "cast_messagepart (ev_user_data ev) = Some part"
    using type f ev by (simp_all add: alias_messagepart_def cast_defs)
  have known: "alias_node_known key = Some True" using node by (auto simp: alias_node_known_def cast_node_def)
  have live: "is_msgpart_expired env part = Some True" using part fresh by (simp add: is_msgpart_expired_def)
  define own where "own = np_dhkey_equal (ke_my_node_key env) audience"
  define token_subject where "token_subject \<longleftrightarrow> np_dhkey_equal subject (subject_of env ''_NP.MESSAGE.RECEIVER.TOKEN'')
    \<or> np_dhkey_equal subject (subject_of env ''_NP.MESSAGE.SENDER.TOKEN'')"
  note defs = own_def token_subject_def
  have conds: "is_crypted_message key ev = Some False" "is_usr_in_message env key ev = Some (user_property env subject)"
    "is_dht_message env key ev = Some (dht_subject env subject \<and> own)"
    "is_pheromone_message env key ev = Some (np_dhkey_equal subject (subject_of env ''_NP.PHEROMONE.UPDATE''))"
    "is_discovery_message env key ev = Some (\<not> own \<and> token_subject)"
    "is_forward_message env key ev = Some (\<not> own)" "is_shutdown_event env key ev = Some False" "is_node_authn ev = Some False"
    using f ev msg part known live
    by (simp_all add: is_crypted_message_def cast_defs is_usr_in_message_def is_dht_message_def is_pheromone_message_def
        is_discovery_message_def is_forward_message_def is_shutdown_event_def is_node_authn_def defs)
  have ne: "ev_type ev \<noteq> evt_noop" and lt: "unat (sm_current_state m) < 11" using ev state by (simp_all add: evt_defs key_states)
  have handler: "alias_handler env subject audience = (if user_property env subject then Some Np_handle_usr_msg
      else if dht_subject env subject \<and> own then Some Np_handle_np_message
      else if np_dhkey_equal subject (subject_of env ''_NP.PHEROMONE.UPDATE'') then Some Np_handle_pheromone
      else if own then None else if token_subject then Some Np_handle_np_discovery else Some Np_handle_np_forward)"
    by (simp add: alias_handler_def defs Let_def)
  have found: "scan (key_cnd env) (key_transitions IN_USE_ALIAS) m ev = Some (Some (tr IN_USE_ALIAS IN_USE_ALIAS (Some a) c), m)
      \<Longrightarrow> a \<noteq> Keystate_noop \<Longrightarrow> np_key_handle_event acts env m ev = do {
          m' \<leftarrow> acts a m ev;
          new_state \<leftarrow> the_state key_table (sm_current_state m');
          Some (True, m'\<lparr>sm_user_data := (sm_user_data m')\<lparr>k_last_update := ke_now env\<rparr>\<rparr>) }" for a c
    using handle_event_stays [where m = m and mc = m and a = a and env = env and acts = acts, OF lt] state ne by (simp add: tr_def touched_def)
  note run = key_transitions_simps scan_key scan_always observe_def conds key user_data_id [OF key]
  show ?thesis
  proof (cases "alias_handler env subject audience")
    case None
    then show ?thesis
      using found [of Np_alias_update None] by (auto simp: handler run simp del: scan.simps(2) split: if_splits)
  next
    case (Some a)
    have "\<exists>c. scan (key_cnd env) (key_transitions IN_USE_ALIAS) m ev = Some (Some (tr IN_USE_ALIAS IN_USE_ALIAS (Some a) c), m)"
      using Some unfolding handler by (auto simp: run simp del: scan.simps(2) split: if_splits)
    moreover have "a \<noteq> Keystate_noop" using Some unfolding handler by (auto split: if_splits)
    ultimately show ?thesis using found Some by auto
  qed
qed


definition demo_node :: peer_node where
  "demo_node = \<lparr>pn_host_key = Some ''k'', pn_ip_string = Some ''::1'', pn_port = Some ''1'', pn_join_send_at = 0, pn_leave_send_at = 0,
     pn_connection_attempts = 0, pn_is_in_routing_table = False, pn_is_in_leafset = False, pn_success_avg = 1,
     pn_msg_forward_filter = \<lparr>bl_type = stable_bf, bl_size = 2, bl_d = 8, bl_p = 3, bl_rng = \<lparr>pcg_st = 0, pcg_inc = 1\<rparr>,
       bl_bitset = [0, 0], bl_num_blocks = 1, bl_free_items = 1\<rparr>\<rparr>"

definition demo_part :: np_messagepart where
  "demo_part = \<lparr>mp_subject = Some (Dhkey 1 0 0 0 0 0 0 0), mp_audience = Some (Dhkey 0 0 0 0 0 0 0 1), mp_tstamp = Some 40, mp_ttl = Some 20,
     mp_uuid = Some [], mp_nonce = Some [], mp_chunk_offset = 0\<rparr>"

definition demo_machine :: "u8 \<Rightarrow> u32 \<Rightarrow> peer_node \<Rightarrow> np_key statemachine" where
  "demo_machine s ty n = \<lparr>sm_start_state = UNUSED, sm_current_state = s, sm_user_data =
     \<lparr>k_dhkey = dhkey_zero, k_parent_dhkey = dhkey_zero, k_type = ty, k_created_at = - 100, k_last_update = 0,
      k_entity_array = [None, None, Some (O_node n), None, None, None, None, None]\<rparr>\<rparr>"

theorem alias_dispatch_witness:
  "let m = demo_machine IN_USE_ALIAS np_key_type_alias (demo_node\<lparr>pn_is_in_leafset := True\<rparr>); key = sm_user_data m;
       ev = demo_event (evt_external OR evt_message) (Some (O_messagepart demo_part))
   in alias_handler demo_key_env (Dhkey 1 0 0 0 0 0 0 0) (Dhkey 0 0 0 0 0 0 0 1) = Some Np_handle_np_forward
     \<and> np_key_handle_event (\<lambda>_ m _. Some m) demo_key_env m ev = Some (True, m\<lparr>sm_user_data := key\<lparr>k_last_update := 50\<rparr>\<rparr>)"
proof -
  have h: "alias_handler demo_key_env (Dhkey 1 0 0 0 0 0 0 0) (Dhkey 0 0 0 0 0 0 0 1) = Some Np_handle_np_forward" by code_simp
  have st: "\<exists>st. the_state key_table IN_USE_ALIAS = Some st" using the_state_ex [of IN_USE_ALIAS] by (auto simp: key_states)
  show ?thesis
    using alias_dispatch [of "demo_machine IN_USE_ALIAS np_key_type_alias (demo_node\<lparr>pn_is_in_leafset := True\<rparr>)", OF _ refl,
        of "demo_event (evt_external OR evt_message) (Some (O_messagepart demo_part))" demo_part "demo_node\<lparr>pn_is_in_leafset := True\<rparr>"
          "Dhkey 1 0 0 0 0 0 0 0" "Dhkey 0 0 0 0 0 0 0 1" 40 20 demo_key_env "\<lambda>_ m _. Some m"] h st
    by (auto simp: Let_def demo_machine_def FLAG_CMP_def key_type_defs demo_event_def np_key_get_node_def entity_def rd_def e_nodeinfo_def
        demo_part_def demo_key_env_def)
qed

end
