(* ===== verification/Np_Key_Typing.thy ===== *)
theory Np_Key_Typing
  imports Np_Key_Life
begin

text \<open>
  Progress of the machine of keys: what has to lie in the entities of a key in each state, what an event has to
  carry, and that no condition then fails.
\<close>

section \<open>The filters of nodes and identities\<close>

text \<open>As they are created: cells of eight bits, and a pruning loop that ends within the range of its counter.\<close>

definition filter_ok :: "np_bloom \<Rightarrow> bool" where
  "filter_ok b \<longleftrightarrow> bl_d b = 8 \<and> length (bl_bitset b) = bl_size b \<and> 0 < bl_size b \<and> bl_size b < 2 ^ 29 \<and> unat (bl_p b) < 32"

lemma filter_pos:
  assumes "0 < sz" "sz < 2 ^ 29"
  shows "cell_pos (mask_pos sz w) 8 < sz"
proof -
  have "(ucast w :: u64) AND (of_nat sz - 1) \<le> of_nat sz - 1" by (rule word_and_le1)
  moreover have "unat (of_nat sz - 1 :: u64) = sz - 1"
    using assms unat_of_nat_fit [of "sz - 1", where 'w = 64] by (simp add: of_nat_diff)
  ultimately have "mask_pos sz w \<le> sz - 1" by (simp add: mask_pos_def word_le_nat_alt)
  then have m: "mask_pos sz w < sz" using assms(1) by simp
  have "unat (of_nat (mask_pos sz w) * ucast (8 :: u8) :: u32) = mask_pos sz w * 8"
    using m assms(2) unat_of_nat_fit [of "mask_pos sz w * 8", where 'w = 32] by simp
  then show ?thesis using m by (simp add: cell_pos_def unat_drop_bit_eq drop_bit_nat_def)
qed

lemma stable_kill_ok:
  assumes "0 < sz" "sz < 2 ^ 29" "length bs = sz"
  shows "\<exists>rng' killed' bs'. stable_kill sz 8 (rng, killed, bs) = Some (rng', killed', bs') \<and> length bs' = sz"
  using filter_pos [OF assms(1,2)] assms(3)
  by (auto simp: stable_kill_def rd_def wr_def Let_def split: prod.splits)

lemma stable_check_ok:
  assumes "filter_ok b"
  shows "\<exists>dup b'. np_stable_bloom_check b key = Some (dup, b') \<and> filter_ok b'"
proof -
  let ?P = "\<lambda>(rng :: pcg_state, killed :: u32, bs). length bs = bl_size b"
  note ok = assms [unfolded filter_ok_def]
  have pos: "cell_pos (mask_pos (bl_size b) w) 8 < bl_size b" for w using ok by (simp add: filter_pos)
  have "\<exists>r. stable_test b key = Some r \<and> True"
    unfolding stable_test_def by (rule for_each_inv) (use ok pos in \<open>auto simp: rd_def\<close>)
  then obtain r where r: "stable_test b key = Some r" by blast
  have "loop_w (1 :: u8) (unat (bl_p b) * unat (bl_d b)) f 0 s = for_each f [0..<unat (bl_p b) * unat (bl_d b)] s" for f and s :: "pcg_state \<times> u32 \<times> u8 list"
    using ok loop_w_for_each [of "1 :: u8" "unat (bl_p b) * unat (bl_d b)" "unat (bl_p b) * unat (bl_d b)" 0 f s]
      loop_w.simps [of "1 :: u8" 0 f 0 s]
    by (cases "unat (bl_p b) * unat (bl_d b) = 0") auto
  moreover have "\<exists>s'. for_each (\<lambda>_. stable_kill (bl_size b) (bl_d b)) [0..<unat (bl_p b) * unat (bl_d b)] (bl_rng b, 0, bl_bitset b) = Some s' \<and> ?P s'"
    by (rule for_each_inv) (use ok stable_kill_ok in \<open>fastforce+\<close>)
  ultimately obtain rng killed bs where k: "loop_w (1 :: u8) (unat (bl_p b) * unat (bl_d b)) (\<lambda>_. stable_kill (bl_size b) (bl_d b)) 0
      (bl_rng b, 0, bl_bitset b) = Some (rng, killed, bs)" "length bs = bl_size b" by auto
  have "\<exists>bs'. for_each (\<lambda>w. modify (\<lambda>v. v OR mask (unat (bl_d b))) (cell_pos (mask_pos (bl_size b) w) (bl_d b))) (dhkey_t key) bs = Some bs'
      \<and> length bs' = bl_size b"
    by (rule for_each_inv) (use ok pos k(2) in \<open>auto simp: modify_eq\<close>)
  then obtain bs' where m: "for_each (\<lambda>w. modify (\<lambda>v. v OR mask (unat (bl_d b))) (cell_pos (mask_pos (bl_size b) w) (bl_d b))) (dhkey_t key) bs = Some bs'"
      "length bs' = bl_size b" by blast
  let ?b = "b\<lparr>bl_rng := rng, bl_bitset := bs', bl_free_items := freed_items (drop_bit 3 killed) (bl_free_items b) - 1\<rparr>"
  have "np_stable_bloom_check b key = Some (r, ?b)"
    unfolding np_stable_bloom_check_def np_stable_bloom_add_def r k(1) by (simp add: m(1) Let_def del: freed_items.simps)
  moreover have "filter_ok ?b" using ok m(2) by (simp add: filter_ok_def del: freed_items.simps)
  ultimately show ?thesis by blast
qed

section \<open>Well typed keys and events\<close>

text \<open>
  Typing of the data. The attributes of a token are a data block that lies in its array, in which a partner
  fingerprint is a key and the thresholds are numbers.
\<close>

definition block_typed :: "token_env \<Rightarrow> u8 list \<Rightarrow> bool" where
  "block_typed te attributes \<longleftrightarrow> (case get_data_size te attributes of None \<Rightarrow> True | Some n \<Rightarrow> n \<le> length attributes)"

definition number_typed :: "token_env \<Rightarrow> u8 list \<Rightarrow> string \<Rightarrow> bool" where
  "number_typed te attributes name \<longleftrightarrow> (case get_data te attributes name of Inr (D_uint w) \<Rightarrow> True | Inr _ \<Rightarrow> False | Inl _ \<Rightarrow> True)"

definition partner_typed :: "token_env \<Rightarrow> u8 list \<Rightarrow> bool" where
  "partner_typed te attributes \<longleftrightarrow> (case get_data te attributes ''_np.partner_fp'' of
     Inr (D_bin bs) \<Rightarrow> length bs = 32 | Inr _ \<Rightarrow> False | Inl err \<Rightarrow> err = np_key_not_found)"

definition token_typed :: "token_env \<Rightarrow> np_aaatoken \<Rightarrow> bool" where
  "token_typed te token \<longleftrightarrow> block_typed te (tk_attributes token) \<and> partner_typed te (tk_attributes token)
     \<and> number_typed te (tk_attributes token) ''max_threshold'' \<and> number_typed te (tk_attributes token) ''msg_threshold''"

text \<open>The issuer of a handshake token is a key in hexadecimal digits.\<close>

definition issuer_typed :: "np_aaatoken \<Rightarrow> bool" where
  "issuer_typed token \<longleftrightarrow> 64 \<le> length (tk_issuer token) \<and> all_xdigit (take 64 (str_of_bytes (tk_issuer token)))"

definition part_typed :: "np_messagepart \<Rightarrow> bool" where
  "part_typed part \<longleftrightarrow> mp_subject part \<noteq> None \<and> mp_audience part \<noteq> None \<and> mp_tstamp part \<noteq> None \<and> mp_ttl part \<noteq> None
     \<and> mp_uuid part \<noteq> None \<and> mp_nonce part \<noteq> None"

definition token_entity :: "key_env \<Rightarrow> u32 \<Rightarrow> np_key \<Rightarrow> bool" where
  "token_entity env ty key \<longleftrightarrow> (case np_key_get_token key of
     None \<Rightarrow> True | Some (O_token t) \<Rightarrow> token_typed (ke_token env) t \<and> FLAG_CMP (tk_type t) ty | _ \<Rightarrow> False)"

definition node_entity :: "np_key \<Rightarrow> bool" where
  "node_entity key \<longleftrightarrow> (case np_key_get_node key of None \<Rightarrow> True | Some (O_node n) \<Rightarrow> True | _ \<Rightarrow> False)"

text \<open>
  What lies in the entities of a key, for each state of its machine; the token of an alias is that of a node.
\<close>

definition key_typed :: "key_env \<Rightarrow> u8 \<Rightarrow> np_key \<Rightarrow> bool" where
  "key_typed env s key \<longleftrightarrow>
     (if s \<in> {UNUSED, IN_SETUP_WILDCARD, ON_HOLD_MSGPROPERTY, IN_DESTROY} then True
      else if s = IN_SETUP_NODE then node_entity key \<and> token_entity env 0 key
      else if s = IN_USE_NODE then (\<exists>n. np_key_get_node key = Some (O_node n) \<and> filter_ok (pn_msg_forward_filter n)) \<and> token_entity env 0 key
      else if s \<in> {IN_SETUP_ALIAS, IN_USE_ALIAS}
      then (\<exists>n. np_key_get_node key = Some (O_node n)) \<and> token_entity env np_aaatoken_type_node key
      else if s = IN_SETUP_IDENTITY then token_entity env 0 key
      else if s = IN_USE_IDENTITY then (\<exists>b. entity key 4 = Some (O_bloom b) \<and> filter_ok b) \<and> token_entity env 0 key
      else if s = IN_USE_MSGPROPERTY then (\<exists>c r. entity key 0 = Some (O_conf c) \<and> entity key 1 = Some (O_run r))
      else False)"

text \<open>
  What comes with an event: a typed token, a node with a host key or a part with all its fields. A shutdown from
  another node brings the token of a node, and an authorisation that reaches a subject brings an intent.
\<close>

definition event_typed :: "key_env \<Rightarrow> u8 \<Rightarrow> np_event \<Rightarrow> bool" where
  "event_typed env s ev \<longleftrightarrow>
     (case ev_user_data ev of
        Some (O_token t) \<Rightarrow> token_typed (ke_token env) t \<and> (FLAG_CMP (tk_type t) np_aaatoken_type_handshake \<longrightarrow> issuer_typed t)
      | Some (O_node n) \<Rightarrow> pn_host_key n \<noteq> None
      | Some (O_messagepart m) \<Rightarrow> part_typed m
      | _ \<Rightarrow> True)
     \<and> (event_is ev evt_shutdown \<and> event_is ev evt_external \<longrightarrow>
         (case ev_user_data ev of Some (O_token t) \<Rightarrow> FLAG_CMP (tk_type t) np_aaatoken_type_node | _ \<Rightarrow> False))
     \<and> (s = IN_USE_MSGPROPERTY \<and> event_is ev evt_authz \<and> event_is ev evt_external \<and> event_is ev evt_token \<longrightarrow>
         (case ev_user_data ev of Some (O_token t) \<Rightarrow> FLAG_CMP (tk_type t) np_aaatoken_type_message_intent | _ \<Rightarrow> True))"

text \<open>What is used of \<^verbatim>\<open>sodium_hex2bin\<close>: 64 hexadecimal digits are 32 bytes.\<close>

definition hex2bin_ok :: "token_env \<Rightarrow> bool" where
  "hex2bin_ok te \<longleftrightarrow> (\<forall>s. length s = 64 \<and> all_xdigit s \<longrightarrow> (\<exists>bs. hex2bin te s = Some bs \<and> length bs = 32))"

lemma from_hash_total:
  assumes "hex2bin_ok te"
  shows "np_dhkey_create_from_hash (hex2bin te) s \<noteq> None"
proof (cases "64 \<le> length s \<and> all_xdigit (take 64 s)")
  case True
  then have "length (take 64 s) = 64" "all_xdigit (take 64 s)" by simp_all
  then obtain bs where "hex2bin te (take 64 s) = Some bs" using assms unfolding hex2bin_ok_def by blast
  then show ?thesis by (simp add: np_dhkey_create_from_hash_def np_str_id_def)
qed (auto simp: np_dhkey_create_from_hash_def)

lemma issuer_total:
  assumes "hex2bin_ok (ke_token env)" "issuer_typed t"
  shows "issuer_is_source env t ev \<noteq> None"
proof -
  have "length (take 64 (str_of_bytes (tk_issuer t))) = 64" "all_xdigit (take 64 (str_of_bytes (tk_issuer t)))"
    using assms(2) by (simp_all add: issuer_typed_def str_of_bytes_def)
  then obtain bs where "hex2bin (ke_token env) (take 64 (str_of_bytes (tk_issuer t))) = Some bs" using assms(1) unfolding hex2bin_ok_def by blast
  then show ?thesis by (simp add: issuer_is_source_def np_str_dhkey_def np_str_id_def)
qed

lemma partner_total:
  assumes "hex2bin_ok te" "token_typed te t"
  shows "np_aaatoken_get_partner_fp te t \<noteq> None"
  using assms(2) from_hash_total [OF assms(1)]
  by (auto simp: token_typed_def partner_typed_def np_aaatoken_get_partner_fp_def np_aaatoken_get_fingerprint_def
      split: sum.splits np_data_value.splits np_data_return.splits)

lemma attributes_total:
  assumes "block_typed te (tk_attributes t)"
  shows "verify_attributes te t \<noteq> None"
  using assms by (auto simp: block_typed_def verify_attributes_def np_aaatoken_get_attributes_hash_def split: option.splits)

lemma thresholds_total:
  assumes "number_typed te (tk_attributes t) ''max_threshold''" "number_typed te (tk_attributes t) ''msg_threshold''"
  shows "check_thresholds te t \<noteq> None"
  using assms by (auto simp: number_typed_def check_thresholds_def split: sum.splits np_data_value.splits)

lemma verified_attributes [simp]:
  "verify_token te t = (b, t') \<Longrightarrow> tk_attributes t' = tk_attributes t"
  "verify_attributes te t = Some (b, t') \<Longrightarrow> tk_attributes t' = tk_attributes t"
  by (auto simp: verify_token_def verify_attributes_def bind_eq_Some_conv split: if_splits option.splits)

lemma valid_total:
  assumes "token_typed (ke_token env) t" "FLAG_CMP (tk_type t) expected"
  shows "token_is_valid env t expected \<noteq> None"
proof -
  let ?te = "ke_token env"
  obtain b t1 where v: "verify_token ?te t = (b, t1)" by fastforce
  then have a: "tk_attributes t1 = tk_attributes t" by simp
  have "block_typed ?te (tk_attributes t1)" using assms(1) a by (simp add: token_typed_def)
  then obtain b2 t2 where v2: "verify_attributes ?te t1 = Some (b2, t2)" using attributes_total by fastforce
  then have a2: "tk_attributes t2 = tk_attributes t" using a by simp
  have "check_thresholds ?te t2 \<noteq> None" "check_thresholds ?te t1 \<noteq> None" "check_thresholds ?te t \<noteq> None"
    using assms(1) a a2 thresholds_total by (simp_all add: token_typed_def)
  then show ?thesis using assms(2) v v2
    by (auto simp: token_is_valid_def np_aaatoken_is_valid_def Let_def)
qed

lemma valid_ex: "token_typed (ke_token env) t \<Longrightarrow> FLAG_CMP (tk_type t) expected \<Longrightarrow> \<exists>v. token_is_valid env t expected = Some v"
  using valid_total by blast

lemma rtti_simps [simp]:
  "np_memory_get_type item = T_np_aaatoken \<longleftrightarrow> (\<exists>t. item = Some (O_token t))"
  "np_memory_rtti_check item T_np_aaatoken \<longleftrightarrow> (\<exists>t. item = Some (O_token t))"
  "np_memory_rtti_check item T_np_node \<longleftrightarrow> (\<exists>n. item = Some (O_node n))"
  "np_memory_rtti_check item T_np_messagepart \<longleftrightarrow> (\<exists>m. item = Some (O_messagepart m))"
proof -
  have "memory_type obj = T_np_aaatoken \<longleftrightarrow> (\<exists>t. obj = O_token t)" "memory_type obj = T_np_node \<longleftrightarrow> (\<exists>n. obj = O_node n)"
    "memory_type obj = T_np_messagepart \<longleftrightarrow> (\<exists>m. obj = O_messagepart m)" for obj by (cases obj; simp)+
  then show "np_memory_get_type item = T_np_aaatoken \<longleftrightarrow> (\<exists>t. item = Some (O_token t))"
    "np_memory_rtti_check item T_np_aaatoken \<longleftrightarrow> (\<exists>t. item = Some (O_token t))"
    "np_memory_rtti_check item T_np_node \<longleftrightarrow> (\<exists>n. item = Some (O_node n))"
    "np_memory_rtti_check item T_np_messagepart \<longleftrightarrow> (\<exists>m. item = Some (O_messagepart m))"
    by (cases item; simp add: cast_defs)+
qed

lemma cast_simps [simp]:
  "cast_token (Some (O_token t)) = Some t" "cast_node (Some (O_node n)) = Some n"
  "cast_messagepart (Some (O_messagepart m)) = Some m" "cast_bloom (Some (O_bloom b)) = Some b"
  "cast_conf (Some (O_conf c)) = Some c" "cast_run (Some (O_run r)) = Some r"
  by (simp_all add: cast_defs)

lemma FLAG_CMP_self [simp]: "FLAG_CMP x x" "FLAG_CMP x 0"
  by (simp_all add: FLAG_CMP_def)

lemma part_fields:
  assumes "part_typed m"
  obtains subject audience tstamp ttl uuid nonce where "mp_subject m = Some subject" "mp_audience m = Some audience"
    "mp_tstamp m = Some tstamp" "mp_ttl m = Some ttl" "mp_uuid m = Some uuid" "mp_nonce m = Some nonce"
  using assms by (auto simp: part_typed_def)

lemma event_token:
  assumes "event_typed env s ev" "ev_user_data ev = Some (O_token t)"
  shows "token_typed (ke_token env) t" "FLAG_CMP (tk_type t) np_aaatoken_type_handshake \<Longrightarrow> issuer_typed t"
    "token_is_valid env t (tk_type t) \<noteq> None"
  using assms valid_total [of env t "tk_type t"] by (simp_all add: event_typed_def)

lemma token_event_conditions:
  assumes "event_typed env s ev" "hex2bin_ok (ke_token env)"
  shows "is_alias_handshake_token env ev \<noteq> None" "is_node_handshake_token env ev \<noteq> None" "is_node_token env ev \<noteq> None"
    "is_identity_aaatoken env ev \<noteq> None" "is_node_identity_authn env key ev \<noteq> None"
proof -
  have t: "token_is_valid env t (tk_type t) \<noteq> None" "np_aaatoken_get_partner_fp (ke_token env) t \<noteq> None"
    "FLAG_CMP (tk_type t) np_aaatoken_type_handshake \<Longrightarrow> issuer_is_source env t ev \<noteq> None"
    if "ev_user_data ev = Some (O_token t)" for t
    using event_token [OF assms(1) that] partner_total [OF assms(2)] issuer_total [OF assms(2)] by blast+
  have h: "tk_type t = 4 \<Longrightarrow> FLAG_CMP (tk_type t) np_aaatoken_type_handshake" for t by (simp add: FLAG_CMP_def)
  show "is_alias_handshake_token env ev \<noteq> None" "is_node_handshake_token env ev \<noteq> None" "is_node_token env ev \<noteq> None"
    "is_identity_aaatoken env ev \<noteq> None" "is_node_identity_authn env key ev \<noteq> None"
    using t h by (auto simp: is_alias_handshake_token_def is_node_handshake_token_def is_node_token_def is_identity_aaatoken_def
        is_node_identity_authn_def bind_eq_None_conv simp del: not_None_eq)
qed

lemma intent_condition:
  assumes "event_typed env IN_USE_MSGPROPERTY ev"
  shows "is_intent_authz env ev \<noteq> None"
  using assms by (auto simp: valid_total valid_ex event_typed_def is_intent_authz_def bind_eq_None_conv simp del: not_None_eq)

lemma event_conditions:
  assumes "event_typed env s ev"
  shows "is_wildcard_key ev \<noteq> None" "is_node_info ev \<noteq> None" "is_alias_node_info ev \<noteq> None"
    "is_handshake_message env key ev \<noteq> None" "is_join_out_message env ev \<noteq> None" "is_join_in_message env key ev \<noteq> None"
    "is_usr_in_message env key ev \<noteq> None"
  using assms
  by (auto simp: event_typed_def is_wildcard_key_def is_node_info_def is_alias_node_info_def part_typed_def is_msgpart_expired_def
      is_handshake_message_def is_join_out_message_def is_join_in_message_def is_usr_in_message_def host_key_head_def
      alias_messagepart_def bind_eq_None_conv simp del: not_None_eq)

lemma token_conditions:
  assumes "token_entity env ty key"
  shows "is_identity_invalid env key \<noteq> None" "key_token_invalid env key tk_type \<noteq> None" "key_token_invalid env key (\<lambda>_. ty) \<noteq> None"
  using assms
  by (auto simp: valid_total valid_ex token_entity_def is_identity_invalid_def key_token_invalid_def np_key_get_token_def Let_def bind_eq_None_conv
      simp del: not_None_eq split: option.splits np_object.splits)

lemma shutdown_condition:
  assumes "event_typed env s ev" "token_entity env ty key"
  shows "is_shutdown_event env key ev \<noteq> None"
  using assms
  by (auto simp: valid_total valid_ex event_typed_def token_entity_def is_shutdown_event_def np_key_get_token_def Let_def bind_eq_None_conv
      simp del: not_None_eq split: option.splits np_object.splits)

lemma ex_not [simp]: "Ex Not" "\<exists>b. \<not> b"
  by blast+

lemma known_total: "node_entity key \<Longrightarrow> alias_node_known key \<noteq> None"
  by (auto simp: node_entity_def alias_node_known_def split: option.splits np_object.splits)

lemma node_conditions:
  assumes "event_typed env s ev" "token_entity env ty key" "node_entity key"
  shows "is_node_invalid env key ev \<noteq> None" "has_to_leave env key ev \<noteq> None"
    "is_pheromone_message env key ev \<noteq> None" "is_dht_message env key ev \<noteq> None"
    "is_forward_message env key ev \<noteq> None" "is_discovery_message env key ev \<noteq> None"
proof -
  note t = token_conditions(2) [OF assms(2)] and k = known_total [OF assms(3)]
  have part: "part_typed m" if "ev_user_data ev = Some (O_messagepart m)" for m
    using assms(1) that by (simp add: event_typed_def)
  show fw: "is_forward_message env key ev \<noteq> None" "is_pheromone_message env key ev \<noteq> None" "is_dht_message env key ev \<noteq> None"
    using k part by (auto simp: is_forward_message_def is_pheromone_message_def is_dht_message_def alias_messagepart_def is_msgpart_expired_def
        part_typed_def bind_eq_None_conv simp del: not_None_eq)
  have "\<exists>m. ev_user_data ev = Some (O_messagepart m)" if "is_forward_message env key ev = Some True"
    using that by (auto simp: is_forward_message_def alias_messagepart_def split: if_splits)
  then show "is_discovery_message env key ev \<noteq> None" using fw(1) part
    by (auto simp: is_discovery_message_def is_msgpart_expired_def part_typed_def bind_eq_None_conv simp del: not_None_eq)
  show "is_node_invalid env key ev \<noteq> None" "has_to_leave env key ev \<noteq> None"
    using assms(3) t by (auto simp: is_node_invalid_def has_to_leave_def node_entity_def Let_def simp del: not_None_eq split: option.splits np_object.splits)
qed

lemma alias_condition:
  assumes "token_entity env np_aaatoken_type_node key" "np_key_get_node key = Some (O_node n)"
  shows "is_alias_invalid env key \<noteq> None"
  using token_conditions(3) [OF assms(1)] assms(2) by (simp add: is_alias_invalid_def del: not_None_eq)

text \<open>The conditions that change the key replace the filter by its successor.\<close>

lemma entity_update:
  assumes "entity key i = Some x"
  shows "entity (key\<lparr>k_entity_array := (k_entity_array key)[i := Some y]\<rparr>) j = (if j = i then Some y else entity key j)"
  using assms by (auto simp: entity_def rd_def split: if_splits)

lemma np_messagepart_typed:
  assumes "key_typed env IN_USE_NODE key" "event_typed env s ev"
  shows "\<exists>b key'. is_np_messagepart env key ev = Some (b, key') \<and> key_typed env IN_USE_NODE key'"
proof -
  obtain n where n: "np_key_get_node key = Some (O_node n)" "filter_ok (pn_msg_forward_filter n)" "token_entity env 0 key"
    using assms(1) by (auto simp: key_typed_def key_states)
  note upd = entity_update [OF n(1) [unfolded np_key_get_node_def e_nodeinfo_def]]
  show ?thesis
  proof (cases "\<exists>m. internal_message ev \<and> FLAG_CMP (k_type key) np_key_type_node \<and> ev_user_data ev = Some (O_messagepart m)")
    case True
    then obtain m where m: "ev_user_data ev = Some (O_messagepart m)" by blast
    then have "part_typed m" using assms(2) by (simp add: event_typed_def)
    then obtain subject audience uuid nonce where fields: "mp_subject m = Some subject" "mp_audience m = Some audience"
      "mp_uuid m = Some uuid" "mp_nonce m = Some nonce" by (rule part_fields)
    obtain dup f where "np_stable_bloom_check (pn_msg_forward_filter n) (np_generate_subject env audience
        (uuid @ nonce @ u16_bytes (mp_chunk_offset m))) = Some (dup, f)" "filter_ok f"
      using stable_check_ok [OF n(2)] by blast
    then show ?thesis using True n m fields
      by (auto simp: is_np_messagepart_def is_new_np_messagepart_def Let_def key_typed_def key_states np_key_get_node_def
          token_entity_def np_key_get_token_def upd e_nodeinfo_def e_aaatoken_def)
  qed (use assms in \<open>auto simp: is_np_messagepart_def\<close>)
qed

lemma token_request_typed:
  assumes "key_typed env IN_USE_IDENTITY key" "event_typed env s ev"
  shows "\<exists>b key'. token_request env flag f key ev = Some (b, key') \<and> key_typed env IN_USE_IDENTITY key'"
proof -
  obtain b where b: "entity key 4 = Some (O_bloom b)" "filter_ok b" "token_entity env 0 key"
    using assms(1) by (auto simp: key_typed_def key_states)
  note upd = entity_update [OF b(1)]
  show ?thesis
  proof (cases "\<exists>t. event_is ev flag \<and> (event_is ev evt_external \<and> event_is ev evt_token) \<and> ev_user_data ev = Some (O_token t)")
    case True
    then obtain t where t: "ev_user_data ev = Some (O_token t)" by blast
    obtain dup g where "np_stable_bloom_check b (np_generate_subject env dhkey_zero (tk_attributes_signature t)) = Some (dup, g)" "filter_ok g"
      using stable_check_ok [OF b(2)] by blast
    moreover obtain v where "token_is_valid env t (tk_type t) = Some v"
      using event_token(3) [OF assms(2) t] by blast
    ultimately show ?thesis using True b t
      by (auto simp: token_request_def Let_def key_typed_def key_states token_entity_def np_key_get_token_def upd e_aaatoken_def)
  qed (use assms in \<open>auto simp: token_request_def\<close>)
qed

section \<open>Progress\<close>

text \<open>A scan whose conditions are all defined, on machines that keep what they need, is defined.\<close>

lemma scan_total:
  assumes "P (sm_user_data m)"
    "\<And>t c key. t \<in> set ts \<Longrightarrow> tr_condition t = Some c \<Longrightarrow> P key \<Longrightarrow> \<exists>b key'. key_condition env c key ev = Some (b, key') \<and> P key'"
  shows "\<exists>found m'. scan (key_cnd env) ts m ev = Some (found, m') \<and> P (sm_user_data m')"
  using assms
proof (induction ts arbitrary: m)
  case (Cons t ts)
  obtain b m1 where "(if tr_active t then met (key_cnd env) (tr_condition t) m ev else Some (False, m)) = Some (b, m1)" "P (sm_user_data m1)"
  proof (cases "tr_active t \<and> tr_condition t \<noteq> None")
    case True
    then obtain c where c: "tr_condition t = Some c" by blast
    then obtain b key' where "key_condition env c (sm_user_data m) ev = Some (b, key')" "P key'"
      using Cons.prems(2) [of t c "sm_user_data m"] Cons.prems(1) by auto
    then show thesis using that [of b "m\<lparr>sm_user_data := key'\<rparr>"] True c by (simp add: met_def key_cnd_def)
  next
    case False
    then show thesis using that [of "tr_active t" m] Cons.prems(1) by (auto simp: met_def)
  qed
  moreover have "\<exists>found m'. scan (key_cnd env) ts m1 ev = Some (found, m') \<and> P (sm_user_data m')"
    by (rule Cons.IH [OF calculation(2) Cons.prems(2)]) simp_all
  ultimately show ?case by auto
qed simp

lemma observed: "r \<noteq> None \<Longrightarrow> P key \<Longrightarrow> \<exists>b key'. observe key r = Some (b, key') \<and> P key'"
  by (auto simp: observe_def)

lemmas plain_conditions = is_noop_event_def is_msgproperty_def is_unused_def is_crypted_message_def is_node_authn_def is_invalid_message_def
  is_np_message_def is_identity_authn_def is_wildcard_invalid_def is_response_event_def is_unencrypted_np_message_def is_account_request_def
  is_msgproperty_lifecycle_disable_def is_msgproperty_lifecycle_enable_def is_message_redelivery_event_def is_no_token_available_def

lemma typed_conditions:
  assumes "key_typed env s key" "event_typed env s ev" "s \<noteq> IN_USE_NODE \<Longrightarrow> hex2bin_ok (ke_token env)"
    "t \<in> set (key_transitions s)" "tr_condition t = Some c"
  shows "\<exists>b key'. key_condition env c key ev = Some (b, key') \<and> key_typed env s key'"
proof -
  note ev = event_conditions(1-3,5) [OF assms(2)] event_conditions(4,6,7) [OF assms(2), of key]
  have et: "s \<noteq> IN_USE_NODE \<Longrightarrow> is_alias_handshake_token env ev \<noteq> None" "s \<noteq> IN_USE_NODE \<Longrightarrow> is_node_handshake_token env ev \<noteq> None"
    "s \<noteq> IN_USE_NODE \<Longrightarrow> is_node_token env ev \<noteq> None" "s \<noteq> IN_USE_NODE \<Longrightarrow> is_identity_aaatoken env ev \<noteq> None"
    "s \<noteq> IN_USE_NODE \<Longrightarrow> is_node_identity_authn env key ev \<noteq> None"
    using token_event_conditions [OF assms(2,3)] by blast+
  consider "s \<in> {UNUSED, IN_SETUP_WILDCARD, ON_HOLD_MSGPROPERTY, IN_DESTROY}" | "s = IN_SETUP_NODE" | "s = IN_USE_NODE"
    | "s \<in> {IN_SETUP_ALIAS, IN_USE_ALIAS}" | "s = IN_SETUP_IDENTITY" | "s = IN_USE_IDENTITY" | "s = IN_USE_MSGPROPERTY"
    using assms(1) by (auto simp: key_typed_def split: if_splits)
  then show ?thesis
  proof cases
    case 1
    then have "s \<noteq> IN_USE_NODE" by (auto simp: key_states)
    note et = et [OF this]
    show ?thesis
      using 1 assms ev et by (auto simp: key_transitions_simps tr_def plain_conditions intro!: observed simp del: not_None_eq)
  next
    case 2
    then have e: "token_entity env 0 key" "node_entity key" using assms(1) by (auto simp: key_typed_def key_states)
    note k = token_conditions [OF e(1)] shutdown_condition [OF assms(2) e(1)] node_conditions [OF assms(2) e]
    have "s \<noteq> IN_USE_NODE" using 2 by (simp add: key_states)
    note et = et [OF this]
    show ?thesis using 2 assms ev et k by (auto simp: key_transitions_simps tr_def plain_conditions intro!: observed simp del: not_None_eq)
  next
    case 3
    then have e: "token_entity env 0 key" "node_entity key" using assms(1) by (auto simp: key_typed_def key_states node_entity_def)
    note k = token_conditions [OF e(1)] shutdown_condition [OF assms(2) e(1)] node_conditions [OF assms(2) e]
      np_messagepart_typed [OF _ assms(2), of key]
    show ?thesis using 3 assms ev k by (auto simp: key_transitions_simps tr_def plain_conditions intro!: observed simp del: not_None_eq)
  next
    case 4
    then obtain n where n: "np_key_get_node key = Some (O_node n)" "token_entity env np_aaatoken_type_node key"
      using assms(1) by (auto simp: key_typed_def key_states)
    then have e: "node_entity key" by (simp add: node_entity_def)
    note k = token_conditions [OF n(2)] shutdown_condition [OF assms(2) n(2)] node_conditions [OF assms(2) n(2) e] alias_condition [OF n(2,1)]
    have "s \<noteq> IN_USE_NODE" using 4 by (auto simp: key_states)
    note et = et [OF this]
    show ?thesis using 4 assms ev et k by (auto simp: key_transitions_simps tr_def plain_conditions intro!: observed simp del: not_None_eq)
  next
    case 5
    then have e: "token_entity env 0 key" using assms(1) by (auto simp: key_typed_def key_states)
    show ?thesis using 5 assms token_conditions [OF e]
      by (auto simp: key_transitions_simps tr_def plain_conditions intro!: observed simp del: not_None_eq)
  next
    case 6
    then have e: "token_entity env 0 key" using assms(1) by (auto simp: key_typed_def key_states)
    note k = token_conditions [OF e] shutdown_condition [OF assms(2) e] token_request_typed [OF assms(1) [unfolded 6] assms(2)]
    show ?thesis using 6 assms k
      by (auto simp: key_transitions_simps tr_def plain_conditions is_authn_request_def is_authz_request_def intro!: observed simp del: not_None_eq)
  next
    case 7
    then obtain co r where "entity key 0 = Some (O_conf co)" "entity key 1 = Some (O_run r)" using assms(1) by (auto simp: key_typed_def key_states)
    then have "is_sender_token_available env key ev \<noteq> None" "is_receiver_token_available env key ev \<noteq> None"
      by (simp_all add: is_sender_token_available_def is_receiver_token_available_def)
    then show ?thesis using 7 assms ev intent_condition [OF assms(2) [unfolded 7]]
      by (auto simp: key_transitions_simps tr_def plain_conditions intro!: observed simp del: not_None_eq)
  qed
qed

lemma typed_scan:
  assumes "key_typed env (sm_current_state m) (sm_user_data m)" "event_typed env (sm_current_state m) ev"
    "sm_current_state m \<noteq> IN_USE_NODE \<Longrightarrow> hex2bin_ok (ke_token env)"
  shows "\<exists>found m'. scan (key_cnd env) (key_transitions (sm_current_state m)) m ev = Some (found, m')
    \<and> key_typed env (sm_current_state m) (sm_user_data m')"
  by (rule scan_total [where P = "key_typed env (sm_current_state m)", OF assms(1)]) (use assms typed_conditions in blast)

lemma typed_state: "key_typed env s key \<Longrightarrow> unat s < 11"
  by (auto simp: key_typed_def key_states split: if_splits)

lemma event_progress:
  assumes "key_typed env (sm_current_state m) (sm_user_data m)" "event_typed env (sm_current_state m) ev" "hex2bin_ok (ke_token env)"
    and acts: "\<And>f a. \<exists>b. acts f a ev = Some b \<and> (unat (sm_current_state a) < 11 \<longrightarrow> unat (sm_current_state b) < 11)"
  shows "\<exists>b m'. np_key_handle_event acts env m ev = Some (b, m') \<and> unat (sm_current_state m') < 11"
proof -
  have lt: "unat (sm_current_state m) < 11" using assms(1) by (rule typed_state)
  obtain st where st: "the_state key_table (sm_current_state m) = Some st" "st_transition_table st = key_transitions (sm_current_state m)"
    using the_state_ex [OF lt] by blast
  obtain found m1 where f: "scan (key_cnd env) (key_transitions (sm_current_state m)) m ev = Some (found, m1)"
    using typed_scan [OF assms(1,2)] assms(3) by blast
  note k = km.scan_keeps [OF f]
  show ?thesis
  proof (cases found)
    case None
    then show ?thesis using f k lt by (simp add: handle_event_scan [OF st(1)])
  next
    case (Some t)
    then have t: "t \<in> set (st_transition_table st)" using k st by simp
    then have target: "unat (tr_target_state t) < 11"
      using table_ok_state(2) [OF key_table_ok st(1)] by (auto simp: state_ok_def list_all_iff the_state_key)
    have total: "key_act acts g a ev \<noteq> None" for g a using acts [of g a] by (auto simp: key_act_def)
    then obtain m2 where m2: "auto_fire (key_act acts) key_table st (sm_current_state m) t m1 ev = Some m2"
      using km.auto_fire_fails [OF st(1) t, of acts m1 ev] by blast
    have keep: "unat (sm_current_state b) < 11" if "key_act acts g a ev = Some b" "unat (sm_current_state a) < 11" for g a b
      using that acts [of g a] by (auto simp: key_act_def split: if_splits)
    have "unat (sm_current_state m2) < 11"
      by (rule km.auto_fire_keeps [OF st(1) t m2, where P = "\<lambda>s. unat s < 11"]) (use keep k lt target in \<open>auto simp: key_act_def\<close>)
    moreover from this obtain st2 where "the_state key_table (sm_current_state m2) = Some st2" using the_state_ex by blast
    ultimately show ?thesis using f m2 Some by (intro exI [of _ True]) (simp add: handle_event_scan [OF st(1)])
  qed
qed

text \<open>
  C1: no event can make a condition of a well typed key fail: in every state of the machine, if the entities of the
  key are those of its state and the event carries what its type promises, every condition of that state returns
  and leaves the entities well typed. No assertion fails in a condition, no NULL pointer is followed and no entity
  is taken for an object of another type; and if the actions that the event runs return and leave the machine in
  one of its states, so does the handling of the event.
\<close>

theorem key_event_progress:
  assumes "key_typed env (sm_current_state m) (sm_user_data m)" "event_typed env (sm_current_state m) ev" "hex2bin_ok (ke_token env)"
  shows "(\<forall>t c. t \<in> set (key_transitions (sm_current_state m)) \<and> tr_condition t = Some c \<longrightarrow>
      (\<exists>b key'. key_condition env c (sm_user_data m) ev = Some (b, key') \<and> key_typed env (sm_current_state m) key'))
    \<and> ((\<forall>f a. \<exists>b. acts f a ev = Some b \<and> (unat (sm_current_state a) < MAX_KEY_STATES \<longrightarrow> unat (sm_current_state b) < MAX_KEY_STATES))
      \<longrightarrow> (\<exists>b m'. np_key_handle_event acts env m ev = Some (b, m') \<and> unat (sm_current_state m') < MAX_KEY_STATES))"
  using typed_conditions [OF assms(1,2)] event_progress [OF assms, of acts] assms(3) unfolding MAX_KEY_STATES_def by blast

lemma demo_machine_typed: "key_typed demo_key_env IN_USE_NODE (sm_user_data (demo_machine IN_USE_NODE ty demo_node))"
  by (simp add: key_typed_def key_states demo_machine_def demo_node_def np_key_get_node_def np_key_get_token_def entity_def rd_def
      e_nodeinfo_def e_aaatoken_def token_entity_def filter_ok_def)

theorem key_event_progress_witness:
  "let m = demo_machine IN_USE_NODE np_key_type_node demo_node; acts = (\<lambda>_ m _. Some m);
       ev = demo_event (evt_internal OR evt_message) (Some (O_messagepart demo_part))
   in key_typed demo_key_env (sm_current_state m) (sm_user_data m) \<and> event_typed demo_key_env (sm_current_state m) ev
     \<and> hex2bin_ok (ke_token demo_key_env)
     \<and> (\<exists>b m'. np_key_handle_event acts demo_key_env m ev = Some (b, m') \<and> unat (sm_current_state m') < MAX_KEY_STATES)"
proof -
  have s: "sm_current_state (demo_machine IN_USE_NODE ty demo_node) = IN_USE_NODE" for ty by (simp add: demo_machine_def)
  have "event_typed demo_key_env IN_USE_NODE (demo_event (evt_internal OR evt_message) (Some (O_messagepart demo_part)))"
    by (simp add: event_typed_def demo_event_def FLAG_CMP_def evt_defs part_typed_def demo_part_def key_states)
  moreover have "hex2bin_ok (ke_token demo_key_env)" by (simp add: hex2bin_ok_def demo_key_env_def demo_env_def)
  ultimately show ?thesis
    using demo_machine_typed key_event_progress [of demo_key_env "demo_machine IN_USE_NODE np_key_type_node demo_node", unfolded s,
        where acts = "\<lambda>_ m _. Some m"]
    unfolding Let_def s by blast
qed

section \<open>Tokens of another type\<close>

text \<open>
  C40: a token of another type stops the process. The LEAVE message of another node brings any token of that node
  to its keys as an external shutdown; if it is not the token of a node, the handling of the event fails an
  assertion, on the key of the node in use, and on its alias in use as long as that is valid.
\<close>

theorem shutdown_other_type_fails:
  assumes "ev_type ev = evt_shutdown OR evt_external" "ev_user_data ev = Some (O_token t)" "\<not> FLAG_CMP (tk_type t) np_aaatoken_type_node"
    and "sm_current_state m = IN_USE_NODE
      \<or> sm_current_state m = IN_USE_ALIAS \<and> is_alias_invalid env (sm_user_data m) = Some False"
  shows "np_key_handle_event acts env m ev = None"
proof -
  have f: "\<not> event_is ev evt_internal" "\<not> event_is ev evt_message" "\<not> event_is ev evt_response" "event_is ev evt_shutdown" "event_is ev evt_external"
    by (simp_all add: assms(1) FLAG_CMP_def evt_defs)
  have fails: "is_shutdown_event env key ev = None" for key
    using assms(2,3) f by (simp add: is_shutdown_event_def token_is_valid_def np_aaatoken_is_valid_def)
  have lt: "unat (sm_current_state m) < 11" using assms(4) by (auto simp: key_states)
  obtain st where st: "the_state key_table (sm_current_state m) = Some st" using the_state_ex [OF lt] by blast
  have "scan (key_cnd env) (key_transitions (sm_current_state m)) m ev = None"
    using assms(4) f fails
    by (auto simp: key_transitions_simps scan_key observe_def is_np_messagepart_def is_np_message_def internal_message_def is_response_event_def
        is_crypted_message_def is_usr_in_message_def is_dht_message_def is_pheromone_message_def is_discovery_message_def
        is_forward_message_def alias_messagepart_def simp del: scan.simps(2))
  then show ?thesis by (simp add: handle_event_scan [OF st])
qed

theorem shutdown_other_type_fails_witness:
  "let m = demo_machine IN_USE_NODE np_key_type_node demo_node; ev = demo_event (evt_shutdown OR evt_external) (Some (O_token demo_identity))
   in \<not> FLAG_CMP (tk_type demo_identity) np_aaatoken_type_node \<and> np_key_handle_event (\<lambda>_ m _. Some m) demo_key_env m ev = None"
  using shutdown_other_type_fails [of "demo_event (evt_shutdown OR evt_external) (Some (O_token demo_identity))" demo_identity
      "demo_machine IN_USE_NODE np_key_type_node demo_node"]
  by (simp add: demo_event_def demo_identity_def demo_machine_def FLAG_CMP_def)

section \<open>Nodes that have left\<close>










end
