(* ===== verification/Np_Scache.thy ===== *)
theory Np_Scache
  imports Np_Settings Np_Sll
begin

text \<open>
  The simple cache of \<^verbatim>\<open>src/util/np_scache.c\<close>: a hash table with chaining, whose buckets are the single linked
  lists of \<open>Np_Sll\<close> on one heap. The hash function of libsodium is the parameter \<open>siphash24\<close>, the time of an
  insertion an argument. A NULL key and a division by zero are \<open>None\<close>; the spinlocks make an operation atomic and
  do not appear. The copy of the key that an item owns is part of the item.
\<close>

section \<open>Data\<close>

definition NP_FINGERPRINT_BYTES :: nat where
  "NP_FINGERPRINT_BYTES = 32"

record 'v np_cache_item =
  ci_key :: "u8 list option"
  ci_value :: 'v
  ci_insert_time :: real

record 'v np_simple_cache_table =
  ct_bucket_size :: u16
  ct_seed :: "u8 list"
  ct_bucket :: "sll list"
  ct_heap :: "'v np_cache_item sll_heap"

type_synonym siphash = "u8 list \<Rightarrow> u8 list \<Rightarrow> u8 list"

section \<open>Operations\<close>

text \<open>\<^verbatim>\<open>memcmp\<close> on the first bytes of two keys.\<close>

definition key_matches :: "'v np_cache_item \<Rightarrow> u8 list \<Rightarrow> bool" where
  "key_matches item key \<longleftrightarrow>
     (case ci_key item of None \<Rightarrow> False | Some k \<Rightarrow> take NP_FINGERPRINT_BYTES k = take NP_FINGERPRINT_BYTES key)"

text \<open>The low sixteen bits of the hash, taken as a little endian number, modulo the number of buckets.\<close>

definition cache_bucket :: "siphash \<Rightarrow> 'v np_simple_cache_table \<Rightarrow> u8 list \<Rightarrow> nat option" where
  "cache_bucket siphash24 table key =
     (let bucket_hash = siphash24 (take NP_FINGERPRINT_BYTES key) (ct_seed table);
          low = ucast (bucket_hash ! 0) OR push_bit 8 (ucast (bucket_hash ! 1)) :: u16
      in if ct_bucket_size table = 0 then None else Some (unat low mod unat (ct_bucket_size table)))"

definition np_cache_init :: "'v np_cache_item sll_heap \<Rightarrow> u16 \<Rightarrow> u8 list \<Rightarrow> 'v np_simple_cache_table" where
  "np_cache_init h sz seed =
     \<lparr>ct_bucket_size = sz, ct_seed = seed, ct_bucket = replicate (unat sz) sll_init, ct_heap = h\<rparr>"

partial_function (option) bucket_loop ::
  "'v np_cache_item sll_heap \<Rightarrow> u8 list \<Rightarrow> addr option \<Rightarrow> 'v np_cache_item option option" where
  "bucket_loop h key iter =
     (case iter of None \<Rightarrow> Some None
      | Some a \<Rightarrow>
          do {
            n \<leftarrow> mem h a;
            (if key_matches (nd_val n) key then Some (Some (nd_val n))
             else do { nx \<leftarrow> sll_next_select h a; bucket_loop h key nx })
          })"

definition bucket_at :: "'v np_simple_cache_table \<Rightarrow> nat \<Rightarrow> sll option" where
  "bucket_at table i = (if i < length (ct_bucket table) then Some (ct_bucket table ! i) else None)"

definition np_simple_cache_get ::
  "siphash \<Rightarrow> 'v np_simple_cache_table \<Rightarrow> u8 list option \<Rightarrow> 'v option option" where
  "np_simple_cache_get siphash24 table key =
     do {
       k \<leftarrow> key;
       i \<leftarrow> cache_bucket siphash24 table k;
       bucket \<leftarrow> bucket_at table i;
       found \<leftarrow> bucket_loop (ct_heap table) k (sl_first bucket);
       Some (map_option ci_value found)
     }"

definition np_simple_cache_add ::
  "siphash \<Rightarrow> real \<Rightarrow> 'v np_simple_cache_table \<Rightarrow> u8 list option \<Rightarrow> 'v \<Rightarrow> (bool \<times> 'v np_simple_cache_table) option" where
  "np_simple_cache_add siphash24 now table key value =
     do {
       k \<leftarrow> key;
       let internal_key = take NP_FINGERPRINT_BYTES k;
       i \<leftarrow> cache_bucket siphash24 table internal_key;
       bucket \<leftarrow> bucket_at table i;
       found \<leftarrow> bucket_loop (ct_heap table) k (sl_first bucket);
       (if found = None
        then do {
          (h, l) \<leftarrow> sll_append (ct_heap table) bucket \<lparr>ci_key = Some internal_key, ci_value = value, ci_insert_time = now\<rparr>;
          Some (True, table\<lparr>ct_heap := h, ct_bucket := (ct_bucket table)[i := l]\<rparr>)
        }
        else Some (False, table))
     }"

fun destroy_loop :: "'v np_cache_item sll_heap \<Rightarrow> sll list \<Rightarrow> 'v np_cache_item sll_heap option" where
  "destroy_loop h [] = Some h"
| "destroy_loop h (l # ls) = do { (h1, l1) \<leftarrow> sll_clear h l; destroy_loop h1 ls }"

definition np_cache_destroy :: "'v np_simple_cache_table \<Rightarrow> 'v np_cache_item sll_heap option" where
  "np_cache_destroy cache = destroy_loop (ct_heap cache) (ct_bucket cache)"

section \<open>The map a cache stands for\<close>

definition cache_nodes :: "'v np_simple_cache_table \<Rightarrow> (addr \<times> 'v np_cache_item) list list \<Rightarrow> bool" where
  "cache_nodes t nss \<longleftrightarrow> heap_ok (ct_heap t) \<and> length (ct_bucket t) = unat (ct_bucket_size t) \<and> 0 < ct_bucket_size t
     \<and> list_all2 (sll_nodes (ct_heap t)) (ct_bucket t) nss
     \<and> (\<forall>i < length nss. \<forall>j < length nss. i \<noteq> j \<longrightarrow> fst ` set (nss ! i) \<inter> fst ` set (nss ! j) = {})"

definition items_ok :: "siphash \<Rightarrow> 'v np_simple_cache_table \<Rightarrow> nat \<Rightarrow> 'v np_cache_item list \<Rightarrow> bool" where
  "items_ok sh t i items \<longleftrightarrow> distinct (map ci_key items)
     \<and> (\<forall>item \<in> set items. \<exists>k. ci_key item = Some k \<and> length k = NP_FINGERPRINT_BYTES \<and> cache_bucket sh t k = Some i)"

definition cache_rep :: "siphash \<Rightarrow> 'v np_simple_cache_table \<Rightarrow> (u8 list \<rightharpoonup> 'v) \<Rightarrow> bool" where
  "cache_rep sh t m \<longleftrightarrow> (\<exists>nss. cache_nodes t nss \<and> (\<forall>i < length nss. items_ok sh t i (map snd (nss ! i)))
     \<and> (\<forall>k i. length k = NP_FINGERPRINT_BYTES \<longrightarrow> cache_bucket sh t k = Some i \<longrightarrow>
          m k = map_option ci_value (find (\<lambda>item. key_matches item k) (map snd (nss ! i)))))"

lemma bucket_loop_seg:
  assumes "seg (mem h) p ns None" "distinct (map fst ns)"
  shows "bucket_loop h key p = Some (find (\<lambda>item. key_matches item key) (map snd ns))"
  using assms
proof (induction ns arbitrary: p)
  case Nil
  then show ?case by (subst bucket_loop.simps) simp
next
  case (Cons ax ns)
  obtain a x where ax: "ax = (a, x)" by force
  have p: "p = Some a" using Cons.prems ax by simp
  obtain n where n: "mem h a = Some n" "nd_val n = x" "sll_next_select h a = Some (nd_flink n)"
      "seg (mem h) (nd_flink n) ns None"
    using sll_next_select_seg [of "mem h" a x ns h] Cons.prems ax by auto
  have ih: "bucket_loop h key (nd_flink n) = Some (find (\<lambda>item. key_matches item key) (map snd ns))"
    using Cons.prems(2) by (intro Cons.IH [OF n(4)]) simp
  show ?case by (subst bucket_loop.simps) (simp add: p n ih ax)
qed

lemma cache_bucket_range:
  assumes "cache_nodes t nss"
  obtains i where "cache_bucket sh t k = Some i" "i < length nss" "i < length (ct_bucket t)" "bucket_at t i = Some (ct_bucket t ! i)"
    "sll_nodes (ct_heap t) (ct_bucket t ! i) (nss ! i)"
proof -
  have z: "ct_bucket_size t \<noteq> 0" "0 < unat (ct_bucket_size t)" using assms by (auto simp: cache_nodes_def word_less_nat_alt)
  then obtain i where "cache_bucket sh t k = Some i" "i < unat (ct_bucket_size t)" by (simp add: cache_bucket_def Let_def)
  then show ?thesis using assms that [of i] by (auto simp: cache_nodes_def bucket_at_def list_all2_conv_all_nth)
qed

lemma bucket_take: "cache_bucket sh t (take NP_FINGERPRINT_BYTES k) = cache_bucket sh t k"
  by (simp add: cache_bucket_def)

lemma cache_lookup:
  assumes "cache_nodes t nss" "cache_bucket sh t k = Some i"
  shows "bucket_loop (ct_heap t) k (sl_first (ct_bucket t ! i)) = Some (find (\<lambda>item. key_matches item k) (map snd (nss ! i)))"
proof -
  obtain j where "cache_bucket sh t k = Some j" "sll_nodes (ct_heap t) (ct_bucket t ! j) (nss ! j)"
    using cache_bucket_range [OF assms(1)] by blast
  then show ?thesis using assms(2) bucket_loop_seg by (auto simp: sll_nodes_def)
qed

lemma cache_append:
  assumes "cache_nodes t nss" "i < length nss"
  obtains h l where "sll_append (ct_heap t) (ct_bucket t ! i) item = Some (h, l)"
    "cache_nodes (t\<lparr>ct_heap := h, ct_bucket := (ct_bucket t)[i := l]\<rparr>) (nss[i := nss ! i @ [(brk (ct_heap t), item)]])"
proof -
  let ?h = "ct_heap t" and ?ns = "nss ! i @ [(brk (ct_heap t), item)]"
  have len: "length nss = length (ct_bucket t)" and nodes: "sll_nodes ?h (ct_bucket t ! j) (nss ! j)" if "j < length nss" for j
    using assms that by (auto simp: cache_nodes_def list_all2_conv_all_nth)
  have fresh: "brk ?h \<notin> fst ` set (nss ! j)" if "j < length nss" for j using sll_nodes_fresh [OF nodes [OF that]] .
  obtain h l where h: "sll_append ?h (ct_bucket t ! i) item = Some (h, l)" "sll_nodes h l ?ns" "heap_frame ?h h (fst ` set (nss ! i))"
    using sll_append_nodes [OF nodes [OF assms(2)]] by blast
  have ok: "heap_ok h" using h(2) by (simp add: sll_nodes_def)
  have dis: "fst ` set (nss ! j) \<inter> fst ` set (nss ! k) = {}" if "j < length nss" "k < length nss" "j \<noteq> k" for j k
    using assms(1) that by (simp add: cache_nodes_def)
  have other: "sll_nodes h (ct_bucket t ! j) (nss ! j)" if "j < length nss" "j \<noteq> i" for j
    by (rule sll_nodes_frame [OF nodes [OF that(1)] h(3) _ ok]) (use dis [OF assms(2) that(1)] that(2) in auto)
  have "list_all2 (sll_nodes h) ((ct_bucket t)[i := l]) (nss[i := ?ns])"
    using len [OF assms(2)] other h(2) assms(2) by (auto simp: list_all2_conv_all_nth nth_list_update)
  moreover have "fst ` set (nss[i := ?ns] ! j) \<inter> fst ` set (nss[i := ?ns] ! k) = {}" if "j < length nss" "k < length nss" "j \<noteq> k" for j k
    using dis [OF that] fresh that assms(2) by (auto simp: nth_list_update)
  ultimately show ?thesis using that h(1) ok assms(1) by (simp add: cache_nodes_def)
qed

lemma key_matches_32: "length k = NP_FINGERPRINT_BYTES \<Longrightarrow> ci_key item = Some l \<Longrightarrow> length l = NP_FINGERPRINT_BYTES \<Longrightarrow>
  key_matches item k \<longleftrightarrow> l = k"
  by (simp add: key_matches_def)

lemma cache_rep_init: "heap_ok h \<Longrightarrow> 0 < sz \<Longrightarrow> cache_rep sh (np_cache_init h sz seed) (\<lambda>_. None)"
proof -
  assume h: "heap_ok h" "0 < sz"
  let ?t = "np_cache_init h sz seed" and ?nss = "replicate (unat sz) ([] :: (addr \<times> 'a np_cache_item) list)"
  have "cache_nodes ?t ?nss" using h by (simp add: cache_nodes_def np_cache_init_def sll_init_nodes list_all2_conv_all_nth)
  moreover have "find P (map snd (?nss ! i)) = None" if "cache_bucket sh ?t k = Some i" for P i and k :: "u8 list"
  proof -
    have "i < unat sz" using that h(2) by (auto simp: cache_bucket_def np_cache_init_def Let_def word_less_nat_alt split: if_splits)
    then show ?thesis by simp
  qed
  ultimately show ?thesis unfolding cache_rep_def by (intro exI [of _ ?nss]) (auto simp: items_ok_def)
qed

lemma cache_rep_get:
  assumes "cache_rep sh t m" "length k = NP_FINGERPRINT_BYTES"
  shows "np_simple_cache_get sh t (Some k) = Some (m k)"
proof -
  obtain nss where n: "cache_nodes t nss" "\<And>i. cache_bucket sh t k = Some i \<Longrightarrow>
      m k = map_option ci_value (find (\<lambda>item. key_matches item k) (map snd (nss ! i)))"
    using assms by (auto simp: cache_rep_def)
  obtain i where i: "cache_bucket sh t k = Some i" "bucket_at t i = Some (ct_bucket t ! i)" using cache_bucket_range [OF n(1)] .
  show ?thesis using n(2) [OF i(1)] cache_lookup [OF n(1) i(1)] i by (simp add: np_simple_cache_get_def)
qed

lemma cache_bucket_upd [simp]: "cache_bucket sh (t\<lparr>ct_heap := h, ct_bucket := b\<rparr>) k = cache_bucket sh t k"
  by (simp add: cache_bucket_def Let_def)

lemma find_append: "find P (xs @ ys) = (case find P xs of None \<Rightarrow> find P ys | Some x \<Rightarrow> Some x)"
  by (induction xs) auto

lemma cache_rep_add:
  assumes "cache_rep sh t m" "length k = NP_FINGERPRINT_BYTES"
  shows "m k \<noteq> None \<Longrightarrow> np_simple_cache_add sh now t (Some k) v = Some (False, t)"
    "m k = None \<Longrightarrow> \<exists>t'. np_simple_cache_add sh now t (Some k) v = Some (True, t') \<and> cache_rep sh t' (m(k \<mapsto> v))"
proof -
  obtain nss where n: "cache_nodes t nss" "\<And>i. i < length nss \<Longrightarrow> items_ok sh t i (map snd (nss ! i))"
      "\<And>k i. length k = NP_FINGERPRINT_BYTES \<Longrightarrow> cache_bucket sh t k = Some i \<Longrightarrow>
        m k = map_option ci_value (find (\<lambda>item. key_matches item k) (map snd (nss ! i)))"
    using assms(1) by (auto simp: cache_rep_def)
  obtain i where i: "cache_bucket sh t k = Some i" "i < length nss" "bucket_at t i = Some (ct_bucket t ! i)"
    using cache_bucket_range [OF n(1)] .
  note look = cache_lookup [OF n(1) i(1)] and mk = n(3) [OF assms(2) i(1)]
  show "np_simple_cache_add sh now t (Some k) v = Some (False, t)" if "m k \<noteq> None"
    using that look mk i assms(2) by (auto simp: np_simple_cache_add_def Let_def)
  assume none: "m k = None"
  then have none': "find (\<lambda>item. key_matches item k) (map snd (nss ! i)) = None" using mk by simp
  define item where "item = \<lparr>ci_key = Some k, ci_value = v, ci_insert_time = now\<rparr>"
  let ?nss = "nss[i := nss ! i @ [(brk (ct_heap t), item)]]"
  obtain h l where h: "sll_append (ct_heap t) (ct_bucket t ! i) item = Some (h, l)"
      "cache_nodes (t\<lparr>ct_heap := h, ct_bucket := (ct_bucket t)[i := l]\<rparr>) ?nss"
    using cache_append [OF n(1) i(2)] .
  let ?t = "t\<lparr>ct_heap := h, ct_bucket := (ct_bucket t)[i := l]\<rparr>"
  have add: "np_simple_cache_add sh now t (Some k) v = Some (True, ?t)"
    using look none' i assms(2) h(1) by (simp add: np_simple_cache_add_def Let_def item_def)
  have new: "Some k \<notin> set (map ci_key (map snd (nss ! i)))"
    using none' n(2) [OF i(2)] key_matches_32 [OF assms(2)] by (fastforce simp: find_None_iff items_ok_def)
  have ok: "items_ok sh ?t j (map snd (?nss ! j))" if "j < length ?nss" for j
  proof (cases "j = i")
    case True
    have "items_ok sh t i (map snd (nss ! i) @ [item])"
      using n(2) [OF i(2)] new i(1) assms(2) by (auto simp: items_ok_def item_def simp del: map_map)
    then show ?thesis using True i(2) by (simp add: items_ok_def)
  qed (use n(2) [of j] that in \<open>simp add: items_ok_def\<close>)
  have lookup: "(m(k \<mapsto> v)) k' = map_option ci_value (find (\<lambda>item. key_matches item k') (map snd (?nss ! j)))"
    if "length k' = NP_FINGERPRINT_BYTES" "cache_bucket sh t k' = Some j" for k' j
    using n(3) [OF that] none none' that i assms(2)
    by (auto simp: nth_list_update find_append key_matches_def item_def split: option.splits)
  have "cache_rep sh ?t (m(k \<mapsto> v))"
    unfolding cache_rep_def using h(2) ok lookup by (intro exI [of _ ?nss]) auto
  then show "\<exists>t'. np_simple_cache_add sh now t (Some k) v = Some (True, t') \<and> cache_rep sh t' (m(k \<mapsto> v))" using add by blast
qed

lemma destroy_loop_frees:
  assumes "list_all2 (sll_nodes h) ls nss"
    "\<forall>i < length nss. \<forall>j < length nss. i \<noteq> j \<longrightarrow> fst ` set (nss ! i) \<inter> fst ` set (nss ! j) = {}"
  shows "destroy_loop h ls = Some (h\<lparr>mem := (mem h) |` (- (\<Union>ns \<in> set nss. fst ` set ns))\<rparr>)"
  using assms
proof (induction ls arbitrary: h nss)
  case Nil
  then show ?case by (cases h) (simp add: restrict_map_def)
next
  case (Cons l ls)
  then obtain ns nss' where nss: "nss = ns # nss'" "sll_nodes h l ns" "list_all2 (sll_nodes h) ls nss'"
    by (auto simp: list_all2_Cons1)
  let ?h = "h\<lparr>mem := (mem h) |` (- fst ` set ns)\<rparr>"
  have dis: "fst ` set ns \<inter> fst ` set (nss' ! j) = {}" if "j < length nss'" for j
    using Cons.prems(2) nss(1) that by fastforce
  have ok: "heap_ok ?h" using nss(2) by (simp add: sll_nodes_def heap_ok_def restrict_map_def)
  have frame: "heap_frame h ?h (fst ` set ns)" by (simp add: heap_frame_def restrict_map_def)
  have "list_all2 (sll_nodes ?h) ls nss'"
  proof (rule list_all2_all_nthI)
    show "length ls = length nss'" using nss(3) by (rule list_all2_lengthD)
    fix j assume j: "j < length ls"
    then have "sll_nodes h (ls ! j) (nss' ! j)" "j < length nss'" using nss(3) by (simp_all add: list_all2_conv_all_nth)
    then show "sll_nodes ?h (ls ! j) (nss' ! j)" using sll_nodes_frame [OF _ frame _ ok] dis by blast
  qed
  moreover have "fst ` set (nss' ! i) \<inter> fst ` set (nss' ! j) = {}" if "i < length nss'" "j < length nss'" "i \<noteq> j" for i j
    using Cons.prems(2) [rule_format, of "Suc i" "Suc j"] nss(1) that by simp
  ultimately have "destroy_loop ?h ls = Some (?h\<lparr>mem := (mem ?h) |` (- (\<Union>ns \<in> set nss'. fst ` set ns))\<rparr>)"
    by (intro Cons.IH) blast+
  moreover have "sll_clear h l = Some (?h, l\<lparr>sl_first := None, sl_size := 0\<rparr>)"
    using nss(2) sll_clear_loop_seg [of h "sl_first l" ns] by (simp add: sll_clear_def sll_nodes_def)
  ultimately show ?case using nss(1) by (simp add: Int_commute)
qed

section \<open>The contract of a cache\<close>

text \<open>What a client may rely on: a cache is a map in which the first value of a key stays.\<close>

locale write_once_map =
  fixes rep :: "'c \<Rightarrow> ('k \<rightharpoonup> 'v) \<Rightarrow> bool"
    and valid :: "'k \<Rightarrow> bool"
    and get :: "'c \<Rightarrow> 'k \<Rightarrow> 'v option option"
    and add :: "'c \<Rightarrow> 'k \<Rightarrow> 'v \<Rightarrow> (bool \<times> 'c) option"
  assumes get_rep: "rep c m \<Longrightarrow> valid k \<Longrightarrow> get c k = Some (m k)"
    and add_old: "rep c m \<Longrightarrow> valid k \<Longrightarrow> m k \<noteq> None \<Longrightarrow> add c k v = Some (False, c)"
    and add_new: "rep c m \<Longrightarrow> valid k \<Longrightarrow> m k = None \<Longrightarrow> \<exists>c'. add c k v = Some (True, c') \<and> rep c' (m(k \<mapsto> v))"
begin

fun add_all :: "'c \<Rightarrow> ('k \<times> 'v) list \<Rightarrow> 'c option" where
  "add_all c [] = Some c"
| "add_all c ((k, v) # kvs) = do { (b, c1) \<leftarrow> add c k v; add_all c1 kvs }"

lemma add_all_rep:
  assumes "rep c m" "\<forall>(k, v) \<in> set kvs. valid k"
  shows "\<exists>c'. add_all c kvs = Some c' \<and> rep c' (map_of kvs ++ m)"
  using assms
proof (induction kvs arbitrary: c m)
  case (Cons kv kvs)
  obtain k v where kv: "kv = (k, v)" "valid k" using Cons.prems(2) by (cases kv) auto
  have rest: "\<forall>(k, v) \<in> set kvs. valid k" using Cons.prems(2) by simp
  show ?case
  proof (cases "m k")
    case None
    obtain c1 where c1: "add c k v = Some (True, c1)" "rep c1 (m(k \<mapsto> v))" using add_new [OF Cons.prems(1) kv(2) None] by blast
    have "map_of kvs ++ m(k \<mapsto> v) = map_of (kv # kvs) ++ m" using None kv by (auto simp: map_add_def fun_eq_iff split: option.splits)
    moreover obtain c' where "add_all c1 kvs = Some c'" "rep c' (map_of kvs ++ m(k \<mapsto> v))" using Cons.IH [OF c1(2) rest] by blast
    ultimately show ?thesis using c1(1) kv(1) by (intro exI [of _ c']) (simp del: map_of.simps map_add_upd)
  next
    case (Some w)
    have "map_of kvs ++ m = map_of (kv # kvs) ++ m" using Some kv by (auto simp: map_add_def fun_eq_iff split: option.splits)
    moreover obtain c' where "add_all c kvs = Some c'" "rep c' (map_of kvs ++ m)" using Cons.IH [OF Cons.prems(1) rest] by blast
    ultimately show ?thesis using add_old [OF Cons.prems(1) kv(2)] Some kv(1) by (intro exI [of _ c']) (simp del: map_of.simps map_add_upd)
  qed
qed simp

end

interpretation sc: write_once_map "cache_rep sh" "\<lambda>k. length k = NP_FINGERPRINT_BYTES" "\<lambda>t k. np_simple_cache_get sh t (Some k)"
  "\<lambda>t k v. np_simple_cache_add sh now t (Some k) v" for sh now
  by unfold_locales (auto simp: cache_rep_get cache_rep_add)

section \<open>Properties\<close>

text \<open>
  C11: the simple cache implements a map from fingerprints to values in which the first value of a key stays.
  A fresh table with at least one bucket is the empty map; looking a key up gives the value of the map; adding a
  key that is there changes nothing and answers false; adding a new key enters it and answers true. No operation
  follows a dangling pointer or leaves the array of buckets, whatever the hash function, and destroying the table
  frees every node of every bucket.
\<close>

theorem scache_refines:
  fixes h :: "'v np_cache_item sll_heap" and t :: "'v np_simple_cache_table"
  assumes "heap_ok h" "0 < sz" "cache_rep sh t m" "length k = NP_FINGERPRINT_BYTES"
  shows "cache_rep sh (np_cache_init h sz seed) (\<lambda>_. None)
    \<and> np_simple_cache_get sh t (Some k) = Some (m k)
    \<and> (if m k \<noteq> None then np_simple_cache_add sh now t (Some k) v = Some (False, t)
       else \<exists>t'. np_simple_cache_add sh now t (Some k) v = Some (True, t') \<and> cache_rep sh t' (m(k \<mapsto> v)))
    \<and> (\<exists>nss h'. cache_nodes t nss \<and> np_cache_destroy t = Some h'
         \<and> mem h' = mem (ct_heap t) |` (- (\<Union>ns \<in> set nss. fst ` set ns)))"
proof (intro conjI)
  show "cache_rep sh (np_cache_init h sz seed) (\<lambda>_. None)" by (rule cache_rep_init [OF assms(1,2)])
  show "np_simple_cache_get sh t (Some k) = Some (m k)" by (rule cache_rep_get [OF assms(3,4)])
  show "if m k \<noteq> None then np_simple_cache_add sh now t (Some k) v = Some (False, t)
      else \<exists>t'. np_simple_cache_add sh now t (Some k) v = Some (True, t') \<and> cache_rep sh t' (m(k \<mapsto> v))"
    using cache_rep_add [OF assms(3,4)] by simp
  obtain nss where n: "cache_nodes t nss" using assms(3) by (auto simp: cache_rep_def)
  then have "np_cache_destroy t = Some ((ct_heap t)\<lparr>mem := mem (ct_heap t) |` (- (\<Union>ns \<in> set nss. fst ` set ns))\<rparr>)"
    unfolding np_cache_destroy_def by (intro destroy_loop_frees) (simp_all add: cache_nodes_def)
  then show "\<exists>nss h'. cache_nodes t nss \<and> np_cache_destroy t = Some h'
      \<and> mem h' = mem (ct_heap t) |` (- (\<Union>ns \<in> set nss. fst ` set ns))" using n by fastforce
qed

theorem scache_refines_witness:
  "\<exists>t'. np_simple_cache_add (\<lambda>k _. k) 5 (np_cache_init \<lparr>mem = (\<lambda>_. None), brk = 0\<rparr> 127 []) (Some (replicate 32 7)) True = Some (True, t')
     \<and> cache_rep (\<lambda>k _. k) t' [replicate 32 7 \<mapsto> True]"
proof -
  have "cache_rep (\<lambda>k _. k) (np_cache_init \<lparr>mem = (\<lambda>_. None), brk = 0\<rparr> 127 []) (\<lambda>_. None :: bool option)"
    by (rule cache_rep_init) (simp_all add: heap_ok_def)
  then show ?thesis
    using scache_refines [of "\<lparr>mem = (\<lambda>_. None), brk = 0\<rparr>" 127 "\<lambda>k _. k"
        "np_cache_init \<lparr>mem = (\<lambda>_. None), brk = 0\<rparr> 127 []" "\<lambda>_. None" "replicate 32 7" "[]" 5 True]
    by (simp add: heap_ok_def NP_FINGERPRINT_BYTES_def)
qed

text \<open>
  Adding any list of keys with values to a cache never fails, and afterwards every key looks up the value it
  had before if it had one, and otherwise the first value the list gives it.
\<close>

lemma scache_first_value_stays:
  assumes "cache_rep sh t m" "\<forall>(k, v) \<in> set kvs. length k = NP_FINGERPRINT_BYTES" "length k = NP_FINGERPRINT_BYTES"
  shows "\<exists>t'. sc.add_all sh now t kvs = Some t'
    \<and> np_simple_cache_get sh t' (Some k) = Some (case m k of None \<Rightarrow> map_of kvs k | Some v \<Rightarrow> Some v)"
proof -
  obtain t' where t': "sc.add_all sh now t kvs = Some t'" "cache_rep sh t' (map_of kvs ++ m)"
    using sc.add_all_rep [OF assms(1,2), of now] by blast
  then show ?thesis using sc.get_rep [OF t'(2) assms(3)] by (auto simp: map_add_def)
qed

end
