(* ===== verification/Np_Skiplist.thy ===== *)
theory Np_Skiplist
  imports Np_Bytes Np_Dhkey
begin

text \<open>
  The skip list of \<^verbatim>\<open>src/util/np_skiplist.c\<close> at the level of pointers. Nodes live in a store; the root of the list,
  a part of its struct in the source, is the node at address \<open>0\<close>, and \<^verbatim>\<open>malloc\<close> returns fresh addresses. The
  random number of \<^verbatim>\<open>__pick_height\<close> and the comparison are arguments. Following a pointer to no node, an index
  outside of an array of successors and a loop that does not end are \<open>None\<close>.
\<close>

section \<open>Data\<close>

type_synonym skip_addr = nat

record 'a skip_node =
  sn_item :: "'a option"
  sn_sentinel :: bool
  sn_height :: u8
  sn_nodes :: "skip_addr option list option"

record 'a np_skiplist =
  sk_mem :: "skip_addr \<rightharpoonup> 'a skip_node"
  sk_brk :: skip_addr
  sk_num_elements :: u64

abbreviation (input) root :: skip_addr where
  "root \<equiv> 0"

section \<open>Heights\<close>

function max_height :: "u32 \<Rightarrow> u8" where
  "max_height elements = (if elements > 0 then max_height (drop_bit 1 elements) + 1 else 1)"
  by pat_completeness auto
termination
proof (relation "measure unat")
  fix elements :: u32
  assume "0 < elements"
  then have "0 < unat elements" by (simp add: word_less_nat_alt)
  then show "(drop_bit 1 elements, elements) \<in> measure unat"
    by (simp add: unat_drop_bit_eq drop_bit_nat_def del: drop_bit_numeral_bit0 drop_bit_numeral_bit1)
qed simp

declare max_height.simps [simp del]

text \<open>The loop over the bits of the random number; \<open>k\<close> counts, and \<^verbatim>\<open>m\<close> is the bit \<open>k\<close>.\<close>

function low_ones :: "u32 \<Rightarrow> nat \<Rightarrow> nat" where
  "low_ones z k = (if k < 32 \<and> bit z k then low_ones z (Suc k) else k)"
  by pat_completeness auto
termination by (relation "measure (\<lambda>(z, k). 32 - k)") auto

declare low_ones.simps [simp del]

definition pick_height :: "u32 \<Rightarrow> u32 \<Rightarrow> u8" where
  "pick_height z elements =
     (let k = low_ones z 0 in if k > unat (max_height elements) then max_height elements else of_nat k)"

section \<open>Operations\<close>

definition np_skiplist_init :: "'a np_skiplist" where
  "np_skiplist_init =
     \<lparr>sk_mem = [root \<mapsto> \<lparr>sn_item = None, sn_sentinel = True, sn_height = 0, sn_nodes = None\<rparr>], sk_brk = 1, sk_num_elements = 0\<rparr>"

definition np_skiplist_size :: "'a np_skiplist \<Rightarrow> u64" where
  "np_skiplist_size l = sk_num_elements l"

text \<open>\<^verbatim>\<open>int8_t r = sentinel->_height\<close>: the number of levels to search, none if the value is negative.\<close>

definition levels :: "u8 \<Rightarrow> nat" where
  "levels h = (if h < 128 then unat h else 0)"

definition next_at :: "(skip_addr \<rightharpoonup> 'a skip_node) \<Rightarrow> skip_addr \<Rightarrow> nat \<Rightarrow> skip_addr option option" where
  "next_at m u j = do { n \<leftarrow> m u; (case sn_nodes n of None \<Rightarrow> Some None | Some nx \<Rightarrow> rd nx j) }"

text \<open>\<^verbatim>\<open>u->_nodes[j]\<close> without the test for an array that is NULL.\<close>

definition nodes_at :: "(skip_addr \<rightharpoonup> 'a skip_node) \<Rightarrow> skip_addr \<Rightarrow> nat \<Rightarrow> skip_addr option option" where
  "nodes_at m u j = do { n \<leftarrow> m u; nx \<leftarrow> sn_nodes n; rd nx j }"

text \<open>The inner loop: going right on level \<open>r - 1\<close> while the next item is smaller.\<close>

partial_function (option) go_right ::
  "('a \<Rightarrow> int) \<Rightarrow> (skip_addr \<rightharpoonup> 'a skip_node) \<Rightarrow> nat \<Rightarrow> skip_addr \<Rightarrow> int \<Rightarrow> (skip_addr \<times> int) option" where
  "go_right cmp m r u c =
     do {
       p \<leftarrow> next_at m u (r - 1);
       (case p of
          None \<Rightarrow> Some (u, c)
        | Some v \<Rightarrow> do {
            n \<leftarrow> m v;
            x \<leftarrow> sn_item n;
            (if cmp x < 0 then go_right cmp m r v (cmp x) else Some (u, cmp x))
          })
     }"

text \<open>The shortcut: going down at least once, and on while the next pointer is the same.\<close>

fun go_down :: "(skip_addr \<rightharpoonup> 'a skip_node) \<Rightarrow> skip_addr \<Rightarrow> nat \<Rightarrow> nat option" where
  "go_down m u 0 = Some 0"
| "go_down m u (Suc 0) = Some 0"
| "go_down m u (Suc (Suc r)) =
     do {
       below \<leftarrow> nodes_at m u r;
       here \<leftarrow> nodes_at m u (Suc r);
       (if below = here then go_down m u (Suc r) else Some (Suc r))
     }"

partial_function (option) find_loop ::
  "('a \<Rightarrow> int) \<Rightarrow> (skip_addr \<rightharpoonup> 'a skip_node) \<Rightarrow> nat \<Rightarrow> skip_addr \<Rightarrow> int \<Rightarrow> (skip_addr \<times> int) option" where
  "find_loop cmp m r u c =
     (if r > 0
      then do {
        (u1, c1) \<leftarrow> go_right cmp m r u c;
        r1 \<leftarrow> go_down m u1 r;
        find_loop cmp m r1 u1 c1
      }
      else Some (u, c))"

definition np_skiplist_find :: "('a \<Rightarrow> 'a \<Rightarrow> int) \<Rightarrow> 'a np_skiplist \<Rightarrow> 'a \<Rightarrow> (bool \<times> 'a option) option" where
  "np_skiplist_find compare l item =
     do {
       let m = sk_mem l;
       sentinel \<leftarrow> m root;
       (u, c) \<leftarrow> find_loop (\<lambda>x. compare x item) m (levels (sn_height sentinel)) root (- 1);
       n \<leftarrow> m u;
       (if 0 \<le> c \<and> sn_nodes n \<noteq> None
        then do {
          p \<leftarrow> nodes_at m u 0;
          found \<leftarrow> (case p of Some v \<Rightarrow> map_option sn_item (m v) | None \<Rightarrow> Some (sn_item n));
          Some (c = 0, found)
        }
        else Some (False, Some item))
     }"

text \<open>The search of \<^verbatim>\<open>np_skiplist_add\<close>: \<open>None\<close> inside is an item that exists already.\<close>

fun push_down :: "(skip_addr \<rightharpoonup> 'a skip_node) \<Rightarrow> skip_addr \<Rightarrow> nat \<Rightarrow> skip_addr option list \<Rightarrow> (nat \<times> skip_addr option list) option" where
  "push_down m u 0 stack = Some (0, stack)"
| "push_down m u (Suc 0) stack = do { stack1 \<leftarrow> wr stack 0 (Some u); Some (0, stack1) }"
| "push_down m u (Suc (Suc r)) stack =
     do {
       stack1 \<leftarrow> wr stack (Suc r) (Some u);
       below \<leftarrow> nodes_at m u r;
       here \<leftarrow> nodes_at m u (Suc r);
       (if below = here then push_down m u (Suc r) stack1 else Some (Suc r, stack1))
     }"

partial_function (option) add_loop ::
  "('a \<Rightarrow> int) \<Rightarrow> (skip_addr \<rightharpoonup> 'a skip_node) \<Rightarrow> nat \<Rightarrow> skip_addr \<Rightarrow> skip_addr option list
    \<Rightarrow> skip_addr option list option option" where
  "add_loop cmp m r u stack =
     (if r > 0
      then do {
        (u1, c) \<leftarrow> go_right cmp m r u 0;
        p \<leftarrow> next_at m u1 (r - 1);
        (if p \<noteq> None \<and> c = 0 then Some None
         else do {
           (r1, stack1) \<leftarrow> push_down m u1 r stack;
           add_loop cmp m r1 u1 stack1
         })
      }
      else Some (Some stack))"

text \<open>The root grows to the height of the new node, and is its predecessor on the new levels.\<close>

definition grow_root :: "u8 \<Rightarrow> 'a skip_node \<Rightarrow> skip_addr option list \<Rightarrow> ('a skip_node \<times> skip_addr option list) option" where
  "grow_root k sentinel stack =
     (if sn_height sentinel < k
      then let old = (case sn_nodes sentinel of None \<Rightarrow> [] | Some nx \<Rightarrow> nx); h = unat (sn_height sentinel); d = unat k - h
           in if h \<le> length old \<and> unat k \<le> length stack
              then Some (sentinel\<lparr>sn_height := k, sn_nodes := Some (take h old @ replicate d None)\<rparr>,
                take h stack @ replicate d (Some root) @ drop (unat k) stack)
              else None
      else Some (sentinel, stack))"

definition set_next :: "skip_addr \<Rightarrow> nat \<Rightarrow> skip_addr option \<Rightarrow> (skip_addr \<rightharpoonup> 'a skip_node) \<Rightarrow> (skip_addr \<rightharpoonup> 'a skip_node) option" where
  "set_next u j p m =
     do { n \<leftarrow> m u; nx \<leftarrow> sn_nodes n; nx1 \<leftarrow> wr nx j p; Some (m(u \<mapsto> n\<lparr>sn_nodes := Some nx1\<rparr>)) }"

definition link_level :: "skip_addr \<Rightarrow> skip_addr option list \<Rightarrow> nat \<Rightarrow> (skip_addr \<rightharpoonup> 'a skip_node) \<Rightarrow> (skip_addr \<rightharpoonup> 'a skip_node) option" where
  "link_level new stack j m =
     do {
       s \<leftarrow> rd stack j;
       u \<leftarrow> s;
       p \<leftarrow> next_at m u j;
       m1 \<leftarrow> set_next new j p m;
       set_next u j (Some new) m1
     }"

definition np_skiplist_add ::
  "('a \<Rightarrow> 'a \<Rightarrow> int) \<Rightarrow> u32 \<Rightarrow> 'a np_skiplist \<Rightarrow> 'a \<Rightarrow> (bool \<times> 'a np_skiplist) option" where
  "np_skiplist_add compare z l item =
     do {
       let m = sk_mem l;
       sentinel \<leftarrow> m root;
       let k = pick_height z (ucast (sk_num_elements l)) + 1;
       let r = levels (sn_height sentinel);
       old \<leftarrow> (case sn_nodes sentinel of None \<Rightarrow> if r = 0 then Some [] else None
              | Some nx \<Rightarrow> if r \<le> length nx then Some (take r nx) else None);
       let stack = old @ replicate (unat k - r) None;
       found \<leftarrow> add_loop (\<lambda>x. compare x item) m r root stack;
       (case found of
          None \<Rightarrow> Some (False, l)
        | Some stack1 \<Rightarrow> do {
            let new = sk_brk l;
            (sentinel1, stack2) \<leftarrow> grow_root k sentinel stack1;
            let m1 = m(root \<mapsto> sentinel1,
              new \<mapsto> \<lparr>sn_item = Some item, sn_sentinel = False, sn_height = k, sn_nodes = Some (replicate (unat k) None)\<rparr>);
            m2 \<leftarrow> for_each (link_level new stack2) [0..<unat k] m1;
            Some (True, l\<lparr>sk_mem := m2, sk_brk := Suc new, sk_num_elements := sk_num_elements l + 1\<rparr>)
          })
     }"

text \<open>\<^verbatim>\<open>np_skiplist_remove\<close> unlinks on the way down; the result is the store and the last node it has unlinked.\<close>

partial_function (option) unlink_down ::
  "(skip_addr \<rightharpoonup> 'a skip_node) \<Rightarrow> nat \<Rightarrow> skip_addr \<Rightarrow> int \<Rightarrow> skip_addr option
    \<Rightarrow> ((skip_addr \<rightharpoonup> 'a skip_node) \<times> nat \<times> skip_addr option) option" where
  "unlink_down m r u c gone =
     do {
       p \<leftarrow> next_at m u (r - 1);
       (m1, gone1) \<leftarrow> (case p of
          Some v \<Rightarrow> if c = 0 then do { q \<leftarrow> nodes_at m v (r - 1); m1 \<leftarrow> set_next u (r - 1) q m; Some (m1, Some v) } else Some (m, gone)
        | None \<Rightarrow> Some (m, gone));
       (if r - 1 > 0
        then do {
          below \<leftarrow> nodes_at m1 u (r - 2);
          here \<leftarrow> nodes_at m1 u (r - 1);
          (if below = here then unlink_down m1 (r - 1) u c gone1 else Some (m1, r - 1, gone1))
        }
        else Some (m1, 0, gone1))
     }"

partial_function (option) remove_loop ::
  "('a \<Rightarrow> int) \<Rightarrow> (skip_addr \<rightharpoonup> 'a skip_node) \<Rightarrow> nat \<Rightarrow> skip_addr \<Rightarrow> int \<Rightarrow> skip_addr option
    \<Rightarrow> ((skip_addr \<rightharpoonup> 'a skip_node) \<times> skip_addr option) option" where
  "remove_loop cmp m r u c gone =
     (if r > 0
      then do {
        (u1, c1) \<leftarrow> go_right cmp m r u c;
        (m1, r1, gone1) \<leftarrow> unlink_down m r u1 c1 gone;
        remove_loop cmp m1 r1 u1 c1 gone1
      }
      else Some (m, gone))"

definition np_skiplist_remove :: "('a \<Rightarrow> 'a \<Rightarrow> int) \<Rightarrow> 'a np_skiplist \<Rightarrow> 'a \<Rightarrow> (bool \<times> 'a np_skiplist) option" where
  "np_skiplist_remove compare l item =
     do {
       sentinel \<leftarrow> sk_mem l root;
       (m, gone) \<leftarrow> remove_loop (\<lambda>x. compare x item) (sk_mem l) (levels (sn_height sentinel)) root (- 1) None;
       (case gone of
          None \<Rightarrow> Some (False, l\<lparr>sk_mem := m\<rparr>)
        | Some v \<Rightarrow> Some (True, l\<lparr>sk_mem := m(v := None), sk_num_elements := sk_num_elements l - 1\<rparr>))
     }"

partial_function (option) destroy_nodes ::
  "(skip_addr \<rightharpoonup> 'a skip_node) \<Rightarrow> u64 \<Rightarrow> skip_addr option \<Rightarrow> (skip_addr \<rightharpoonup> 'a skip_node) option" where
  "destroy_nodes m left u =
     (if left > 0
      then do {
        tmp \<leftarrow> u;
        n \<leftarrow> m tmp;
        p \<leftarrow> nodes_at m tmp 0;
        (if \<not> sn_sentinel n then destroy_nodes (m(tmp := None)) (left - 1) p else destroy_nodes m left p)
      }
      else Some m)"

text \<open>The array of the root is freed last, and no pointer of it can be read any more.\<close>

definition np_skiplist_destroy :: "'a np_skiplist \<Rightarrow> 'a np_skiplist option" where
  "np_skiplist_destroy l =
     do {
       m \<leftarrow> destroy_nodes (sk_mem l) (sk_num_elements l) (Some root);
       sentinel \<leftarrow> m root;
       Some (l\<lparr>sk_mem := m(root \<mapsto> sentinel\<lparr>sn_nodes := None\<rparr>), sk_num_elements := 0\<rparr>)
     }"

text \<open>
  \<^verbatim>\<open>np_skiplist_map\<close> calls the callback of the query, with its state, on the node at which the search ends - the root has no
  item - and on the nodes behind it until the callback stops the walk; \<^verbatim>\<open>np_skiplist_reduce\<close> folds the results.
\<close>

partial_function (option) map_loop ::
  "('a option \<Rightarrow> 's \<Rightarrow> bool \<times> 's) \<Rightarrow> (skip_addr \<rightharpoonup> 'a skip_node) \<Rightarrow> bool \<times> 's \<Rightarrow> skip_addr option \<Rightarrow> 's option" where
  "map_loop mp m bs u =
     (case u of
        None \<Rightarrow> Some (snd bs)
      | Some v \<Rightarrow>
          if fst bs
          then do {
            n \<leftarrow> m v;
            (case sn_nodes n of
               None \<Rightarrow> Some (snd bs)
             | Some nx \<Rightarrow> do {
                 p \<leftarrow> rd nx 0;
                 x \<leftarrow> (case p of None \<Rightarrow> Some None | Some w \<Rightarrow> map_option sn_item (m w));
                 map_loop mp m (if x = None then (False, snd bs) else mp x (snd bs)) p
               })
          }
          else Some (snd bs))"

definition np_skiplist_map ::
  "('a \<Rightarrow> int) \<Rightarrow> ('a option \<Rightarrow> 's \<Rightarrow> bool \<times> 's) \<Rightarrow> 'a np_skiplist \<Rightarrow> 's \<Rightarrow> 's option" where
  "np_skiplist_map cmp mp l s =
     do {
       sentinel \<leftarrow> sk_mem l root;
       (u, _) \<leftarrow> find_loop cmp (sk_mem l) (levels (sn_height sentinel)) root (- 1);
       n \<leftarrow> sk_mem l u;
       map_loop mp (sk_mem l) (mp (sn_item n) s) (Some u)
     }"

definition np_skiplist_reduce :: "('b \<Rightarrow> 's \<Rightarrow> 's) \<Rightarrow> 'b list \<Rightarrow> 's \<Rightarrow> 's" where
  "np_skiplist_reduce reduce results s = fold reduce results s"

section \<open>The list a store represents\<close>

text \<open>
  An element is an address, an item and a height. \<open>V j e\<close> says whether the element \<open>e\<close> is linked on level \<open>j\<close>, and
  the pointer on level \<open>j\<close> leads to the first later element that is.
\<close>

type_synonym 'a elem = "skip_addr \<times> 'a \<times> nat"

type_synonym 'a linked = "nat \<Rightarrow> 'a elem \<Rightarrow> bool"

definition item_of :: "'a elem \<Rightarrow> 'a" where "item_of e = fst (snd e)"
definition height_of :: "'a elem \<Rightarrow> nat" where "height_of e = snd (snd e)"

lemma elem_simps [simp]: "item_of (a, x, h) = x" "height_of (a, x, h) = h"
  by (simp_all add: item_of_def height_of_def)

definition succ_at :: "'a linked \<Rightarrow> 'a elem list \<Rightarrow> nat \<Rightarrow> skip_addr option" where
  "succ_at V ns j = map_option fst (find (V j) ns)"

definition node_of :: "'a linked \<Rightarrow> 'a \<Rightarrow> nat \<Rightarrow> 'a elem list \<Rightarrow> 'a skip_node" where
  "node_of V x h ns = \<lparr>sn_item = Some x, sn_sentinel = False, sn_height = of_nat h, sn_nodes = Some (map (succ_at V ns) [0..<h])\<rparr>"

definition root_of :: "'a linked \<Rightarrow> nat \<Rightarrow> 'a elem list \<Rightarrow> 'a skip_node" where
  "root_of V H ns = \<lparr>sn_item = None, sn_sentinel = True, sn_height = of_nat H,
     sn_nodes = (if H = 0 then None else Some (map (succ_at V ns) [0..<H]))\<rparr>"

fun chain :: "'a linked \<Rightarrow> (skip_addr \<rightharpoonup> 'a skip_node) \<Rightarrow> 'a elem list \<Rightarrow> bool" where
  "chain V m [] \<longleftrightarrow> True"
| "chain V m ((a, x, h) # ns) \<longleftrightarrow> m a = Some (node_of V x h ns) \<and> chain V m ns"

text \<open>The cursor of a search stands on the last element of what it has passed.\<close>

definition cur :: "'a elem list \<Rightarrow> skip_addr" where
  "cur pre = (if pre = [] then root else fst (last pre))"

definition cur_height :: "nat \<Rightarrow> 'a elem list \<Rightarrow> nat" where
  "cur_height H pre = (if pre = [] then H else height_of (last pre))"

definition linked_ok :: "'a linked \<Rightarrow> 'a elem list \<Rightarrow> bool" where
  "linked_ok V ns \<longleftrightarrow> (\<forall>e \<in> set ns. \<forall>j. V (Suc j) e \<longrightarrow> V j e)"

definition skip_store :: "'a linked \<Rightarrow> (skip_addr \<rightharpoonup> 'a skip_node) \<Rightarrow> nat \<Rightarrow> 'a elem list \<Rightarrow> bool" where
  "skip_store V m H ns \<longleftrightarrow> m root = Some (root_of V H ns) \<and> chain V m ns \<and> distinct (root # map fst ns)
     \<and> (\<forall>e \<in> set ns. 0 < height_of e \<and> height_of e \<le> H) \<and> H < 128
     \<and> (\<forall>e \<in> set ns. \<forall>j. V j e \<longrightarrow> j < height_of e) \<and> linked_ok V ns"

lemma linked_below: "linked_ok V ns \<Longrightarrow> 0 < r \<Longrightarrow> \<forall>e \<in> set ns. V r e \<longrightarrow> V (r - 1) e"
proof -
  assume l: "linked_ok V ns" and "0 < r"
  then obtain q where "r = Suc q" by (cases r) simp
  moreover have "\<forall>e \<in> set ns. V (Suc q) e \<longrightarrow> V q e" using l unfolding linked_ok_def by blast
  ultimately show ?thesis by (simp only: diff_Suc_1)
qed

lemma chain_append: "chain V m (pre @ (a, x, h) # post) \<Longrightarrow> m a = Some (node_of V x h post)"
  by (induction pre) auto

lemma cursor_node:
  assumes "skip_store V m H (pre @ rest)"
  obtains n where "m (cur pre) = Some n" "0 < cur_height H pre \<Longrightarrow> sn_nodes n = Some (map (succ_at V rest) [0..<cur_height H pre])"
proof (cases pre rule: rev_cases)
  case Nil
  then show ?thesis using assms that by (auto simp: skip_store_def cur_def cur_height_def root_of_def)
next
  case (snoc ys e)
  obtain a x h where "e = (a, x, h)" by (cases e)
  then show ?thesis using assms snoc chain_append [of V m ys a x h rest] that
    by (simp add: skip_store_def cur_def cur_height_def node_of_def)
qed

lemma cursor_at:
  assumes "skip_store V m H (pre @ rest)" "j < cur_height H pre"
  shows "next_at m (cur pre) j = Some (succ_at V rest j)" "nodes_at m (cur pre) j = Some (succ_at V rest j)"
proof -
  obtain n where "m (cur pre) = Some n" "sn_nodes n = Some (map (succ_at V rest) [0..<cur_height H pre])"
    by (rule cursor_node [OF assms(1)]) (use assms(2) in auto)
  then show "next_at m (cur pre) j = Some (succ_at V rest j)" "nodes_at m (cur pre) j = Some (succ_at V rest j)"
    using assms(2) by (auto simp: next_at_def nodes_at_def rd_def)
qed

lemma find_splits:
  assumes "find P xs = Some e"
  obtains ys zs where "xs = ys @ e # zs" "P e" "\<forall>y \<in> set ys. \<not> P y"
  using assms
proof (induction xs arbitrary: thesis)
  case (Cons x xs)
  show ?case
  proof (cases "P x")
    case True
    then show ?thesis using Cons.prems(1) [of "[]" xs] Cons.prems(2) by simp
  next
    case False
    then obtain ys zs where "xs = ys @ e # zs" "P e" "\<forall>y \<in> set ys. \<not> P y" using Cons.IH Cons.prems(2) by auto
    then show ?thesis using Cons.prems(1) [of "x # ys" zs] False by simp
  qed
qed simp

text \<open>Items that compare smaller come first.\<close>

definition downward :: "('a \<Rightarrow> int) \<Rightarrow> 'a elem list \<Rightarrow> bool" where
  "downward cmp ns \<longleftrightarrow> sorted_wrt (\<lambda>e f. cmp (item_of f) < 0 \<longrightarrow> cmp (item_of e) < 0) ns"

lemma go_right_moves:
  assumes "skip_store V m H (pre @ rest)" "downward cmp (pre @ rest)" "0 < r" "r \<le> cur_height H pre"
  shows "\<exists>ms rest' c'. rest = ms @ rest' \<and> go_right cmp m r (cur pre) c = Some (cur (pre @ ms), c')
    \<and> r \<le> cur_height H (pre @ ms) \<and> (\<forall>e \<in> set ms. cmp (item_of e) < 0)
    \<and> (case find (V (r - 1)) rest' of None \<Rightarrow> ms = [] \<and> c' = c \<or> c' < 0 | Some e \<Rightarrow> c' = cmp (item_of e) \<and> 0 \<le> c')"
  using assms
proof (induction "length rest" arbitrary: pre rest c rule: less_induct)
  case less
  have here: "next_at m (cur pre) (r - 1) = Some (succ_at V rest (r - 1))"
    by (rule cursor_at(1) [OF less.prems(1)]) (use less.prems(3,4) in linarith)
  show ?case
  proof (cases "find (V (r - 1)) rest")
    case None
    then have "go_right cmp m r (cur pre) c = Some (cur pre, c)"
      using here by (subst go_right.simps) (simp add: succ_at_def)
    then show ?thesis using None less.prems(4) by (intro exI [of _ "[]"] exI [of _ rest] exI [of _ c]) simp
  next
    case (Some e)
    obtain a x h where e: "e = (a, x, h)" by (cases e)
    obtain ys zs where split: "rest = ys @ e # zs" "V (r - 1) e" by (rule find_splits [OF Some])
    have ma: "m a = Some (node_of V x h zs)"
      using less.prems(1) split(1) e chain_append [of V m "pre @ ys" a x h zs] by (simp add: skip_store_def)
    have step: "go_right cmp m r (cur pre) c = (if cmp x < 0 then go_right cmp m r a (cmp x) else Some (cur pre, cmp x))"
      using here Some e ma by (subst go_right.simps) (simp add: succ_at_def node_of_def)
    show ?thesis
    proof (cases "cmp x < 0")
      case True
      let ?pre = "pre @ ys @ [e]"
      have "r - 1 < h" using less.prems(1) split e by (auto simp: skip_store_def)
      then have h: "r \<le> cur_height H ?pre" using e by (simp add: cur_height_def)
      have store: "skip_store V m H (?pre @ zs)" "downward cmp (?pre @ zs)" using less.prems(1,2) split(1) by simp_all
      obtain ms rest' c' where ih: "zs = ms @ rest'" "go_right cmp m r (cur ?pre) (cmp x) = Some (cur (?pre @ ms), c')"
          "r \<le> cur_height H (?pre @ ms)" "\<forall>e \<in> set ms. cmp (item_of e) < 0"
          "case find (V (r - 1)) rest' of None \<Rightarrow> ms = [] \<and> c' = cmp x \<or> c' < 0 | Some e \<Rightarrow> c' = cmp (item_of e) \<and> 0 \<le> c'"
        using less.hyps [of zs ?pre "cmp x"] store h less.prems(3) split(1) by auto
      have "\<forall>e \<in> set ys. cmp (item_of e) < 0"
        using less.prems(2) split(1) e True by (auto simp: downward_def sorted_wrt_append)
      then have small: "\<forall>e \<in> set (ys @ e # ms). cmp (item_of e) < 0" using ih(4) e True by auto
      have "cur ?pre = a" using e by (simp add: cur_def)
      then show ?thesis using step True ih small split(1)
        by (intro exI [of _ "ys @ e # ms"] exI [of _ rest'] exI [of _ c']) (auto split: option.splits)
    next
      case False
      then show ?thesis using step Some e less.prems(4) by (intro exI [of _ "[]"] exI [of _ rest] exI [of _ "cmp x"]) simp
    qed
  qed
qed

lemma succ_at_eq:
  assumes "distinct (map fst rest)" "succ_at V rest i = succ_at V rest j"
  shows "find (V i) rest = find (V j) rest"
proof -
  have "find (V k) rest = Some e \<Longrightarrow> e \<in> set rest" for k e by (auto simp: find_Some_iff)
  then show ?thesis using assms
    by (cases "find (V i) rest"; cases "find (V j) rest") (auto simp: succ_at_def distinct_map dest: inj_onD)
qed

lemma go_down_moves:
  assumes "skip_store V m H (pre @ rest)" "0 < r" "r \<le> cur_height H pre"
  shows "\<exists>r1 < r. go_down m (cur pre) r = Some r1 \<and> find (V r1) rest = find (V (r - 1)) rest"
  using assms(2,3)
proof (induction r rule: nat_less_induct)
  case (1 r)
  have d: "distinct (map fst rest)" using assms(1) by (simp add: skip_store_def)
  show ?case
  proof (cases "r = 1")
    case False
    define q where "q = r - 2"
    have q: "r = Suc (Suc q)" using False 1(2) by (simp add: q_def)
    have p: "nodes_at m (cur pre) q = Some (succ_at V rest q)" "nodes_at m (cur pre) (Suc q) = Some (succ_at V rest (Suc q))"
      using cursor_at(2) [OF assms(1)] 1(3) q by simp_all
    show ?thesis
    proof (cases "succ_at V rest q = succ_at V rest (Suc q)")
      case True
      obtain r1 where "r1 < Suc q" "go_down m (cur pre) (Suc q) = Some r1" "find (V r1) rest = find (V q) rest"
        using 1(1) [rule_format, of "Suc q"] 1(3) q by auto
      then show ?thesis using True p q succ_at_eq [OF d True] by (intro exI [of _ r1]) simp
    qed (use p q in simp)
  qed simp
qed

text \<open>What is known of the rest when \<open>r\<close> levels are left: the next element above does not compare smaller.\<close>

definition above :: "'a linked \<Rightarrow> ('a \<Rightarrow> int) \<Rightarrow> nat \<Rightarrow> 'a elem list \<Rightarrow> int \<Rightarrow> bool" where
  "above V cmp r rest c \<longleftrightarrow> (case find (V r) rest of None \<Rightarrow> c < 0 | Some e \<Rightarrow> c = cmp (item_of e) \<and> 0 \<le> c)"

lemma find_mono: "find P xs \<noteq> None \<Longrightarrow> \<forall>x \<in> set xs. P x \<longrightarrow> Q x \<Longrightarrow> find Q xs \<noteq> None"
  by (auto simp: find_None_iff)

lemma level_moves:
  assumes "skip_store V m H (pre @ rest)" "downward cmp (pre @ rest)" "0 < r" "r \<le> cur_height H pre" "above V cmp r rest c"
  obtains ms rest' c' where "rest = ms @ rest'" "go_right cmp m r (cur pre) c = Some (cur (pre @ ms), c')"
    "r \<le> cur_height H (pre @ ms)" "\<forall>e \<in> set ms. cmp (item_of e) < 0" "above V cmp (r - 1) rest' c'"
proof -
  obtain ms rest' c' where g: "rest = ms @ rest'" "go_right cmp m r (cur pre) c = Some (cur (pre @ ms), c')"
      "r \<le> cur_height H (pre @ ms)" "\<forall>e \<in> set ms. cmp (item_of e) < 0"
      "case find (V (r - 1)) rest' of None \<Rightarrow> ms = [] \<and> c' = c \<or> c' < 0 | Some e \<Rightarrow> c' = cmp (item_of e) \<and> 0 \<le> c'"
    using go_right_moves [OF assms(1-4), of c] by blast
  have nested: "\<forall>e \<in> set rest. V r e \<longrightarrow> V (r - 1) e"
    using linked_below [of V "pre @ rest" r] assms(1,3) by (simp add: skip_store_def)
  have "above V cmp (r - 1) rest' c'"
  proof (cases "find (V (r - 1)) rest'")
    case None
    show ?thesis
    proof (cases "ms = []")
      case True
      then have "find (V (r - 1)) rest = None" using None g(1) by simp
      then have "find (V r) rest = None" using find_mono [OF _ nested] by blast
      then show ?thesis using g(5) None assms(5) by (auto simp: above_def)
    qed (use g(5) None in \<open>simp add: above_def\<close>)
  qed (use g(5) in \<open>simp add: above_def\<close>)
  then show ?thesis using that g(1-4) by blast
qed

lemma find_loop_finds:
  assumes "skip_store V m H (pre @ rest)" "downward cmp (pre @ rest)" "r \<le> cur_height H pre" "above V cmp r rest c"
  shows "\<exists>ms rest' c'. rest = ms @ rest' \<and> find_loop cmp m r (cur pre) c = Some (cur (pre @ ms), c')
    \<and> (\<forall>e \<in> set ms. cmp (item_of e) < 0) \<and> above V cmp 0 rest' c'"
  using assms
proof (induction r arbitrary: pre rest c rule: less_induct)
  case (less r)
  show ?case
  proof (cases "r = 0")
    case True
    then show ?thesis using less.prems(4)
      by (intro exI [of _ "[]"] exI [of _ rest] exI [of _ c]) (simp add: find_loop.simps)
  next
    case False
    obtain ms rest' c' where g: "rest = ms @ rest'" "go_right cmp m r (cur pre) c = Some (cur (pre @ ms), c')"
        "r \<le> cur_height H (pre @ ms)" "\<forall>e \<in> set ms. cmp (item_of e) < 0" "above V cmp (r - 1) rest' c'"
      by (rule level_moves [OF less.prems(1,2) _ less.prems(3,4)]) (use False in simp)
    have store: "skip_store V m H ((pre @ ms) @ rest')" "downward cmp ((pre @ ms) @ rest')" using less.prems(1,2) g(1) by simp_all
    obtain r1 where r1: "r1 < r" "go_down m (cur (pre @ ms)) r = Some r1" "find (V r1) rest' = find (V (r - 1)) rest'"
      using go_down_moves [OF store(1) _ g(3)] False by auto
    have "r1 \<le> cur_height H (pre @ ms)" "above V cmp r1 rest' c'" using r1(1,3) g(3,5) by (simp_all add: above_def)
    then obtain ms2 rest2 c2 where "rest' = ms2 @ rest2" "find_loop cmp m r1 (cur (pre @ ms)) c' = Some (cur ((pre @ ms) @ ms2), c2)"
        "\<forall>e \<in> set ms2. cmp (item_of e) < 0" "above V cmp 0 rest2 c2"
      using less.IH [OF r1(1) store] by blast
    then show ?thesis using False g(1,2,4) r1(2)
      by (intro exI [of _ "ms @ ms2"] exI [of _ rest2] exI [of _ c2]) (auto simp: find_loop.simps [of cmp m r])
  qed
qed

section \<open>Changing one link\<close>

text \<open>The predecessor of what comes after \<open>pre\<close> on level \<open>j\<close>.\<close>

definition pred_at :: "'a elem list \<Rightarrow> nat \<Rightarrow> skip_addr" where
  "pred_at pre j = (case find (\<lambda>e. j < height_of e) (rev pre) of None \<Rightarrow> root | Some e \<Rightarrow> fst e)"

lemma pred_at_append:
  "pred_at (pre @ ms) j = (if \<exists>e \<in> set ms. j < height_of e then pred_at ms j else pred_at pre j)"
proof -
  have "find P (xs @ ys) = (case find P xs of None \<Rightarrow> find P ys | Some x \<Rightarrow> Some x)" for P and xs ys :: "'a elem list"
    by (induction xs) auto
  moreover have "find (\<lambda>e. j < height_of e) (rev ms) = None \<longleftrightarrow> \<not> (\<exists>e \<in> set ms. j < height_of e)" by (auto simp: find_None_iff)
  ultimately show ?thesis by (auto simp: pred_at_def split: option.splits)
qed

lemma pred_at_cur: "j < cur_height H pre \<Longrightarrow> pred_at pre j = cur pre"
  by (cases pre rule: rev_cases) (auto simp: pred_at_def cur_def cur_height_def)

lemma pred_at_simps: "pred_at [] j = root" "pred_at (e # pre) j = (if \<exists>f \<in> set pre. j < height_of f then pred_at pre j
    else if j < height_of e then fst e else root)"
  using pred_at_append [of "[e]" pre j] by (auto simp: pred_at_def)

lemma pred_at_in: "pred_at pre j = root \<or> pred_at pre j \<in> fst ` set pre"
proof (cases "find (\<lambda>e. j < height_of e) (rev pre)")
  case (Some e)
  then have "e \<in> set (rev pre)" by (rule find_splits) simp
  then show ?thesis using Some by (simp add: pred_at_def)
qed (simp add: pred_at_def)

text \<open>Making one element visible or invisible on one level changes one pointer.\<close>

definition toggled :: "'a linked \<Rightarrow> 'a linked \<Rightarrow> nat \<Rightarrow> 'a elem \<Rightarrow> 'a elem list \<Rightarrow> bool" where
  "toggled V W i t ns \<longleftrightarrow> (\<forall>j. \<forall>e \<in> set ns. j \<noteq> i \<or> e \<noteq> t \<longrightarrow> V j e = W j e) \<and> (\<forall>e \<in> set ns. e \<noteq> t \<longrightarrow> (V i e \<longleftrightarrow> i < height_of e))"

lemma find_cong_set: "(\<And>x. x \<in> set xs \<Longrightarrow> P x = Q x) \<Longrightarrow> find P xs = find Q xs"
  by (induction xs) auto

lemma find_append2: "find P (xs @ ys) = (case find P xs of None \<Rightarrow> find P ys | Some x \<Rightarrow> Some x)"
  by (induction xs) auto

lemma succ_at_other: "toggled V W i t ns \<Longrightarrow> set ms \<subseteq> set ns \<Longrightarrow> j \<noteq> i \<or> t \<notin> set ms \<Longrightarrow> succ_at V ms j = succ_at W ms j"
proof -
  assume t: "toggled V W i t ns" "set ms \<subseteq> set ns" "j \<noteq> i \<or> t \<notin> set ms"
  have "V j x = W j x" if x: "x \<in> set ms" for x
  proof -
    have "x \<in> set ns" "j \<noteq> i \<or> x \<noteq> t" using t(2,3) x by auto
    then show ?thesis using t(1) unfolding toggled_def by blast
  qed
  then have "find (V j) ms = find (W j) ms" by (rule find_cong_set)
  then show ?thesis by (simp add: succ_at_def)
qed

lemma succ_at_before:
  assumes "toggled V W i t ns" "set (q @ t # post) \<subseteq> set ns" "t \<notin> set q"
  shows "succ_at W (q @ t # post) i = (if \<exists>f \<in> set q. i < height_of f then succ_at V (q @ t # post) i else succ_at W (t # post) i)"
proof -
  have vis: "V i e \<longleftrightarrow> i < height_of e" "W i e = V i e" if "e \<in> set q" for e
  proof -
    have "e \<in> set ns" "e \<noteq> t" using assms(2,3) that by auto
    then show "V i e \<longleftrightarrow> i < height_of e" "W i e = V i e" using assms(1) unfolding toggled_def by blast+
  qed
  have "find (W i) q = find (V i) q" using vis by (intro find_cong_set) blast
  moreover have "find (V i) q = None \<longleftrightarrow> \<not> (\<exists>f \<in> set q. i < height_of f)" using vis by (auto simp: find_None_iff)
  ultimately show ?thesis by (cases t) (auto simp: succ_at_def find_append2 split: option.splits)
qed

lemma map_upd: "i < n \<Longrightarrow> (map f [0..<n])[i := x] = map (f(i := x)) [0..<n]"
  by (rule nth_equalityI) (auto simp: nth_list_update)

lemma node_relink:
  assumes "toggled V W i t ns" "set (q @ t # post) \<subseteq> set ns" "t \<notin> set q"
  shows "map (succ_at W (q @ t # post)) [0..<h] =
    (if i < h \<and> \<not> (\<exists>f \<in> set q. i < height_of f) then (map (succ_at V (q @ t # post)) [0..<h])[i := succ_at W (t # post) i]
     else map (succ_at V (q @ t # post)) [0..<h])"
proof -
  have other: "succ_at W (q @ t # post) j = succ_at V (q @ t # post) j" if "j \<noteq> i" for j
    using succ_at_other [OF assms(1,2), of j] that by simp
  define B where "B \<longleftrightarrow> (\<exists>f \<in> set q. i < height_of f)"
  have "succ_at W (q @ t # post) j = (if j = i \<and> \<not> B then succ_at W (t # post) i else succ_at V (q @ t # post) j)" for j
    using other [of j] succ_at_before [OF assms] unfolding B_def [symmetric] by (cases "j = i") simp_all
  then show ?thesis unfolding B_def [symmetric] by (auto simp: map_upd)
qed

lemma chainI:
  "(\<And>ys a x h zs. ns = ys @ (a, x, h) # zs \<Longrightarrow> m a = Some (node_of V x h zs)) \<Longrightarrow> chain V m ns"
proof (induction ns)
  case (Cons e ns)
  obtain a x h where e: "e = (a, x, h)" by (cases e)
  have "m a = Some (node_of V x h ns)" using Cons.prems [of "[]" a x h ns] e by simp
  moreover have "chain V m ns"
  proof (rule Cons.IH)
    fix ys b y k zs assume "ns = ys @ (b, y, k) # zs"
    then show "m b = Some (node_of V y k zs)" using Cons.prems [of "e # ys" b y k zs] by simp
  qed
  ultimately show ?case using e by simp
qed simp

lemma pred_at_is:
  assumes "distinct (root # map fst (ys @ (a, x, h) # q))"
  shows "pred_at (ys @ (a, x, h) # q) i = a \<longleftrightarrow> i < h \<and> \<not> (\<exists>f \<in> set q. i < height_of f)"
proof -
  have "pred_at q i \<noteq> a" "pred_at ys i \<noteq> a" using assms pred_at_in [of q i] pred_at_in [of ys i] by auto
  then show ?thesis by (auto simp: pred_at_append [of ys] pred_at_simps)
qed

lemma pred_at_root:
  assumes "root \<notin> fst ` set pre"
  shows "pred_at pre i = root \<longleftrightarrow> \<not> (\<exists>f \<in> set pre. i < height_of f)"
proof (cases "find (\<lambda>e. i < height_of e) (rev pre)")
  case None
  then have "\<not> (\<exists>f \<in> set pre. i < height_of f)" unfolding find_None_iff set_rev by blast
  then show ?thesis using None by (simp add: pred_at_def)
next
  case (Some e)
  then have "e \<in> set (rev pre)" "i < height_of e" by (rule find_splits, simp)+
  then show ?thesis using Some assms by (auto simp: pred_at_def)
qed

lemma relink:
  assumes "m root = Some (root_of V H (pre @ t # post))" "chain V m (pre @ t # post)" "distinct (root # map fst (pre @ t # post))"
    "toggled V W i t (pre @ t # post)" "i < H"
  obtains m' where "set_next (pred_at pre i) i (succ_at W (t # post) i) m = Some m'"
    "m' root = Some (root_of W H (pre @ t # post))" "chain W m' (pre @ t # post)"
    "\<And>a. a \<noteq> pred_at pre i \<Longrightarrow> m' a = m a"
proof -
  let ?ns = "pre @ t # post" and ?u = "pred_at pre i" and ?p = "succ_at W (t # post) i"
  have d: "distinct ?ns" "t \<notin> set pre" "t \<notin> set post" "root \<notin> fst ` set pre" using assms(3) by (auto simp: distinct_map)
  have "\<exists>n nx. m ?u = Some n \<and> sn_nodes n = Some nx \<and> i < length nx"
  proof (cases "\<exists>f \<in> set pre. i < height_of f")
    case False
    then have "?u = root" using pred_at_root [OF d(4)] by blast
    then show ?thesis using assms(1,5) by (auto simp: root_of_def)
  next
    case True
    then have "find (\<lambda>e. i < height_of e) (rev pre) \<noteq> None" unfolding find_None_iff set_rev by blast
    then obtain e where e: "find (\<lambda>e. i < height_of e) (rev pre) = Some e" by blast
    obtain a x h where ex: "e = (a, x, h)" by (cases e)
    have "e \<in> set (rev pre)" "i < height_of e" by (rule find_splits [OF e], simp)+
    then have "e \<in> set pre" "i < h" using ex by simp_all
    then obtain ys zs where "pre = ys @ (a, x, h) # zs" using ex by (auto dest: split_list)
    then have "m a = Some (node_of V x h (zs @ t # post))" using assms(2) chain_append [of V m ys a x h "zs @ t # post"] by simp
    then show ?thesis using e ex \<open>i < h\<close> by (simp add: pred_at_def node_of_def)
  qed
  then obtain n nx where n: "m ?u = Some n" "sn_nodes n = Some nx" "i < length nx" by blast
  define m' where "m' = m(?u \<mapsto> n\<lparr>sn_nodes := Some (nx[i := ?p])\<rparr>)"
  have set: "set_next ?u i ?p m = Some m'" using n by (simp add: set_next_def wr_def m'_def)
  have root: "m' root = Some (root_of W H ?ns)"
    using node_relink [OF assms(4), of pre post H] d(2) n(1,2) assms(1,5) pred_at_root [OF d(4), of i]
    by (auto simp: m'_def root_of_def)
  have elem: "m' a = Some (node_of W x h zs)" if split: "?ns = ys @ (a, x, h) # zs" for ys a x h zs
  proof -
    let ?e = "(a, x, h)"
    have ma: "m a = Some (node_of V x h zs)" using assms(2) split chain_append [of V m ys a x h zs] by simp
    have tail: "zs = zs'" if "?ns = ys' @ ?e # zs'" for ys' zs'
    proof -
      have "?e \<notin> set ys" "?e \<notin> set zs" using d(1) unfolding split by auto
      then show ?thesis using append_Cons_eq_iff [of ?e ys zs ys' zs'] split that by auto
    qed
    have "?e \<in> set ?ns" using split by auto
    then consider "?e \<in> set pre" | "?e \<in> set (t # post)" by auto
    then show ?thesis
    proof cases
      case 1
      then obtain y q where pre: "pre = y @ ?e # q" by (meson split_list)
      then have zs: "zs = q @ t # post" by (intro tail [of y]) simp
      have q: "t \<notin> set q" "set (q @ t # post) \<subseteq> set ?ns" using pre d(2) by auto
      have "distinct (root # map fst pre)" using assms(3) by auto
      then have "?u = a \<longleftrightarrow> i < h \<and> \<not> (\<exists>f \<in> set q. i < height_of f)" using pred_at_is [of y a x h q i] unfolding pre by simp
      then show ?thesis using node_relink [OF assms(4) q(2,1), of h] ma zs n(1,2)
        by (cases "?u = a") (auto simp: m'_def node_of_def)
    next
      case 2
      have post: "t \<notin> set zs" "set zs \<subseteq> set ?ns"
      proof -
        show "t \<notin> set zs"
        proof (cases "?e = t")
          case True
          then show ?thesis using tail [of pre post] d(3) by simp
        next
          case False
          then obtain y q where "post = y @ ?e # q" using 2 by (auto dest: split_list)
          then show ?thesis using tail [of "pre @ t # y" q] d(3) by auto
        qed
        show "set zs \<subseteq> set ?ns" unfolding split by auto
      qed
      define S where "S = fst ` set (t # post)"
      have "a \<in> S" using 2 unfolding S_def by force
      moreover have "root \<notin> S" "fst ` set pre \<inter> S = {}" using assms(3) unfolding S_def by auto
      ultimately have "a \<noteq> root" "a \<notin> fst ` set pre" by (metis, blast)
      then have "a \<noteq> ?u" using pred_at_in [of pre i] by auto
      moreover have "succ_at V zs j = succ_at W zs j" for j by (rule succ_at_other [OF assms(4) post(2)]) (use post(1) in simp)
      ultimately show ?thesis using ma by (simp add: m'_def node_of_def)
    qed
  qed
  show ?thesis by (rule that [OF set root]) (use elem in \<open>auto simp: m'_def intro!: chainI\<close>)
qed

end
