(* ===== verification/Np_Skiplist_Ops.thy ===== *)
theory Np_Skiplist_Ops
  imports Np_Skiplist
begin

text \<open>
  The skip list implements a sorted list without duplicates: what \<^verbatim>\<open>np_skiplist_find\<close>, \<^verbatim>\<open>np_skiplist_add\<close>,
  \<^verbatim>\<open>np_skiplist_remove\<close> and \<^verbatim>\<open>np_skiplist_destroy\<close> do to the list that a store represents.
\<close>

section \<open>Comparisons\<close>

locale comparison =
  fixes compare :: "'a \<Rightarrow> 'a \<Rightarrow> int"
  assumes anti: "compare x y < 0 \<longleftrightarrow> 0 < compare y x"
    and cmp_le: "compare x y \<le> 0 \<Longrightarrow> compare y z \<le> 0 \<Longrightarrow> compare x z \<le> 0"
begin

lemma zero_sym: "compare x y = 0 \<longleftrightarrow> compare y x = 0"
  using anti [of x y] anti [of y x] by linarith

lemma cmp_less_le: "compare x y < 0 \<Longrightarrow> compare y z \<le> 0 \<Longrightarrow> compare x z < 0"
  using cmp_le [of x y z] cmp_le [of y z x] anti [of x y] anti [of z x] zero_sym [of x z] by linarith

lemma cmp_le_less: "compare x y \<le> 0 \<Longrightarrow> compare y z < 0 \<Longrightarrow> compare x z < 0"
  using cmp_le [of x y z] cmp_le [of z x y] anti [of y z] anti [of z x] zero_sym [of x z] by linarith

lemma sorted_downward:
  "sorted_wrt (\<lambda>x y. compare x y < 0) (map item_of ns) \<Longrightarrow> downward (\<lambda>x. compare x item) ns"
  unfolding downward_def sorted_wrt_map
  by (erule sorted_wrt_mono_rel [rotated]) (auto intro: cmp_less_le [OF _ less_imp_le])

lemma sorted_above:
  assumes "sorted_wrt (\<lambda>x y. compare x y < 0) (x # xs)" "0 \<le> compare x item" "y \<in> set xs"
  shows "0 < compare y item"
proof -
  have "compare item x \<le> 0" "compare x y < 0" using assms anti [of x item] anti [of item x] by (auto simp: not_less [symmetric])
  then have "compare item y < 0" by (rule cmp_le_less)
  then show ?thesis using anti by blast
qed

end

interpretation kc: comparison np_dhkey_cmp
  by unfold_locales (auto simp: np_dhkey_cmp_order split: if_splits)

section \<open>Represented lists\<close>

definition on_level :: "'a linked" where
  "on_level j e \<longleftrightarrow> j < height_of e"

definition skip_rep :: "('a \<Rightarrow> 'a \<Rightarrow> int) \<Rightarrow> 'a np_skiplist \<Rightarrow> 'a list \<Rightarrow> bool" where
  "skip_rep compare l xs \<longleftrightarrow> (\<exists>H ns. skip_store on_level (sk_mem l) H ns \<and> xs = map item_of ns
     \<and> sorted_wrt (\<lambda>x y. compare x y < 0) xs \<and> sk_num_elements l = of_nat (length xs)
     \<and> (\<forall>a. sk_mem l a \<noteq> None \<longleftrightarrow> a = root \<or> a \<in> fst ` set ns) \<and> (\<forall>a. sk_mem l a \<noteq> None \<longrightarrow> a < sk_brk l))"

lemma skip_store_on_level:
  "skip_store on_level m H ns \<longleftrightarrow> m root = Some (root_of on_level H ns) \<and> chain on_level m ns \<and> distinct (root # map fst ns)
     \<and> (\<forall>e \<in> set ns. 0 < height_of e \<and> height_of e \<le> H) \<and> H < 128"
  by (auto simp: skip_store_def on_level_def linked_ok_def)

lemma cur_height_le:
  assumes "skip_store on_level m H (pre @ rest)"
  shows "cur_height H pre \<le> H"
  using assms by (cases pre rule: rev_cases) (auto simp: skip_store_on_level cur_height_def)

lemma find_level_0:
  assumes "\<forall>e \<in> set ns. 0 < height_of e"
  shows "find (on_level 0) ns = (case ns of [] \<Rightarrow> None | e # _ \<Rightarrow> Some e)"
  using assms by (cases ns) (auto simp: on_level_def)

lemma find_level_top: "\<forall>e \<in> set ns. height_of e \<le> H \<Longrightarrow> H \<le> j \<Longrightarrow> find (on_level j) ns = None"
  by (auto simp: find_None_iff on_level_def)

lemma levels_of_nat: "H < 128 \<Longrightarrow> levels (of_nat H) = H"
proof -
  assume H: "H < 128"
  then have "unat (of_nat H :: u8) = H" by (intro unat_of_nat_fit) simp
  then show ?thesis using H by (simp add: levels_def word_less_nat_alt)
qed

lemma skip_init: "skip_rep compare np_skiplist_init []"
  by (auto simp: skip_rep_def skip_store_on_level np_skiplist_init_def root_of_def intro!: exI [of _ 0])

section \<open>Finding\<close>

lemma skip_search:
  assumes "comparison compare" "skip_rep compare l xs"
  obtains H ms rest c where "skip_store on_level (sk_mem l) H (ms @ rest)" "xs = map item_of (ms @ rest)"
    "find_loop (\<lambda>x. compare x item) (sk_mem l) H root (- 1) = Some (cur ms, c)" "\<forall>e \<in> set ms. compare (item_of e) item < 0"
    "above on_level (\<lambda>x. compare x item) 0 rest c"
proof -
  let ?m = "sk_mem l" and ?cmp = "\<lambda>x. compare x item"
  obtain H ns where r: "skip_store on_level ?m H ns" "xs = map item_of ns" "sorted_wrt (\<lambda>x y. compare x y < 0) (map item_of ns)"
    using assms(2) by (auto simp: skip_rep_def)
  have "\<forall>e \<in> set ns. 0 < height_of e \<and> height_of e \<le> H" using r(1) by (simp add: skip_store_on_level)
  then have "above on_level ?cmp H ns (- 1)" using find_level_top [of ns H H] by (simp add: above_def)
  moreover have "downward ?cmp ns" by (rule comparison.sorted_downward [OF assms(1) r(3)])
  ultimately obtain ms rest c where "ns = ms @ rest" "find_loop ?cmp ?m H root (- 1) = Some (cur ms, c)"
      "\<forall>e \<in> set ms. ?cmp (item_of e) < 0" "above on_level ?cmp 0 rest c"
    using find_loop_finds [of on_level ?m H "[]" ns ?cmp H "- 1"] r(1) by (auto simp: cur_def cur_height_def)
  then show ?thesis using that r(1,2) by simp
qed

text \<open>The first element that is not smaller.\<close>

lemma skip_find:
  assumes "comparison compare" "skip_rep compare l xs"
  shows "np_skiplist_find compare l item =
    Some (case find (\<lambda>x. 0 \<le> compare x item) xs of None \<Rightarrow> (False, Some item) | Some x \<Rightarrow> (compare x item = 0, Some x))"
proof -
  let ?m = "sk_mem l" and ?cmp = "\<lambda>x. compare x item"
  obtain H ms rest c where f: "skip_store on_level ?m H (ms @ rest)" "xs = map item_of (ms @ rest)"
      "find_loop ?cmp ?m H root (- 1) = Some (cur ms, c)" "\<forall>e \<in> set ms. ?cmp (item_of e) < 0" "above on_level ?cmp 0 rest c"
    by (rule skip_search [OF assms, of item])
  have ok: "?m root = Some (root_of on_level H (ms @ rest))" "\<forall>e \<in> set (ms @ rest). 0 < height_of e \<and> height_of e \<le> H" "H < 128"
    using f(1) by (simp_all add: skip_store_on_level)
  note store = f(1)
  have small: "find (\<lambda>x. 0 \<le> ?cmp x) (map item_of ms) = None" using f(4) by (auto simp: find_None_iff)
  have lev: "levels (sn_height (root_of on_level H (ms @ rest))) = H" using ok(3) by (simp add: root_of_def levels_of_nat)
  show ?thesis
  proof (cases rest)
    case Nil
    then have "c < 0" using f(5) by (simp add: above_def)
    moreover obtain n where "?m (cur ms) = Some n" by (rule cursor_node [OF store])
    ultimately show ?thesis using f(2,3) ok(1) lev small Nil by (auto simp: np_skiplist_find_def)
  next
    case (Cons e rest')
    then have c: "c = ?cmp (item_of e)" "0 \<le> c" "0 < height_of e" "height_of e \<le> H" "succ_at on_level rest 0 = Some (fst e)"
      using f(5) ok(2) by (auto simp: above_def on_level_def succ_at_def)
    have pos: "0 < cur_height H ms" using ok(2) c(3,4) by (auto simp: cur_height_def)
    obtain n where n: "?m (cur ms) = Some n" "sn_nodes n \<noteq> None"
      by (rule cursor_node [OF store]) (use pos in auto)
    have "?m (fst e) = Some (node_of on_level (item_of e) (height_of e) rest')"
      using store Cons chain_append [of on_level ?m ms "fst e" "item_of e" "height_of e" rest']
      by (simp add: skip_store_def item_of_def height_of_def)
    moreover have "find (\<lambda>x. 0 \<le> ?cmp x) xs = Some (item_of e)"
      using small c(1,2) f(2) Cons by (simp add: find_append2)
    ultimately show ?thesis using f(3) ok(1) lev n c cursor_at(2) [OF store pos] by (simp add: np_skiplist_find_def node_of_def)
  qed
qed

section \<open>Heights\<close>

lemma max_height_bound: "unat e < 2 ^ n \<Longrightarrow> n \<le> 32 \<Longrightarrow> 0 < unat (max_height e) \<and> unat (max_height e) \<le> n + 1"
proof (induction n arbitrary: e)
  case 0
  then have "e = 0" by (simp add: unat_eq_0)
  then show ?case by (simp add: max_height.simps)
next
  case (Suc n)
  show ?case
  proof (cases "e = 0")
    case False
    have "unat (drop_bit 1 e) < 2 ^ n" using Suc.prems(1)
      by (simp add: unat_drop_bit_eq drop_bit_nat_def less_mult_imp_div_less del: drop_bit_numeral_bit0 drop_bit_numeral_bit1)
    then have ih: "0 < unat (max_height (drop_bit 1 e))" "unat (max_height (drop_bit 1 e)) \<le> n + 1" using Suc by simp_all
    then have "unat (max_height (drop_bit 1 e) + 1) = unat (max_height (drop_bit 1 e)) + 1"
      using unat_add_lem [of "max_height (drop_bit 1 e)" 1] Suc.prems(2) by simp
    moreover have "max_height e = max_height (drop_bit 1 e) + 1" using False by (subst max_height.simps) (simp add: word_gt_0)
    ultimately show ?thesis using ih by simp
  qed (simp add: max_height.simps)
qed

lemma new_height:
  obtains k where "pick_height z e + 1 = of_nat k" "0 < k" "k \<le> 34"
proof -
  have "unat e < 2 ^ LENGTH(32)" by (rule unsigned_less)
  then have m: "unat (max_height e) \<le> 33" using max_height_bound [of e 32] by simp
  define k where "k = (if low_ones z 0 > unat (max_height e) then unat (max_height e) else low_ones z 0)"
  have "pick_height z e = of_nat k" by (simp add: pick_height_def k_def Let_def)
  then have "pick_height z e + 1 = of_nat (Suc k)" by simp
  moreover have "k \<le> 33" using m by (simp add: k_def)
  ultimately show ?thesis using that [of "Suc k"] by simp
qed

section \<open>Adding\<close>

lemma push_down_moves:
  assumes "skip_store V m H (pre @ rest)" "0 < r" "r \<le> cur_height H pre" "r \<le> length stack"
  shows "\<exists>r1 < r. \<exists>stack'. push_down m (cur pre) r stack = Some (r1, stack') \<and> find (V r1) rest = find (V (r - 1)) rest
    \<and> length stack' = length stack \<and> (\<forall>j < length stack. stack' ! j = (if r1 \<le> j \<and> j < r then Some (cur pre) else stack ! j))"
  using assms(2-4)
proof (induction r arbitrary: stack rule: nat_less_induct)
  case (1 r)
  have d: "distinct (map fst rest)" using assms(1) by (simp add: skip_store_def)
  show ?case
  proof (cases "r = 1")
    case True
    then show ?thesis using 1(4) by (intro exI [of _ 0] conjI exI [of _ "stack[0 := Some (cur pre)]"]) (auto simp: wr_def nth_list_update)
  next
    case False
    define q where "q = r - 2"
    have q: "r = Suc (Suc q)" using False 1(2) by (simp add: q_def)
    have p: "nodes_at m (cur pre) q = Some (succ_at V rest q)" "nodes_at m (cur pre) (Suc q) = Some (succ_at V rest (Suc q))"
      using cursor_at(2) [OF assms(1)] 1(3) q by simp_all
    let ?stack = "stack[Suc q := Some (cur pre)]"
    have w: "wr stack (Suc q) (Some (cur pre)) = Some ?stack" using 1(4) q by (simp add: wr_def)
    show ?thesis
    proof (cases "succ_at V rest q = succ_at V rest (Suc q)")
      case True
      obtain r1 stack' where ih: "r1 < Suc q" "push_down m (cur pre) (Suc q) ?stack = Some (r1, stack')" "find (V r1) rest = find (V q) rest"
          "length stack' = length ?stack" "\<forall>j < length ?stack. stack' ! j = (if r1 \<le> j \<and> j < Suc q then Some (cur pre) else ?stack ! j)"
        using 1(1) [rule_format, of "Suc q" ?stack] 1(3,4) q by auto
      then show ?thesis using True p q w succ_at_eq [OF d True]
        by (intro exI [of _ r1] conjI exI [of _ stack']) (auto simp: nth_list_update)
    next
      case False
      then show ?thesis using p q w by (intro exI [of _ "Suc q"] conjI exI [of _ ?stack]) (auto simp: nth_list_update)
    qed
  qed
qed

lemma low_between:
  assumes "\<forall>e. find (on_level r) (ms @ rest) = Some e \<longrightarrow> 0 < (cmp (item_of e) :: int)" "\<forall>e \<in> set ms. cmp (item_of e) < 0" "r \<le> j"
  shows "\<not> (\<exists>e \<in> set ms. j < height_of e)"
proof
  assume "\<exists>e \<in> set ms. j < height_of e"
  then obtain e0 where "e0 \<in> set ms" "on_level r e0" using assms(3) unfolding on_level_def by (meson order.strict_trans1)
  then have "find (on_level r) ms \<noteq> None" unfolding find_None_iff by blast
  then obtain e where e: "find (on_level r) ms = Some e" by blast
  then have "e \<in> set ms" by (rule find_splits) simp
  then show False using assms(1,2) e by (fastforce simp: find_append2)
qed

lemma add_loop_finds:
  assumes "skip_store on_level m H (pre @ rest)" "downward cmp (pre @ rest)" "r \<le> cur_height H pre" "H \<le> length stack"
    "\<forall>e. find (on_level r) rest = Some e \<longrightarrow> 0 < cmp (item_of e)"
    "\<forall>j < H. r \<le> j \<longrightarrow> stack ! j = Some (pred_at pre j)"
  shows "(\<exists>e \<in> set rest. cmp (item_of e) = 0) \<and> add_loop cmp m r (cur pre) stack = Some None
    \<or> (\<exists>ms rest' stack'. rest = ms @ rest' \<and> add_loop cmp m r (cur pre) stack = Some (Some stack')
       \<and> (\<forall>e \<in> set ms. cmp (item_of e) < 0) \<and> (\<forall>e. find (on_level 0) rest' = Some e \<longrightarrow> 0 < cmp (item_of e))
       \<and> length stack' = length stack \<and> (\<forall>j < H. stack' ! j = Some (pred_at (pre @ ms) j)))"
  using assms
proof (induction r arbitrary: pre rest stack rule: less_induct)
  case (less r)
  show ?case
  proof (cases "r = 0")
    case True
    then show ?thesis using less.prems(5,6)
      by (intro disjI2 exI [of _ "[]"] exI [of _ rest] exI [of _ stack]) (simp add: add_loop.simps)
  next
    case False
    obtain ms rest' c where g: "rest = ms @ rest'" "go_right cmp m r (cur pre) 0 = Some (cur (pre @ ms), c)"
        "r \<le> cur_height H (pre @ ms)" "\<forall>e \<in> set ms. cmp (item_of e) < 0"
        "case find (on_level (r - 1)) rest' of None \<Rightarrow> ms = [] \<and> c = 0 \<or> c < 0 | Some e \<Rightarrow> c = cmp (item_of e) \<and> 0 \<le> c"
      using go_right_moves [OF less.prems(1,2) _ less.prems(3), of 0] False by blast
    have store: "skip_store on_level m H ((pre @ ms) @ rest')" "downward cmp ((pre @ ms) @ rest')" using less.prems(1,2) g(1) by simp_all
    have nx: "next_at m (cur (pre @ ms)) (r - 1) = Some (succ_at on_level rest' (r - 1))"
      by (rule cursor_at(1) [OF store(1)]) (use g(3) False in linarith)
    show ?thesis
    proof (cases "find (on_level (r - 1)) rest' \<noteq> None \<and> c = 0")
      case True
      then obtain e where e: "find (on_level (r - 1)) rest' = Some e" by blast
      then have "e \<in> set rest'" by (rule find_splits) simp
      moreover have "cmp (item_of e) = 0" using g(5) e True by simp
      moreover have "add_loop cmp m r (cur pre) stack = Some None"
        using False g(2) nx e True by (subst add_loop.simps) (simp add: succ_at_def)
      ultimately show ?thesis using g(1) by auto
    next
      case go: False
      have pos: "\<forall>e. find (on_level (r - 1)) rest' = Some e \<longrightarrow> 0 < cmp (item_of e)" using g(5) go by auto
      have H: "cur_height H (pre @ ms) \<le> H" by (rule cur_height_le [OF store(1)])
      obtain r1 stack1 where d: "r1 < r" "push_down m (cur (pre @ ms)) r stack = Some (r1, stack1)"
          "find (on_level r1) rest' = find (on_level (r - 1)) rest'" "length stack1 = length stack"
          "\<forall>j < length stack. stack1 ! j = (if r1 \<le> j \<and> j < r then Some (cur (pre @ ms)) else stack ! j)"
        using push_down_moves [OF store(1) _ g(3), of stack] False H g(3) less.prems(4) by auto
      have stack1: "\<forall>j < H. r1 \<le> j \<longrightarrow> stack1 ! j = Some (pred_at (pre @ ms) j)"
      proof (intro allI impI)
        fix j assume j: "j < H" "r1 \<le> j"
        show "stack1 ! j = Some (pred_at (pre @ ms) j)"
        proof (cases "j < r")
          case True
          then have "pred_at (pre @ ms) j = cur (pre @ ms)" using g(3) by (intro pred_at_cur [of _ H]) simp
          then show ?thesis using d(5) j True less.prems(4) by simp
        next
          case False
          then have "\<not> (\<exists>e \<in> set ms. j < height_of e)" using low_between [of r ms rest' cmp j] less.prems(5) g(1,4) by simp
          then have "pred_at (pre @ ms) j = pred_at pre j" by (simp add: pred_at_append)
          then show ?thesis using d(5) j False less.prems(4,6) by simp
        qed
      qed
      have loop: "add_loop cmp m r (cur pre) stack = add_loop cmp m r1 (cur (pre @ ms)) stack1"
        using False g(2) nx go d(2) by (subst add_loop.simps) (auto simp: succ_at_def)
      have pre: "r1 \<le> cur_height H (pre @ ms)" "H \<le> length stack1" "\<forall>e. find (on_level r1) rest' = Some e \<longrightarrow> 0 < cmp (item_of e)"
        using g(3) d(1,3,4) less.prems(4) pos by simp_all
      from less.IH [OF d(1) store pre stack1] show ?thesis
      proof
        assume "(\<exists>e \<in> set rest'. cmp (item_of e) = 0) \<and> add_loop cmp m r1 (cur (pre @ ms)) stack1 = Some None"
        then show ?thesis using g(1) loop by auto
      next
        assume "\<exists>ms2 rest2 stack2. rest' = ms2 @ rest2 \<and> add_loop cmp m r1 (cur (pre @ ms)) stack1 = Some (Some stack2)
          \<and> (\<forall>e \<in> set ms2. cmp (item_of e) < 0) \<and> (\<forall>e. find (on_level 0) rest2 = Some e \<longrightarrow> 0 < cmp (item_of e))
          \<and> length stack2 = length stack1 \<and> (\<forall>j < H. stack2 ! j = Some (pred_at ((pre @ ms) @ ms2) j))"
        then obtain ms2 rest2 stack2 where r: "rest' = ms2 @ rest2" "add_loop cmp m r1 (cur (pre @ ms)) stack1 = Some (Some stack2)"
          "\<forall>e \<in> set ms2. cmp (item_of e) < 0" "\<forall>e. find (on_level 0) rest2 = Some e \<longrightarrow> 0 < cmp (item_of e)"
          "length stack2 = length stack1" "\<forall>j < H. stack2 ! j = Some (pred_at ((pre @ ms) @ ms2) j)" by blast
        have "\<forall>e \<in> set (ms @ ms2). cmp (item_of e) < 0" using g(4) r(3) unfolding set_append by blast
        then show ?thesis using g(1) r d(4) loop
          by (intro disjI2 exI [of _ "ms @ ms2"] exI [of _ rest2] exI [of _ stack2]) simp
      qed
    qed
  qed
qed

text \<open>While an element is being linked or unlinked, it is visible up to a level.\<close>

definition upto_level :: "'a elem \<Rightarrow> nat \<Rightarrow> 'a linked" where
  "upto_level t i j e \<longleftrightarrow> j < height_of e \<and> (e = t \<longrightarrow> j < i)"

lemma skip_store_upto:
  "skip_store (upto_level t i) m H ns \<longleftrightarrow> m root = Some (root_of (upto_level t i) H ns) \<and> chain (upto_level t i) m ns
     \<and> distinct (root # map fst ns) \<and> (\<forall>e \<in> set ns. 0 < height_of e \<and> height_of e \<le> H) \<and> H < 128"
  by (auto simp: skip_store_def upto_level_def linked_ok_def)

lemma upto_top: "height_of t \<le> i \<Longrightarrow> upto_level t i = on_level"
  by (auto simp: upto_level_def on_level_def fun_eq_iff)

lemma upto_toggled: "toggled (upto_level t i) (upto_level t (Suc i)) i t ns" "toggled (upto_level t (Suc i)) (upto_level t i) i t ns"
  by (auto simp: toggled_def upto_level_def)

lemma upto_invisible:
  assumes "t \<notin> set q" "t \<notin> set rest" "i \<le> j"
  shows "succ_at (upto_level t i) (q @ t # rest) j = succ_at on_level (q @ rest) j"
proof -
  have "find (upto_level t i j) q = find (on_level j) q" "find (upto_level t i j) rest = find (on_level j) rest"
    using assms by (auto simp: upto_level_def on_level_def intro!: find_cong_set)
  then show ?thesis using assms(3) by (simp add: succ_at_def find_append2 upto_level_def split: option.split)
qed

lemma upto_rest: "t \<notin> set rest \<Longrightarrow> succ_at (upto_level t i) rest j = succ_at on_level rest j"
  by (auto simp: succ_at_def upto_level_def on_level_def intro!: arg_cong [of _ _ "map_option fst"] find_cong_set)

lemma pred_split:
  assumes "i < H"
  obtains pre0 q where "pre = pre0 @ q" "pred_at pre i = cur pre0" "i < cur_height H pre0" "\<not> (\<exists>e \<in> set q. i < height_of e)"
proof (cases "find (\<lambda>e. i < height_of e) (rev pre)")
  case None
  then have "\<not> (\<exists>e \<in> set pre. i < height_of e)" unfolding find_None_iff set_rev by blast
  then show ?thesis using that [of "[]" pre] None assms by (simp add: pred_at_def cur_def cur_height_def)
next
  case (Some e)
  then obtain ys zs where s: "rev pre = ys @ e # zs" "i < height_of e" "\<forall>y \<in> set ys. \<not> i < height_of y" by (rule find_splits)
  have "pre = rev (ys @ e # zs)" using s(1) by (simp add: rev_swap)
  then have "pre = (rev zs @ [e]) @ rev ys" by simp
  then show ?thesis using that [of "rev zs @ [e]" "rev ys"] Some s(2,3) by (simp add: pred_at_def cur_def cur_height_def)
qed

lemma pred_next:
  assumes "skip_store (upto_level t i) m H (pre @ t # rest)" "i < H"
  shows "next_at m (pred_at pre i) i = Some (succ_at on_level rest i)"
proof -
  obtain pre0 q where p: "pre = pre0 @ q" "pred_at pre i = cur pre0" "i < cur_height H pre0" "\<not> (\<exists>e \<in> set q. i < height_of e)"
    using pred_split [OF assms(2)] .
  have t: "t \<notin> set q" "t \<notin> set rest" using assms(1) p(1) by (auto simp: skip_store_upto)
  have "find (on_level i) q = None" using p(4) unfolding find_None_iff on_level_def by blast
  then have "succ_at on_level (q @ rest) i = succ_at on_level rest i" by (simp add: succ_at_def find_append2)
  moreover have "next_at m (cur pre0) i = Some (succ_at (upto_level t i) (q @ t # rest) i)"
    by (rule cursor_at(1)) (use assms(1) p(1,3) in simp_all)
  ultimately show ?thesis using upto_invisible [OF t, of i i] p(2) by simp
qed

definition part_node :: "'a \<Rightarrow> nat \<Rightarrow> 'a elem list \<Rightarrow> nat \<Rightarrow> 'a skip_node" where
  "part_node x k rest i = \<lparr>sn_item = Some x, sn_sentinel = False, sn_height = of_nat k,
     sn_nodes = Some (map (\<lambda>j. if j < i then succ_at on_level rest j else None) [0..<k])\<rparr>"

lemma link_step:
  assumes "skip_store (upto_level t i) g H (pre @ t # rest)" "t = (new, x, k)" "i < k" "rd stack i = Some (Some (pred_at pre i))"
  shows "\<exists>g'. skip_store (upto_level t (Suc i)) g' H (pre @ t # rest) \<and> (\<forall>a. g' a = None \<longleftrightarrow> g a = None)
    \<and> link_level new stack i (g(new \<mapsto> part_node x k rest i)) = Some (g'(new \<mapsto> part_node x k rest (Suc i)))"
proof -
  let ?u = "pred_at pre i" and ?V = "upto_level t (Suc i)"
  have s: "g root = Some (root_of (upto_level t i) H (pre @ t # rest))" "chain (upto_level t i) g (pre @ t # rest)"
      "distinct (root # map fst (pre @ t # rest))" "i < H" "H < 128" "\<forall>e \<in> set (pre @ t # rest). 0 < height_of e \<and> height_of e \<le> H"
    using assms(1-3) by (auto simp: skip_store_upto)
  have u: "?u \<noteq> new" using pred_at_in [of pre i] s(3) assms(2) by auto
  obtain g' where g': "set_next ?u i (succ_at ?V (t # rest) i) g = Some g'" "g' root = Some (root_of ?V H (pre @ t # rest))"
      "chain ?V g' (pre @ t # rest)" "\<And>a. a \<noteq> ?u \<Longrightarrow> g' a = g a"
    using relink [OF s(1-3) upto_toggled(1) s(4)] by blast
  have "succ_at ?V (t # rest) i = Some new" using assms(2,3) by (simp add: succ_at_def upto_level_def)
  then have setu: "set_next ?u i (Some new) g = Some g'" using g'(1) by simp
  then have dom: "g ?u \<noteq> None" "g' ?u \<noteq> None" by (auto simp: set_next_def bind_eq_Some_conv)
  have "(map (\<lambda>j. if j < i then succ_at on_level rest j else None) [0..<k])[i := succ_at on_level rest i]
      = map (\<lambda>j. if j < Suc i then succ_at on_level rest j else None) [0..<k]"
    using assms(3) by (auto simp: map_upd)
  then have "set_next new i (succ_at on_level rest i) (g(new \<mapsto> part_node x k rest i)) = Some (g(new \<mapsto> part_node x k rest (Suc i)))"
    using assms(3) by (simp add: set_next_def part_node_def wr_def)
  moreover have "next_at (g(new \<mapsto> part_node x k rest i)) ?u i = Some (succ_at on_level rest i)"
    using pred_next [OF assms(1) s(4)] u by (simp add: next_at_def)
  moreover have "set_next ?u i (Some new) (g(new \<mapsto> n)) = Some (g'(new \<mapsto> n))" for n
    using setu u by (auto simp: set_next_def bind_eq_Some_conv fun_upd_twist)
  ultimately have "link_level new stack i (g(new \<mapsto> part_node x k rest i)) = Some (g'(new \<mapsto> part_node x k rest (Suc i)))"
    using assms(4) by (simp add: link_level_def)
  moreover have "skip_store ?V g' H (pre @ t # rest)" using g'(2,3) s(3,5,6) by (simp add: skip_store_upto)
  moreover have "\<forall>a. g' a = None \<longleftrightarrow> g a = None" using g'(4) dom by metis
  ultimately show ?thesis by blast
qed

lemma link_all:
  assumes "skip_store (upto_level t 0) g H (pre @ t # rest)" "t = (new, x, k)" "\<forall>j < k. rd stack j = Some (Some (pred_at pre j))" "i \<le> k"
  shows "\<exists>g'. skip_store (upto_level t i) g' H (pre @ t # rest) \<and> (\<forall>a. g' a = None \<longleftrightarrow> g a = None)
    \<and> for_each (link_level new stack) [0..<i] (g(new \<mapsto> part_node x k rest 0)) = Some (g'(new \<mapsto> part_node x k rest i))"
  using assms(4)
proof (induction i)
  case 0
  show ?case using assms(1) by auto
next
  case (Suc i)
  then obtain g' where g': "skip_store (upto_level t i) g' H (pre @ t # rest)" "\<forall>a. g' a = None \<longleftrightarrow> g a = None"
      "for_each (link_level new stack) [0..<i] (g(new \<mapsto> part_node x k rest 0)) = Some (g'(new \<mapsto> part_node x k rest i))"
    using Suc_leD by blast
  obtain g2 where "skip_store (upto_level t (Suc i)) g2 H (pre @ t # rest)" "\<forall>a. g2 a = None \<longleftrightarrow> g' a = None"
      "link_level new stack i (g'(new \<mapsto> part_node x k rest i)) = Some (g2(new \<mapsto> part_node x k rest (Suc i)))"
    using link_step [OF g'(1) assms(2), of stack] assms(3) Suc.prems Suc_le_lessD by blast
  then show ?case using g'(2,3) by (intro exI [of _ g2]) (simp add: for_each_append del: fun_upd_apply)
qed

lemma succ_above: "\<forall>e \<in> set ns. height_of e \<le> H \<Longrightarrow> H \<le> j \<Longrightarrow> succ_at on_level ns j = None"
  by (force simp: succ_at_def find_None_iff on_level_def)

lemma grow_root_grows:
  assumes "skip_store on_level m H (pre @ rest)" "0 < k" "k \<le> 34" "length stack = max H k" "\<forall>j < H. stack ! j = Some (pred_at pre j)"
  shows "\<exists>stack'. grow_root (of_nat k) (root_of on_level H (pre @ rest)) stack = Some (root_of on_level (max H k) (pre @ rest), stack')
    \<and> (\<forall>j < k. rd stack' j = Some (Some (pred_at pre j)))"
proof (cases "H < k")
  case False
  then have "\<not> (of_nat H :: u8) < of_nat k" using assms(1,3) by (simp add: word_less_nat_alt unat_of_nat skip_store_on_level)
  then show ?thesis using False assms(4,5) by (simp add: grow_root_def root_of_def max_def rd_def)
next
  case True
  let ?ns = "pre @ rest"
  have h: "\<forall>e \<in> set ?ns. height_of e \<le> H" using assms(1) by (simp add: skip_store_on_level)
  have u: "unat (of_nat H :: u8) = H" "unat (of_nat k :: u8) = k" "(of_nat H :: u8) < of_nat k"
    using True assms(3) by (simp_all add: word_less_nat_alt unat_of_nat)
  have "map (succ_at on_level ?ns) [0..<k] = map (succ_at on_level ?ns) [0..<H] @ replicate (k - H) None"
    using True succ_above [OF h] by (intro nth_equalityI) (auto simp: nth_append)
  then have r: "root_of on_level (max H k) ?ns = (root_of on_level H ?ns)\<lparr>sn_height := of_nat k,
      sn_nodes := Some (take H (case sn_nodes (root_of on_level H ?ns) of None \<Rightarrow> [] | Some nx \<Rightarrow> nx) @ replicate (k - H) None)\<rparr>"
    using True by (simp add: root_of_def max_def)
  have "pred_at pre j = root" if "H \<le> j" for j
  proof -
    have "find (\<lambda>e. j < height_of e) (rev pre) = None" using h that by (force simp: find_None_iff)
    then show ?thesis by (simp add: pred_at_def)
  qed
  then have "\<forall>j < k. rd (take H stack @ replicate (k - H) (Some root)) j = Some (Some (pred_at pre j))"
    using assms(4,5) True by (auto simp: rd_def nth_append)
  moreover have "drop k stack = []" using assms(4) True by simp
  moreover have "H \<le> length (case sn_nodes (root_of on_level H ?ns) of None \<Rightarrow> [] | Some nx \<Rightarrow> nx)" by (simp add: root_of_def)
  moreover have "sn_height (root_of on_level H ?ns) = of_nat H" by (simp add: root_of_def)
  ultimately show ?thesis unfolding r using True u assms(4) by (simp add: grow_root_def Let_def)
qed

lemma chain_unseen:
  assumes "chain on_level m rest" "t \<notin> set rest" "\<forall>e \<in> set rest. g (fst e) = m (fst e)"
  shows "chain (upto_level t 0) g rest"
  using assms
proof (induction rest)
  case (Cons e rest)
  then show ?case by (cases e) (auto simp: node_of_def upto_rest)
qed simp

lemma chain_insert:
  assumes "chain on_level m (pre @ rest)" "new \<notin> fst ` set (pre @ rest)" "\<forall>e \<in> set (pre @ rest). g (fst e) = m (fst e)"
    "t = (new, x, k)" "g new = Some (node_of on_level x k rest)"
  shows "chain (upto_level t 0) g (pre @ t # rest)"
  using assms(1-3)
proof (induction pre)
  case Nil
  have t: "t \<notin> set rest" using Nil(2) assms(4) by force
  then have "node_of (upto_level t 0) x k rest = node_of on_level x k rest" by (simp add: node_of_def upto_rest)
  then show ?case using chain_unseen [of m rest t g] Nil t assms(4,5) by simp
next
  case (Cons e pre)
  obtain a y h where e: "e = (a, y, h)" by (cases e)
  have t: "t \<notin> set pre" "t \<notin> set rest" using Cons.prems(2) assms(4) by force+
  have "node_of (upto_level t 0) y h (pre @ t # rest) = node_of on_level y h (pre @ rest)"
    using upto_invisible [OF t, of 0] by (simp add: node_of_def)
  then show ?case using Cons e by simp
qed

lemma fresh_store:
  assumes "skip_store on_level m H (pre @ rest)" "new \<noteq> root" "new \<notin> fst ` set (pre @ rest)" "0 < k" "k \<le> 34" "t = (new, x, k)"
  shows "skip_store (upto_level t 0) (m(root \<mapsto> root_of on_level (max H k) (pre @ rest), new \<mapsto> node_of on_level x k rest)) (max H k) (pre @ t # rest)"
proof -
  let ?g = "m(root \<mapsto> root_of on_level (max H k) (pre @ rest), new \<mapsto> node_of on_level x k rest)"
  have s: "chain on_level m (pre @ rest)" "distinct (root # map fst (pre @ rest))" "H < 128"
      "\<forall>e \<in> set (pre @ rest). 0 < height_of e \<and> height_of e \<le> H"
    using assms(1) by (simp_all add: skip_store_on_level)
  have t: "t \<notin> set pre" "t \<notin> set rest" using assms(3,6) by force+
  have g: "\<forall>e \<in> set (pre @ rest). ?g (fst e) = m (fst e)" using s(2) assms(3) by (auto simp: image_iff)
  have "chain (upto_level t 0) ?g (pre @ t # rest)" by (rule chain_insert [OF s(1) assms(3) g assms(6)]) simp
  moreover have "?g root = Some (root_of (upto_level t 0) (max H k) (pre @ t # rest))"
    using upto_invisible [OF t, of 0] assms(2) by (simp add: root_of_def)
  moreover have "distinct (root # map fst (pre @ t # rest))" using s(2) assms(2,3,6) by auto
  moreover have "0 < height_of e \<and> height_of e \<le> max H k" if "e \<in> set (pre @ t # rest)" for e
  proof (cases "e = t")
    case False
    then have "0 < height_of e \<and> height_of e \<le> H" using s(4) that by auto
    then show ?thesis by (simp add: le_max_iff_disj)
  qed (use assms(4,6) in simp)
  ultimately show ?thesis using s(3) assms(5) unfolding skip_store_upto by simp
qed

definition insert_item :: "('a \<Rightarrow> 'a \<Rightarrow> int) \<Rightarrow> 'a \<Rightarrow> 'a list \<Rightarrow> 'a list" where
  "insert_item compare item xs = takeWhile (\<lambda>x. compare x item < 0) xs @ item # dropWhile (\<lambda>x. compare x item < 0) xs"

lemma while_split:
  assumes "\<forall>x \<in> set ys. P x" "takeWhile P zs = []"
  shows "takeWhile P (ys @ zs) = ys" "dropWhile P (ys @ zs) = zs"
proof -
  have "dropWhile P zs = zs" using assms(2) by (cases zs) (auto split: if_splits)
  then show "takeWhile P (ys @ zs) = ys" "dropWhile P (ys @ zs) = zs" using assms by (induction ys) auto
qed

lemma insert_item_split:
  assumes "\<forall>x \<in> set ys. compare x item < 0" "\<forall>x \<in> set zs. 0 < compare x item"
  shows "insert_item compare item (ys @ zs) = ys @ item # zs"
proof -
  have "takeWhile (\<lambda>x. compare x item < 0) zs = []" using assms(2) by (cases zs) auto
  then show ?thesis using while_split [of ys "\<lambda>x. compare x item < 0" zs] assms(1) by (simp add: insert_item_def)
qed

lemma add_search:
  assumes "comparison compare" "skip_store on_level m H ns" "sorted_wrt (\<lambda>x y. compare x y < 0) (map item_of ns)" "H \<le> length stack"
  shows "(\<exists>e \<in> set ns. compare (item_of e) item = 0) \<and> add_loop (\<lambda>x. compare x item) m H root stack = Some None
    \<or> (\<exists>pre rest stack'. ns = pre @ rest \<and> add_loop (\<lambda>x. compare x item) m H root stack = Some (Some stack')
       \<and> (\<forall>e \<in> set pre. compare (item_of e) item < 0) \<and> (\<forall>e \<in> set rest. 0 < compare (item_of e) item)
       \<and> length stack' = length stack \<and> (\<forall>j < H. stack' ! j = Some (pred_at pre j)))"
proof -
  let ?cmp = "\<lambda>x. compare x item"
  have ok: "\<forall>e \<in> set ns. 0 < height_of e \<and> height_of e \<le> H" using assms(2) by (simp add: skip_store_on_level)
  have down: "downward ?cmp ns" by (rule comparison.sorted_downward [OF assms(1,3)])
  have top: "find (on_level H) ns = None" using ok by (force simp: find_None_iff on_level_def)
  have "(\<exists>e \<in> set ns. ?cmp (item_of e) = 0) \<and> add_loop ?cmp m H root stack = Some None
    \<or> (\<exists>ms rest stack'. ns = ms @ rest \<and> add_loop ?cmp m H root stack = Some (Some stack')
       \<and> (\<forall>e \<in> set ms. ?cmp (item_of e) < 0) \<and> (\<forall>e. find (on_level 0) rest = Some e \<longrightarrow> 0 < ?cmp (item_of e))
       \<and> length stack' = length stack \<and> (\<forall>j < H. stack' ! j = Some (pred_at ms j)))"
    using add_loop_finds [of m H "[]" ns ?cmp H stack] assms(2,4) down top by (simp add: cur_def cur_height_def)
  then show ?thesis
  proof (elim disjE exE conjE, goal_cases)
    case (2 ms rest stack')
    have "\<forall>e \<in> set rest. 0 < ?cmp (item_of e)"
    proof (cases rest)
      case (Cons f fs)
      then have "0 < height_of f" using ok 2 by simp
      then have "0 < ?cmp (item_of f)" using 2(4) Cons by (simp add: on_level_def)
      moreover have "sorted_wrt (\<lambda>x y. compare x y < 0) (item_of f # map item_of fs)"
        using assms(3) 2(1) Cons by (simp add: sorted_wrt_append)
      ultimately show ?thesis using comparison.sorted_above [OF assms(1), of "item_of f" "map item_of fs" item] Cons by auto
    qed simp
    then show ?case using 2 by (intro disjI2 exI [of _ ms] exI [of _ rest] exI [of _ stack']) simp
  qed simp
qed

lemma skip_add:
  assumes "comparison compare" "skip_rep compare l xs"
  shows "(\<exists>x \<in> set xs. compare x item = 0) \<and> np_skiplist_add compare z l item = Some (False, l)
    \<or> \<not> (\<exists>x \<in> set xs. compare x item = 0)
      \<and> (\<exists>l'. np_skiplist_add compare z l item = Some (True, l') \<and> skip_rep compare l' (insert_item compare item xs))"
proof -
  let ?m = "sk_mem l" and ?new = "sk_brk l" and ?cmp = "\<lambda>x. compare x item"
  obtain H ns where r: "skip_store on_level ?m H ns" "xs = map item_of ns" "sorted_wrt (\<lambda>x y. compare x y < 0) (map item_of ns)"
      "sk_num_elements l = of_nat (length xs)" "\<forall>a. ?m a \<noteq> None \<longleftrightarrow> a = root \<or> a \<in> fst ` set ns" "\<forall>a. ?m a \<noteq> None \<longrightarrow> a < ?new"
    using assms(2) by (auto simp: skip_rep_def)
  have ok: "?m root = Some (root_of on_level H ns)" "H < 128" using r(1) by (simp_all add: skip_store_on_level)
  obtain k where k: "pick_height z (ucast (sk_num_elements l)) + 1 = of_nat k" "0 < k" "k \<le> 34" by (rule new_height)
  have u: "levels (of_nat H) = H" "unat (of_nat k :: u8) = k" using levels_of_nat ok(2) k(3) by (simp_all add: unat_of_nat)
  define stack where "stack = map (succ_at on_level ns) [0..<H] @ replicate (k - H) None"
  have len: "length stack = max H k" "H \<le> length stack" by (simp_all add: stack_def)
  have fresh: "?new \<noteq> root" "?new \<notin> fst ` set ns" using r(5,6) by auto
  have part: "part_node item k rest 0 = \<lparr>sn_item = Some item, sn_sentinel = False, sn_height = of_nat k, sn_nodes = Some (replicate k None)\<rparr>" for rest
    by (simp add: part_node_def map_replicate_trivial)
  have rt: "sn_height (root_of on_level H ns) = of_nat H"
      "sn_nodes (root_of on_level H ns) = (if H = 0 then None else Some (map (succ_at on_level ns) [0..<H]))"
    by (simp_all add: root_of_def)
  have unf: "np_skiplist_add compare z l item = do {
      found \<leftarrow> add_loop ?cmp ?m H root stack;
      (case found of None \<Rightarrow> Some (False, l) | Some stack1 \<Rightarrow> do {
        (sentinel1, stack2) \<leftarrow> grow_root (of_nat k) (root_of on_level H ns) stack1;
        m2 \<leftarrow> for_each (link_level ?new stack2) [0..<k] (?m(root \<mapsto> sentinel1, ?new \<mapsto> part_node item k [] 0));
        Some (True, l\<lparr>sk_mem := m2, sk_brk := Suc ?new, sk_num_elements := sk_num_elements l + 1\<rparr>) }) }"
    unfolding np_skiplist_add_def Let_def k(1) part u(2) ok(1) Option.bind.bind_lunit rt u(1)
    by (cases "H = 0") (simp_all only: stack_def if_True if_False option.case Option.bind.bind_lunit upt_0 simp_thms
      list.map append_Nil length_map length_upt diff_zero order.refl take_all)
  show ?thesis
    using add_search [OF assms(1) r(1,3) len(2), of item]
  proof (elim disjE exE conjE, goal_cases)
    case 1
    then show ?case using unf r(2) by simp
  next
    case (2 pre rest stack1)
    note 2 = len(1) 2
    let ?t = "(?new, item, k)" and ?ns = "pre @ rest"
    obtain stack2 where g: "grow_root (of_nat k) (root_of on_level H ns) stack1 = Some (root_of on_level (max H k) ns, stack2)"
        "\<forall>j < k. rd stack2 j = Some (Some (pred_at pre j))"
      using grow_root_grows [of ?m H pre rest k stack1] r(1) k 2 by auto
    have st: "skip_store (upto_level ?t 0) (?m(root \<mapsto> root_of on_level (max H k) ns, ?new \<mapsto> node_of on_level item k rest)) (max H k) (pre @ ?t # rest)"
      using fresh_store [of ?m H pre rest ?new k ?t item] r(1) fresh k 2(2) by simp
    obtain g' where l: "skip_store (upto_level ?t k) g' (max H k) (pre @ ?t # rest)"
        "\<forall>a. g' a = None \<longleftrightarrow> (?m(root \<mapsto> root_of on_level (max H k) ns, ?new \<mapsto> node_of on_level item k rest)) a = None"
        "for_each (link_level ?new stack2) [0..<k] (?m(root \<mapsto> root_of on_level (max H k) ns, ?new \<mapsto> part_node item k rest 0))
          = Some (g'(?new \<mapsto> part_node item k rest k))"
      using link_all [OF st refl g(2) order.refl] by (auto simp del: fun_upd_apply)
    have mem: "g' ?new = Some (part_node item k rest k)"
    proof -
      have "g' ?new = Some (node_of (upto_level ?t k) item k rest)"
        using l(1) chain_append [of "upto_level ?t k" g' pre ?new item k rest] by (simp add: skip_store_upto)
      moreover have "map (\<lambda>j. if j < k then succ_at on_level rest j else None) [0..<k] = map (succ_at on_level rest) [0..<k]" by simp
      ultimately show ?thesis by (simp add: upto_top node_of_def part_node_def)
    qed
    let ?l = "l\<lparr>sk_mem := g', sk_brk := Suc ?new, sk_num_elements := sk_num_elements l + 1\<rparr>"
    have "np_skiplist_add compare z l item = Some (True, ?l)"
      using unf 2(3) g(1) l(3) fun_upd_triv [of g' ?new] mem by (simp add: part del: fun_upd_apply fun_upd_triv)
    moreover have "skip_rep compare ?l (insert_item compare item xs)"
    proof -
      have ins: "insert_item compare item xs = map item_of (pre @ ?t # rest)"
        using 2(2,4,5) r(2) insert_item_split [of "map item_of pre" compare item "map item_of rest"] by simp
      have "sorted_wrt (\<lambda>x y. compare x y < 0) (map item_of (pre @ ?t # rest))"
        using 2(4,5) r(3) comparison.anti [OF assms(1), of item] 2(2) by (auto simp: sorted_wrt_append intro: comparison.cmp_less_le [OF assms(1)])
      moreover have "\<forall>a. g' a \<noteq> None \<longleftrightarrow> a = root \<or> a \<in> fst ` set (pre @ ?t # rest)" using r(5) l(2) 2(2) by auto
      moreover have "\<forall>a. g' a \<noteq> None \<longrightarrow> a < Suc ?new" using r(6) l(2) ok(1) fresh(1) by (auto simp: less_Suc_eq)
      moreover have "sk_num_elements l + 1 = of_nat (length (insert_item compare item xs))" unfolding ins using r(2,4) 2(2) by simp
      ultimately show ?thesis unfolding skip_rep_def using l(1) ins upto_top [of ?t k]
        by (intro exI [of _ "max H k"] exI [of _ "pre @ ?t # rest"]) simp
    qed
    moreover have "\<not> (\<exists>x \<in> set xs. compare x item = 0)" using r(2) 2(2,4,5) by auto
    ultimately show ?case by blast
  qed
qed

section \<open>Removing\<close>

lemma unlink_idle:
  assumes "skip_store V m H (pre @ rest)" "0 < r" "r \<le> cur_height H pre" "c \<noteq> 0"
  shows "\<exists>r1 < r. unlink_down m r (cur pre) c gone = Some (m, r1, gone) \<and> find (V r1) rest = find (V (r - 1)) rest"
  using assms(2,3)
proof (induction r rule: nat_less_induct)
  case (1 r)
  have d: "distinct (map fst rest)" using assms(1) by (simp add: skip_store_def)
  have nx: "next_at m (cur pre) (r - 1) = Some (succ_at V rest (r - 1))"
    by (rule cursor_at(1) [OF assms(1)]) (use 1(2,3) in linarith)
  show ?case
  proof (cases "r = 1")
    case True
    then show ?thesis using nx assms(4) by (subst unlink_down.simps) (simp split: option.split)
  next
    case False
    have p: "nodes_at m (cur pre) (r - 2) = Some (succ_at V rest (r - 2))" "nodes_at m (cur pre) (r - 1) = Some (succ_at V rest (r - 1))"
      by (rule cursor_at(2) [OF assms(1)], use False 1(2,3) in linarith)+
    have step: "unlink_down m r (cur pre) c gone =
        (if succ_at V rest (r - 2) = succ_at V rest (r - 1) then unlink_down m (r - 1) (cur pre) c gone else Some (m, r - 1, gone))"
      using False 1(2) nx p assms(4) by (subst unlink_down.simps) (simp split: option.split)
    show ?thesis
    proof (cases "succ_at V rest (r - 2) = succ_at V rest (r - 1)")
      case True
      have lt: "r - 1 < r" "0 < r - 1" "r - 1 \<le> cur_height H pre" using False 1(2,3) by linarith+
      obtain r1 where ih: "r1 < r - 1" "unlink_down m (r - 1) (cur pre) c gone = Some (m, r1, gone)" "find (V r1) rest = find (V (r - 1 - 1)) rest"
        using 1(1) [rule_format, OF lt] by blast
      have "r - 1 - 1 = r - 2" by simp
      then have "find (V r1) rest = find (V (r - 1)) rest" using ih(3) succ_at_eq [OF d True] by simp
      then show ?thesis using ih(1,2) step True by (intro exI [of _ r1]) simp
    next
      case False
      then show ?thesis using step 1(2) by (intro exI [of _ "r - 1"]) simp
    qed
  qed
qed

lemma unlink_target:
  assumes "skip_store (upto_level t (Suc i)) m H (pre @ q @ t # post)" "i < cur_height H pre" "i < height_of t" "\<not> (\<exists>e \<in> set q. i < height_of e)"
  shows "\<exists>m'. unlink_down m (Suc i) (cur pre) 0 gone = Some (m', i, Some (fst t)) \<and> skip_store (upto_level t i) m' H (pre @ q @ t # post)
    \<and> (\<forall>a. m' a = None \<longleftrightarrow> m a = None)"
proof -
  let ?V = "upto_level t (Suc i)" and ?W = "upto_level t i"
  obtain a x h where t: "t = (a, x, h)" by (cases t)
  have s: "m root = Some (root_of ?V H ((pre @ q) @ t # post))" "chain ?V m ((pre @ q) @ t # post)"
      "distinct (root # map fst ((pre @ q) @ t # post))" "H < 128" "\<forall>e \<in> set ((pre @ q) @ t # post). 0 < height_of e \<and> height_of e \<le> H"
    using assms(1) by (simp_all add: skip_store_upto)
  have iH: "i < H" using assms(3) s(5) by auto
  have q: "find (?V i) q = None" "find (?W i) q = None" using assms(4) unfolding find_None_iff upto_level_def by blast+
  have u: "pred_at (pre @ q) i = cur pre" using assms(4) pred_at_cur [OF assms(2)] by (simp add: pred_at_append)
  obtain m' where m': "set_next (cur pre) i (succ_at ?W (t # post) i) m = Some m'" "m' root = Some (root_of ?W H ((pre @ q) @ t # post))"
      "chain ?W m' ((pre @ q) @ t # post)" "\<And>b. b \<noteq> cur pre \<Longrightarrow> m' b = m b"
    using relink [OF s(1-3) upto_toggled(2) iH] u by metis
  have store: "skip_store ?W m' H (pre @ q @ t # post)" using m'(2,3) s(3-5) by (simp add: skip_store_upto)
  have "next_at m (cur pre) i = Some (succ_at ?V (q @ t # post) i)" by (rule cursor_at(1) [OF assms(1,2)])
  moreover have "succ_at ?V (q @ t # post) i = Some (fst t)" using q(1) assms(3) by (simp add: succ_at_def find_append2 upto_level_def)
  moreover have "nodes_at m (fst t) i = Some (succ_at ?W (t # post) i)"
  proof -
    have "m a = Some (node_of ?V x h post)" using chain_append [of ?V m "pre @ q" a x h post] s(2) t by simp
    moreover have "t \<notin> set post" using s(3) by auto
    ultimately show ?thesis using assms(3) t upto_rest [of t post "Suc i" i] upto_rest [of t post i i]
      by (simp add: nodes_at_def node_of_def rd_def succ_at_def upto_level_def)
  qed
  moreover have "0 < i \<Longrightarrow> nodes_at m' (cur pre) (i - 1) = Some (succ_at ?W (q @ t # post) (i - 1))"
      "0 < i \<Longrightarrow> nodes_at m' (cur pre) i = Some (succ_at ?W (q @ t # post) i)"
    using assms(2) by (auto intro: cursor_at(2) [OF store])
  moreover have "0 < i \<Longrightarrow> succ_at ?W (q @ t # post) (i - 1) \<noteq> succ_at ?W (q @ t # post) i"
  proof
    assume i: "0 < i" and eq: "succ_at ?W (q @ t # post) (i - 1) = succ_at ?W (q @ t # post) i"
    have d: "distinct (map fst (q @ t # post))" using s(3) by simp
    have "find (?W i) (t # post) = find (?W i) post" by (simp add: upto_level_def)
    then have "find (?W (i - 1)) (q @ t # post) = find (?W i) post" using succ_at_eq [OF d eq] q(2) by (simp add: find_append2)
    moreover have "?W (i - 1) t" using i assms(3) by (simp add: upto_level_def)
    then have "find (?W (i - 1)) (q @ [t]) \<noteq> None" unfolding find_None_iff set_append list.set by blast
    then obtain e where e: "find (?W (i - 1)) (q @ [t]) = Some e" by blast
    ultimately have e2: "find (?W i) post = Some e" using find_append2 [of "?W (i - 1)" "q @ [t]" post] by simp
    have "e \<in> set (q @ [t])" by (rule find_splits [OF e]) (metis in_set_conv_decomp)
    moreover have "e \<in> set post" by (rule find_splits [OF e2]) (metis in_set_conv_decomp)
    ultimately have "e \<in> set (q @ [t])" "e \<in> set post" .
    then show False using d by (auto simp: distinct_map)
  qed
  ultimately have "unlink_down m (Suc i) (cur pre) 0 gone = Some (m', i, Some (fst t))"
    using m'(1) by (subst unlink_down.simps) (simp add: numeral_2_eq_2)
  moreover have "m (cur pre) \<noteq> None" "m' (cur pre) \<noteq> None" using m'(1) by (auto simp: set_next_def bind_eq_Some_conv)
  then have "\<forall>b. m' b = None \<longleftrightarrow> m b = None" using m'(4) by metis
  ultimately show ?thesis using store by blast
qed

lemma find_in: "find P xs = Some e \<Longrightarrow> e \<in> set xs \<and> P e"
  by (induction xs) (auto split: if_splits)

lemma remove_absent:
  assumes "skip_store V m H (pre @ rest)" "downward cmp (pre @ rest)" "r \<le> cur_height H pre" "above V cmp r rest c"
    "\<forall>e \<in> set rest. cmp (item_of e) \<noteq> 0"
  shows "remove_loop cmp m r (cur pre) c gone = Some (m, gone)"
  using assms
proof (induction r arbitrary: pre rest c rule: less_induct)
  case (less r)
  show ?case
  proof (cases "r = 0")
    case False
    obtain ms rest' c' where g: "rest = ms @ rest'" "go_right cmp m r (cur pre) c = Some (cur (pre @ ms), c')"
        "r \<le> cur_height H (pre @ ms)" "\<forall>e \<in> set ms. cmp (item_of e) < 0" "above V cmp (r - 1) rest' c'"
      using level_moves [OF less.prems(1,2) _ less.prems(3,4)] False by blast
    have store: "skip_store V m H ((pre @ ms) @ rest')" "downward cmp ((pre @ ms) @ rest')" using less.prems(1,2) g(1) by simp_all
    have c: "c' \<noteq> 0"
    proof (cases "find (V (r - 1)) rest'")
      case (Some e)
      then show ?thesis using g(1,5) less.prems(5) find_in [OF Some] by (simp add: above_def)
    qed (use g(5) in \<open>simp add: above_def\<close>)
    obtain r1 where r1: "r1 < r" "unlink_down m r (cur (pre @ ms)) c' gone = Some (m, r1, gone)" "find (V r1) rest' = find (V (r - 1)) rest'"
      using unlink_idle [OF store(1) _ g(3) c, of gone] False by blast
    have "remove_loop cmp m r1 (cur (pre @ ms)) c' gone = Some (m, gone)"
      using less.IH [OF r1(1) store] g(1,3,5) r1(1,3) less.prems(5) by (simp add: above_def)
    then show ?thesis using False g(2) r1(2) by (subst remove_loop.simps) simp
  qed (simp add: remove_loop.simps)
qed

lemma split_before:
  assumes "pre @ rest = A @ t # B" "t \<notin> set pre"
  obtains q where "A = pre @ q" "rest = q @ t # B"
proof -
  from assms(1) consider us where "A = pre @ us" "rest = us @ t # B" | us where "pre = A @ us" "us @ rest = t # B"
    unfolding append_eq_append_conv2 by blast
  then show ?thesis
  proof cases
    case 2
    then have "us = []" using assms(2) by (cases us) auto
    then show ?thesis using 2 that [of "[]"] by simp
  qed (rule that)
qed

text \<open>One round of the outer loop when the item is in the list.\<close>

lemma remove_round:
  assumes "skip_store (upto_level t r) m H (pre @ rest)" "downward cmp (pre @ rest)" "0 < r" "r \<le> cur_height H pre"
    "pre @ rest = A @ t # B" "\<forall>e \<in> set pre. cmp (item_of e) < 0"
    "cmp (item_of t) = 0" "\<forall>e \<in> set A. cmp (item_of e) < 0" "\<forall>e \<in> set B. 0 < cmp (item_of e)"
    "r < height_of t \<or> above (upto_level t r) cmp r rest c" "gone = (if r < height_of t then Some (fst t) else None)"
  shows "\<exists>ms rest' c' m' r1 gone'. rest = ms @ rest' \<and> go_right cmp m r (cur pre) c = Some (cur (pre @ ms), c')
    \<and> unlink_down m r (cur (pre @ ms)) c' gone = Some (m', r1, gone') \<and> r1 < r \<and> r1 \<le> cur_height H (pre @ ms)
    \<and> (\<forall>e \<in> set ms. cmp (item_of e) < 0) \<and> skip_store (upto_level t r1) m' H (pre @ rest)
    \<and> (r1 < height_of t \<or> above (upto_level t r1) cmp r1 rest' c') \<and> gone' = (if r1 < height_of t then Some (fst t) else None)
    \<and> (\<forall>a. m' a = None \<longleftrightarrow> m a = None)"
proof (cases "r - 1 < height_of t")
  case True
  let ?V = "upto_level t r"
  obtain ms rest' c' where g: "rest = ms @ rest'" "go_right cmp m r (cur pre) c = Some (cur (pre @ ms), c')"
      "r \<le> cur_height H (pre @ ms)" "\<forall>e \<in> set ms. cmp (item_of e) < 0"
      "case find (?V (r - 1)) rest' of None \<Rightarrow> ms = [] \<and> c' = c \<or> c' < 0 | Some e \<Rightarrow> c' = cmp (item_of e) \<and> 0 \<le> c'"
    using go_right_moves [OF assms(1-4), of c] by blast
  have "t \<notin> set (pre @ ms)" using assms(6,7) g(4) by auto
  then obtain q where q: "A = (pre @ ms) @ q" "rest' = q @ t # B"
    using split_before [of "pre @ ms" rest' A t B] assms(5) g(1) by auto
  have none: "find (?V (r - 1)) q = None"
  proof (cases "find (?V (r - 1)) q")
    case (Some e)
    then have "cmp (item_of e) < 0" "0 \<le> cmp (item_of e)" using find_in [OF Some] g(5) q assms(8) by (simp_all add: find_append2)
    then show ?thesis by simp
  qed
  have vis: "?V (r - 1) t" using True assms(3) by (simp add: upto_level_def)
  have c: "c' = 0" using g(5) none q(2) vis assms(7) by (simp add: find_append2)
  obtain i where i: "r = Suc i" using assms(3) by (cases r) simp
  have low: "\<not> (\<exists>e \<in> set q. i < height_of e)"
  proof
    assume "\<exists>e \<in> set q. i < height_of e"
    then obtain e where e: "e \<in> set q" "i < height_of e" by blast
    moreover have "t \<notin> set A" using assms(7,8) by (metis less_irrefl)
    ultimately have "e \<noteq> t" using q(1) by auto
    then have "?V (r - 1) e" using e(2) i by (simp add: upto_level_def)
    then show False using none e(1) unfolding find_None_iff by blast
  qed
  have store: "skip_store (upto_level t (Suc i)) m H ((pre @ ms) @ q @ t # B)" using assms(1) g(1) q(2) i by simp
  obtain m' where "unlink_down m (Suc i) (cur (pre @ ms)) 0 gone = Some (m', i, Some (fst t))"
      "skip_store (upto_level t i) m' H ((pre @ ms) @ q @ t # B)" "\<forall>a. m' a = None \<longleftrightarrow> m a = None"
    using unlink_target [OF store _ _ low, of gone] g(3) i True by auto
  then show ?thesis using g(1-4) c i q(2) True
    by (intro exI [of _ ms] exI [of _ rest'] exI [of _ c'] exI [of _ m'] exI [of _ i] exI [of _ "Some (fst t)"]) simp
next
  case False
  let ?V = "upto_level t r"
  obtain ms rest' c' where g: "rest = ms @ rest'" "go_right cmp m r (cur pre) c = Some (cur (pre @ ms), c')"
      "r \<le> cur_height H (pre @ ms)" "\<forall>e \<in> set ms. cmp (item_of e) < 0" "above ?V cmp (r - 1) rest' c'"
    using level_moves [OF assms(1-4)] assms(10) False by (metis One_nat_def diff_less less_imp_diff_less zero_less_one)
  have "t \<notin> set (pre @ ms)" using assms(6,7) g(4) by auto
  then obtain q where q: "A = (pre @ ms) @ q" "rest' = q @ t # B"
    using split_before [of "pre @ ms" rest' A t B] assms(5) g(1) by auto
  have unseen: "e \<in> set B" if f: "find (?V (r - 1)) rest' = Some e" for e
  proof -
    have "\<not> cmp (item_of e) < 0" "e \<noteq> t" "e \<in> set (q @ t # B)"
      using find_in [OF f] q(2) g(5) f False by (auto simp: above_def upto_level_def)
    moreover from this have "e \<notin> set A" using assms(8) by blast
    ultimately show ?thesis using q(1) by simp
  qed
  have c: "c' \<noteq> 0"
  proof (cases "find (?V (r - 1)) rest'")
    case (Some e)
    then show ?thesis using unseen [OF Some] g(5) assms(9) by (auto simp: above_def)
  qed (use g(5) in \<open>simp add: above_def\<close>)
  have store: "skip_store ?V m H ((pre @ ms) @ rest')" using assms(1) g(1) by simp
  obtain r1 where r1: "r1 < r" "unlink_down m r (cur (pre @ ms)) c' gone = Some (m, r1, gone)" "find (?V r1) rest' = find (?V (r - 1)) rest'"
    using unlink_idle [OF store assms(3) g(3) c] by blast
  have low: "height_of t \<le> r1"
  proof (rule ccontr)
    assume "\<not> height_of t \<le> r1"
    then have "?V r1 t" using r1(1) by (simp add: upto_level_def)
    then have "find (?V r1) (q @ [t]) \<noteq> None" unfolding find_None_iff set_append list.set by blast
    then obtain e where e: "find (?V r1) (q @ [t]) = Some e" by blast
    then have "find (?V (r - 1)) rest' = Some e" using r1(3) q(2) find_append2 [of "?V r1" "q @ [t]" B] by simp
    then have "0 < cmp (item_of e)" using unseen assms(9) by blast
    moreover have "e \<in> set A \<or> e = t" using find_in [OF e] q(1) by auto
    ultimately show False using assms(7,8) by (metis less_asym less_irrefl)
  qed
  then have same: "upto_level t r1 = ?V" using upto_top [of t r1] upto_top [of t r] r1(1) by simp
  then show ?thesis using g r1 low assms(1,11)
    by (intro exI [of _ ms] exI [of _ rest'] exI [of _ c'] exI [of _ m] exI [of _ r1] exI [of _ gone]) (simp add: above_def)
qed

lemma remove_present:
  assumes "skip_store (upto_level t r) m H (pre @ rest)" "downward cmp (pre @ rest)" "r \<le> cur_height H pre"
    "pre @ rest = A @ t # B" "\<forall>e \<in> set pre. cmp (item_of e) < 0"
    "cmp (item_of t) = 0" "\<forall>e \<in> set A. cmp (item_of e) < 0" "\<forall>e \<in> set B. 0 < cmp (item_of e)"
    "r < height_of t \<or> above (upto_level t r) cmp r rest c" "gone = (if r < height_of t then Some (fst t) else None)"
  shows "\<exists>m'. remove_loop cmp m r (cur pre) c gone = Some (m', Some (fst t)) \<and> skip_store (upto_level t 0) m' H (A @ t # B)
    \<and> (\<forall>a. m' a = None \<longleftrightarrow> m a = None)"
  using assms
proof (induction r arbitrary: pre rest c gone m rule: less_induct)
  case (less r)
  show ?case
  proof (cases "r = 0")
    case True
    have "0 < height_of t" using less.prems(1,4) by (simp add: skip_store_upto)
    then show ?thesis using True less.prems(1,4,10) by (simp add: remove_loop.simps)
  next
    case False
    then have "0 < r" by simp
    from remove_round [OF less.prems(1,2) this less.prems(3-10)]
    obtain ms rest' c' m1 r1 gone1 where g: "rest = ms @ rest'" "go_right cmp m r (cur pre) c = Some (cur (pre @ ms), c')"
        "unlink_down m r (cur (pre @ ms)) c' gone = Some (m1, r1, gone1)" "r1 < r" "r1 \<le> cur_height H (pre @ ms)"
        "\<forall>e \<in> set ms. cmp (item_of e) < 0" "skip_store (upto_level t r1) m1 H (pre @ rest)"
        "r1 < height_of t \<or> above (upto_level t r1) cmp r1 rest' c'" "gone1 = (if r1 < height_of t then Some (fst t) else None)"
        "\<forall>a. m1 a = None \<longleftrightarrow> m a = None" by blast
    have pre: "skip_store (upto_level t r1) m1 H ((pre @ ms) @ rest')" "downward cmp ((pre @ ms) @ rest')" "(pre @ ms) @ rest' = A @ t # B"
        "\<forall>e \<in> set (pre @ ms). cmp (item_of e) < 0"
      using g(1,6,7) less.prems(2,4,5) by auto
    obtain m' where "remove_loop cmp m1 r1 (cur (pre @ ms)) c' gone1 = Some (m', Some (fst t))" "skip_store (upto_level t 0) m' H (A @ t # B)"
        "\<forall>a. m' a = None \<longleftrightarrow> m1 a = None"
      using less.IH [OF g(4) pre(1,2) g(5) pre(3,4) less.prems(6-8) g(8,9)] by blast
    then show ?thesis using False g(2,3,10) by (intro exI [of _ m']) (subst remove_loop.simps, simp)
  qed
qed

lemma chain_seen:
  assumes "chain (upto_level t i) m rest" "t \<notin> set rest" "\<forall>e \<in> set rest. g (fst e) = m (fst e)"
  shows "chain on_level g rest"
  using assms
proof (induction rest)
  case (Cons e rest)
  then show ?case by (cases e) (auto simp: node_of_def upto_rest)
qed simp

lemma chain_delete:
  assumes "chain (upto_level t 0) m (pre @ t # rest)" "t \<notin> set pre" "t \<notin> set rest" "\<forall>e \<in> set (pre @ rest). g (fst e) = m (fst e)"
  shows "chain on_level g (pre @ rest)"
  using assms
proof (induction pre)
  case Nil
  then show ?case using chain_seen [of t 0 m rest g] by (cases t) simp
next
  case (Cons e pre)
  obtain a y h where e: "e = (a, y, h)" by (cases e)
  have "node_of (upto_level t 0) y h (pre @ t # rest) = node_of on_level y h (pre @ rest)"
    using upto_invisible [of t pre rest 0] Cons.prems(2,3) by (simp add: node_of_def)
  then show ?case using Cons e by simp
qed

lemma removed_store:
  assumes "skip_store (upto_level t 0) m H (pre @ t # rest)"
  shows "skip_store on_level (m(fst t := None)) H (pre @ rest)"
proof -
  have s: "m root = Some (root_of (upto_level t 0) H (pre @ t # rest))" "chain (upto_level t 0) m (pre @ t # rest)"
      "distinct (root # map fst (pre @ t # rest))" "H < 128" "\<forall>e \<in> set (pre @ t # rest). 0 < height_of e \<and> height_of e \<le> H"
    using assms by (simp_all add: skip_store_upto)
  have t: "t \<notin> set pre" "t \<notin> set rest" "fst t \<noteq> root" "fst t \<notin> fst ` set (pre @ rest)" using s(3) by auto
  have "\<forall>e \<in> set (pre @ rest). (m(fst t := None)) (fst e) = m (fst e)" using t(4) by (metis fun_upd_other image_eqI)
  then have "chain on_level (m(fst t := None)) (pre @ rest)" by (rule chain_delete [OF s(2) t(1,2)])
  moreover have "(m(fst t := None)) root = Some (root_of on_level H (pre @ rest))"
    using s(1) t(3) upto_invisible [OF t(1,2), of 0] by (simp add: root_of_def)
  moreover have "\<forall>e \<in> set (pre @ rest). 0 < height_of e \<and> height_of e \<le> H" using s(5) by (metis Un_iff set_append list.set_intros(2))
  ultimately show ?thesis using s(3,4) by (simp add: skip_store_on_level)
qed

lemma sorted_around:
  assumes "comparison compare" "sorted_wrt (\<lambda>x y. compare x y < 0) (map item_of (A @ t # B))" "compare (item_of t) item = 0"
  shows "\<forall>e \<in> set A. compare (item_of e) item < 0" "\<forall>e \<in> set B. 0 < compare (item_of e) item"
proof -
  have "compare (item_of e) (item_of t) < 0" if "e \<in> set A" for e using assms(2) that by (simp add: sorted_wrt_append)
  then show "\<forall>e \<in> set A. compare (item_of e) item < 0" using comparison.cmp_less_le [OF assms(1)] assms(3) by (metis order.refl)
  have "sorted_wrt (\<lambda>x y. compare x y < 0) (item_of t # map item_of B)" using assms(2) by (simp add: sorted_wrt_append)
  then show "\<forall>e \<in> set B. 0 < compare (item_of e) item"
    using comparison.sorted_above [OF assms(1), of "item_of t" "map item_of B" item] assms(3) by auto
qed

lemma skip_remove:
  assumes "comparison compare" "skip_rep compare l xs"
  shows "\<exists>l'. np_skiplist_remove compare l item = Some (\<exists>x \<in> set xs. compare x item = 0, l')
    \<and> skip_rep compare l' (filter (\<lambda>x. compare x item \<noteq> 0) xs)"
proof -
  let ?m = "sk_mem l" and ?cmp = "\<lambda>x. compare x item"
  obtain H ns where r: "skip_store on_level ?m H ns" "xs = map item_of ns" "sorted_wrt (\<lambda>x y. compare x y < 0) (map item_of ns)"
      "sk_num_elements l = of_nat (length xs)" "\<forall>a. ?m a \<noteq> None \<longleftrightarrow> a = root \<or> a \<in> fst ` set ns" "\<forall>a. ?m a \<noteq> None \<longrightarrow> a < sk_brk l"
    using assms(2) by (auto simp: skip_rep_def)
  have ok: "?m root = Some (root_of on_level H ns)" "\<forall>e \<in> set ns. 0 < height_of e \<and> height_of e \<le> H" "levels (of_nat H) = H"
    using r(1) levels_of_nat by (simp_all add: skip_store_on_level)
  have down: "downward ?cmp ns" by (rule comparison.sorted_downward [OF assms(1) r(3)])
  have top: "above on_level ?cmp H ns (- 1)" using find_level_top [of ns H H] ok(2) by (simp add: above_def)
  have rem: "np_skiplist_remove compare l item = do { (m, gone) \<leftarrow> remove_loop ?cmp ?m H root (- 1) None;
      (case gone of None \<Rightarrow> Some (False, l\<lparr>sk_mem := m\<rparr>)
       | Some v \<Rightarrow> Some (True, l\<lparr>sk_mem := m(v := None), sk_num_elements := sk_num_elements l - 1\<rparr>)) }"
    using ok by (simp add: np_skiplist_remove_def root_of_def)
  show ?thesis
  proof (cases "\<exists>e \<in> set ns. ?cmp (item_of e) = 0")
    case False
    then have "remove_loop ?cmp ?m H root (- 1) None = Some (?m, None)"
      using remove_absent [of on_level ?m H "[]" ns ?cmp H "- 1" None] r(1) down top by (simp add: cur_def cur_height_def)
    moreover have "filter (\<lambda>x. ?cmp x \<noteq> 0) xs = xs" "\<not> (\<exists>x \<in> set xs. ?cmp x = 0)" using False r(2) by (auto simp: filter_id_conv)
    ultimately show ?thesis using rem assms(2) by simp
  next
    case True
    then obtain t A B where t: "ns = A @ t # B" "?cmp (item_of t) = 0" by (metis split_list)
    have ab: "\<forall>e \<in> set A. ?cmp (item_of e) < 0" "\<forall>e \<in> set B. 0 < ?cmp (item_of e)"
      using sorted_around [OF assms(1), of A t B item] r(3) t by simp_all
    have tH: "height_of t \<le> H" using ok(2) t(1) by simp
    have up: "upto_level t H = on_level" by (rule upto_top [OF tH])
    have "\<exists>m'. remove_loop ?cmp ?m H (cur ([] :: 'a elem list)) (- 1) None = Some (m', Some (fst t)) \<and> skip_store (upto_level t 0) m' H (A @ t # B)
        \<and> (\<forall>a. m' a = None \<longleftrightarrow> ?m a = None)"
      by (rule remove_present [of t H ?m H "[]" ns ?cmp A B])
        (use up r(1) down t ab top tH in \<open>simp_all add: cur_height_def\<close>)
    then obtain m' where m': "remove_loop ?cmp ?m H root (- 1) None = Some (m', Some (fst t))" "skip_store (upto_level t 0) m' H (A @ t # B)"
        "\<forall>a. m' a = None \<longleftrightarrow> ?m a = None" by (auto simp: cur_def)
    let ?l = "l\<lparr>sk_mem := m'(fst t := None), sk_num_elements := sk_num_elements l - 1\<rparr>"
    have "filter (\<lambda>x. ?cmp x \<noteq> 0) (map item_of A) = map item_of A" "filter (\<lambda>x. ?cmp x \<noteq> 0) (map item_of B) = map item_of B"
      using ab by (auto simp: filter_id_conv)
    then have fil: "filter (\<lambda>x. ?cmp x \<noteq> 0) xs = map item_of (A @ B)" using r(2) t by simp
    have d: "fst t \<noteq> root" "fst t \<notin> fst ` set (A @ B)" using r(1) t(1) by (auto simp: skip_store_on_level)
    have mem: "sk_mem ?l = m'(fst t := None)" "sk_brk ?l = sk_brk l" by simp_all
    have dom: "m' a \<noteq> None \<longleftrightarrow> a = root \<or> a = fst t \<or> a \<in> fst ` set (A @ B)" for a
      using spec [OF r(5), of a] spec [OF m'(3), of a] t(1) by simp
    have "skip_rep compare ?l (map item_of (A @ B))" unfolding skip_rep_def
    proof (intro exI [of _ H] exI [of _ "A @ B"] conjI)
      show "skip_store on_level (sk_mem ?l) H (A @ B)" using removed_store [OF m'(2)] by simp
      show "sorted_wrt (\<lambda>x y. compare x y < 0) (map item_of (A @ B))" using r(3) t(1) by (simp add: sorted_wrt_append)
      show "sk_num_elements ?l = of_nat (length (map item_of (A @ B)))" using r(2,4) t(1) by simp
      show "\<forall>a. sk_mem ?l a \<noteq> None \<longleftrightarrow> a = root \<or> a \<in> fst ` set (A @ B)"
        unfolding mem using dom d by (metis fun_upd_apply)
      show "\<forall>a. sk_mem ?l a \<noteq> None \<longrightarrow> a < sk_brk ?l" unfolding mem using r(6) m'(3) by (metis fun_upd_apply)
    qed simp
    moreover have "\<exists>x \<in> set xs. ?cmp x = 0" using r(2) t by simp
    ultimately show ?thesis using rem m'(1) fil by auto
  qed
qed

section \<open>Walking and destroying\<close>

fun visit :: "('a option \<Rightarrow> 's \<Rightarrow> bool \<times> 's) \<Rightarrow> 'a option list \<Rightarrow> 's \<Rightarrow> 's" where
  "visit mp [] s = s"
| "visit mp (x # xs) s = (if fst (mp x s) then visit mp xs (snd (mp x s)) else snd (mp x s))"

lemma element_node: "chain V m (pre @ e # rest) \<Longrightarrow> m (fst e) = Some (node_of V (item_of e) (height_of e) rest)"
  using chain_append [of V m pre "fst e" "item_of e" "height_of e" rest] by (simp add: item_of_def height_of_def)

lemma map_loop_visits:
  fixes rest :: "'a elem list"
  assumes "skip_store on_level m H (pre @ rest)"
  shows "map_loop mp m bs (Some (cur pre)) = Some (if fst bs then visit mp (map (Some \<circ> item_of) rest) (snd bs) else snd bs)"
  using assms
proof (induction rest arbitrary: pre bs)
  case Nil
  obtain n where n: "m (cur pre) = Some n" "0 < cur_height H pre \<longrightarrow> sn_nodes n = Some (map (succ_at on_level ([] :: 'a elem list)) [0..<cur_height H pre])"
    by (rule cursor_node [OF Nil]) (rule that, assumption, simp)
  show ?case
  proof (cases "cur_height H pre = 0")
    case True
    have "\<forall>e \<in> set pre. 0 < height_of e" "m root = Some (root_of on_level H pre)" using Nil by (simp_all add: skip_store_on_level)
    moreover from this have "pre = []" using True last_in_set [of pre] by (metis cur_height_def less_irrefl)
    ultimately have "sn_nodes n = None" using True n(1) by (auto simp: cur_height_def cur_def root_of_def)
    then show ?thesis using n(1) by (subst map_loop.simps) simp
  next
    case False
    then have "map_loop mp m bs (Some (cur pre)) = (if fst bs then map_loop mp m (False, snd bs) None else Some (snd bs))"
      using n by (subst map_loop.simps) (simp add: rd_def succ_at_def)
    then show ?thesis by (simp add: map_loop.simps)
  qed
next
  case (Cons e rest)
  have h: "0 < height_of e" "height_of e \<le> H" "chain on_level m (pre @ e # rest)" "\<forall>e \<in> set pre. 0 < height_of e"
    using Cons.prems by (simp_all add: skip_store_on_level)
  then have pos: "0 < cur_height H pre" by (auto simp: cur_height_def)
  obtain n where n: "m (cur pre) = Some n" "sn_nodes n = Some (map (succ_at on_level (e # rest)) [0..<cur_height H pre])"
    by (rule cursor_node [OF Cons.prems]) (use pos in auto)
  have e: "rd (map (succ_at on_level (e # rest)) [0..<cur_height H pre]) 0 = Some (Some (fst e))"
    using pos h(1) by (simp add: rd_def succ_at_def on_level_def)
  have "map_loop mp m bs2 (Some (cur (pre @ [e]))) = Some (if fst bs2 then visit mp (map (Some \<circ> item_of) rest) (snd bs2) else snd bs2)" for bs2
    using Cons.IH [of "pre @ [e]"] Cons.prems by simp
  then have ih: "map_loop mp m bs2 (Some (fst e)) = Some (if fst bs2 then visit mp (map (Some \<circ> item_of) rest) (snd bs2) else snd bs2)" for bs2
    by (simp add: cur_def)
  show ?case using n e element_node [OF h(3)] ih by (subst map_loop.simps) (simp add: node_of_def)
qed

lemma skip_map:
  assumes "comparison compare" "skip_rep compare l xs"
  shows "np_skiplist_map (\<lambda>x. compare x item) mp l s = (let smaller = takeWhile (\<lambda>x. compare x item < 0) xs in
    Some (visit mp ((if smaller = [] then None else Some (last smaller)) # map Some (dropWhile (\<lambda>x. compare x item < 0) xs)) s))"
proof -
  let ?m = "sk_mem l" and ?cmp = "\<lambda>x. compare x item"
  obtain H ms rest c where f: "skip_store on_level ?m H (ms @ rest)" "xs = map item_of (ms @ rest)"
      "find_loop ?cmp ?m H root (- 1) = Some (cur ms, c)" "\<forall>e \<in> set ms. ?cmp (item_of e) < 0" "above on_level ?cmp 0 rest c"
    by (rule skip_search [OF assms, of item])
  have ok: "?m root = Some (root_of on_level H (ms @ rest))" "\<forall>e \<in> set (ms @ rest). 0 < height_of e" "levels (of_nat H) = H"
      "chain on_level ?m (ms @ rest)"
    using f(1) levels_of_nat by (simp_all add: skip_store_on_level)
  have "takeWhile (\<lambda>x. ?cmp x < 0) (map item_of rest) = []"
    using f(5) ok(2) by (cases rest) (auto simp: above_def on_level_def split: if_splits)
  then have split: "takeWhile (\<lambda>x. ?cmp x < 0) xs = map item_of ms" "dropWhile (\<lambda>x. ?cmp x < 0) xs = map item_of rest"
    using while_split [of "map item_of ms" "\<lambda>x. ?cmp x < 0" "map item_of rest"] f(2,4) by (simp_all only: map_append set_map ball_simps)
  have "map_option sn_item (?m (cur ms)) = Some (if ms = [] then None else Some (item_of (last ms)))"
  proof (cases ms rule: rev_cases)
    case Nil
    then show ?thesis using ok(1) by (simp add: cur_def root_of_def)
  next
    case (snoc ys e)
    then show ?thesis using element_node [of on_level ?m ys e rest] ok(4) by (simp add: cur_def node_of_def)
  qed
  then obtain n where n: "?m (cur ms) = Some n" "sn_item n = (if ms = [] then None else Some (item_of (last ms)))" by auto
  have "np_skiplist_map ?cmp mp l s = map_loop mp ?m (mp (sn_item n) s) (Some (cur ms))"
    using f(3) ok(1,3) n(1) by (simp add: np_skiplist_map_def root_of_def)
  also have "\<dots> = Some (visit mp (sn_item n # map Some (map item_of rest)) s)" by (simp add: map_loop_visits [OF f(1)])
  also have "sn_item n = (if map item_of ms = [] then None else Some (last (map item_of ms)))" using n(2) by (simp add: last_map)
  finally show ?thesis unfolding Let_def split .
qed

lemma chain_cong: "\<forall>e \<in> set ns. g (fst e) = m (fst e) \<Longrightarrow> chain V m ns \<Longrightarrow> chain V g ns"
  by (induction ns) auto

lemma destroy_elements:
  assumes "chain on_level m ns" "\<forall>e \<in> set ns. 0 < height_of e" "distinct (map fst ns)" "length ns < 2 ^ 64"
  shows "destroy_nodes m (of_nat (length ns)) (succ_at on_level ns 0) = Some (m |` (- fst ` set ns))"
  using assms
proof (induction ns arbitrary: m)
  case Nil
  then show ?case by (subst destroy_nodes.simps) (simp add: restrict_map_def)
next
  case (Cons e ns)
  let ?g = "m(fst e := None)"
  have e: "m (fst e) = Some (node_of on_level (item_of e) (height_of e) ns)" using element_node [of on_level m "[]"] Cons.prems(1) by simp
  have "chain on_level m ns" using Cons.prems(1) by (cases e) simp
  moreover have "\<forall>f \<in> set ns. ?g (fst f) = m (fst f)" using Cons.prems(3) by (metis distinct.simps(2) fun_upd_other image_eqI list.map(2) set_map)
  ultimately have "chain on_level ?g ns" by (rule chain_cong [rotated])
  then have ih: "destroy_nodes ?g (of_nat (length ns)) (succ_at on_level ns 0) = Some (?g |` (- fst ` set ns))"
    by (rule Cons.IH) (use Cons.prems(2-4) in simp_all)
  have "unat (of_nat (Suc (length ns)) :: u64) = Suc (length ns)"
    using Cons.prems(4) by (simp add: unat_of_nat take_bit_nat_eq_self del: of_nat_Suc)
  then have "(of_nat (length (e # ns)) :: u64) > 0" by (simp add: word_less_nat_alt del: of_nat_Suc)
  moreover have "(of_nat (length (e # ns)) :: u64) - 1 = of_nat (length ns)" by simp
  moreover have "succ_at on_level (e # ns) 0 = Some (fst e)" using Cons.prems(2) by (simp add: succ_at_def on_level_def)
  moreover have "nodes_at m (fst e) 0 = Some (succ_at on_level ns 0)" using e Cons.prems(2) by (simp add: nodes_at_def node_of_def rd_def)
  ultimately have "destroy_nodes m (of_nat (length (e # ns))) (succ_at on_level (e # ns) 0) = destroy_nodes ?g (of_nat (length ns)) (succ_at on_level ns 0)"
    using e by (subst destroy_nodes.simps) (simp add: node_of_def del: of_nat_Suc)
  moreover have "?g |` (- fst ` set ns) = m |` (- fst ` set (e # ns))" by (auto simp: restrict_map_def fun_eq_iff)
  ultimately show ?case using ih by simp
qed

lemma skip_destroy:
  assumes "skip_rep compare l xs" "length xs < 2 ^ 64"
  shows "\<exists>l'. np_skiplist_destroy l = Some l' \<and> (\<forall>a. sk_mem l' a \<noteq> None \<longleftrightarrow> a = root) \<and> np_skiplist_size l' = 0"
proof -
  let ?m = "sk_mem l"
  obtain H ns where r: "skip_store on_level ?m H ns" "xs = map item_of ns" "sk_num_elements l = of_nat (length ns)"
      "\<forall>a. ?m a \<noteq> None \<longleftrightarrow> a = root \<or> a \<in> fst ` set ns"
    using assms(1) by (auto simp: skip_rep_def)
  have ok: "?m root = Some (root_of on_level H ns)" "chain on_level ?m ns" "\<forall>e \<in> set ns. 0 < height_of e" "distinct (map fst ns)"
      "root \<notin> fst ` set ns" "\<forall>e \<in> set ns. height_of e \<le> H"
    using r(1) by (simp_all add: skip_store_on_level)
  have len: "length ns < 2 ^ 64" using assms(2) r(2) by simp
  have "destroy_nodes ?m (of_nat (length ns)) (Some root) = Some (?m |` (- fst ` set ns))"
  proof (cases ns)
    case Nil
    then show ?thesis by (subst destroy_nodes.simps) (simp add: restrict_map_def)
  next
    case (Cons e rest)
    then have "0 < H" using ok(3,6) by auto
    then have "nodes_at ?m root 0 = Some (succ_at on_level ns 0)" "sn_sentinel (root_of on_level H ns)"
      using ok(1) by (simp_all add: nodes_at_def root_of_def rd_def)
    moreover have "(of_nat (length ns) :: u64) > 0" using len Cons by (simp add: word_less_nat_alt unat_of_nat del: of_nat_Suc)
    ultimately have "destroy_nodes ?m (of_nat (length ns)) (Some root) = destroy_nodes ?m (of_nat (length ns)) (succ_at on_level ns 0)"
      using ok(1) by (subst destroy_nodes.simps) simp
    then show ?thesis using destroy_elements [OF ok(2-4) len] by simp
  qed
  moreover have "(?m |` (- fst ` set ns)) a \<noteq> None \<longleftrightarrow> a = root" for a
    unfolding restrict_map_def using spec [OF r(4), of a] ok(1,5) by (metis Compl_iff option.distinct(1))
  moreover have "(?m |` (- fst ` set ns)) root = Some (root_of on_level H ns)" using ok(1,5) by (simp add: restrict_map_def)
  ultimately show ?thesis using r(3) by (auto simp: np_skiplist_destroy_def np_skiplist_size_def)
qed

section \<open>The skip list refines a sorted list\<close>

text \<open>
  C2: For a comparison that is antisymmetric and transitive - the comparison of dhkeys is one - a skip list is a strictly
  sorted list. The pointers of all levels included, an initialised list represents the empty list;
  \<^verbatim>\<open>np_skiplist_find\<close> returns the first item that is not smaller and whether it is equal;
  \<^verbatim>\<open>np_skiplist_add\<close> refuses an item that is equal to one in the list, and otherwise inserts it at its place,
  whatever the random height; \<^verbatim>\<open>np_skiplist_remove\<close> removes the equal item and tells whether there was one;
  \<^verbatim>\<open>np_skiplist_map\<close> visits the last smaller item - or the root, without an item - and then all items that are not
  smaller until the callback stops; \<^verbatim>\<open>np_skiplist_destroy\<close> frees every node. Every operation returns and reads and
  writes allocated nodes only.
\<close>

theorem skiplist_refines:
  assumes "comparison compare" "skip_rep compare l xs"
  shows "skip_rep compare np_skiplist_init []
    \<and> np_skiplist_size l = of_nat (length xs)
    \<and> np_skiplist_find compare l item =
        Some (case find (\<lambda>x. 0 \<le> compare x item) xs of None \<Rightarrow> (False, Some item) | Some x \<Rightarrow> (compare x item = 0, Some x))
    \<and> (if \<exists>x \<in> set xs. compare x item = 0 then np_skiplist_add compare z l item = Some (False, l)
       else \<exists>l'. np_skiplist_add compare z l item = Some (True, l') \<and> skip_rep compare l' (insert_item compare item xs))
    \<and> (\<exists>l'. np_skiplist_remove compare l item = Some (\<exists>x \<in> set xs. compare x item = 0, l')
        \<and> skip_rep compare l' (filter (\<lambda>x. compare x item \<noteq> 0) xs))
    \<and> np_skiplist_map (\<lambda>x. compare x item) mp l s = (let smaller = takeWhile (\<lambda>x. compare x item < 0) xs in
        Some (visit mp ((if smaller = [] then None else Some (last smaller)) # map Some (dropWhile (\<lambda>x. compare x item < 0) xs)) s))
    \<and> (length xs < 2 ^ 64 \<longrightarrow>
        (\<exists>l'. np_skiplist_destroy l = Some l' \<and> (\<forall>a. sk_mem l' a \<noteq> None \<longleftrightarrow> a = root) \<and> np_skiplist_size l' = 0))"
proof (intro conjI)
  show "np_skiplist_size l = of_nat (length xs)" using assms(2) by (auto simp: skip_rep_def np_skiplist_size_def)
  show "if \<exists>x \<in> set xs. compare x item = 0 then np_skiplist_add compare z l item = Some (False, l)
      else \<exists>l'. np_skiplist_add compare z l item = Some (True, l') \<and> skip_rep compare l' (insert_item compare item xs)"
    using skip_add [OF assms, of item z] by argo
  show "length xs < 2 ^ 64 \<longrightarrow> (\<exists>l'. np_skiplist_destroy l = Some l' \<and> (\<forall>a. sk_mem l' a \<noteq> None \<longleftrightarrow> a = root) \<and> np_skiplist_size l' = 0)"
    using skip_destroy [OF assms(2)] by blast
qed (rule skip_init skip_find [OF assms] skip_remove [OF assms] skip_map [OF assms])+

lemma skiplist_refines_witness:
  "\<exists>l1 l2. np_skiplist_add np_dhkey_cmp 5 np_skiplist_init (Dhkey 7 0 0 0 0 0 0 0) = Some (True, l1)
     \<and> np_skiplist_add np_dhkey_cmp 1 l1 (Dhkey 3 0 0 0 0 0 0 0) = Some (True, l2)
     \<and> skip_rep np_dhkey_cmp l2 [Dhkey 3 0 0 0 0 0 0 0, Dhkey 7 0 0 0 0 0 0 0]
     \<and> np_skiplist_find np_dhkey_cmp l2 (Dhkey 5 0 0 0 0 0 0 0) = Some (False, Some (Dhkey 7 0 0 0 0 0 0 0))
     \<and> (\<exists>l3. np_skiplist_remove np_dhkey_cmp l2 (Dhkey 3 0 0 0 0 0 0 0) = Some (True, l3) \<and> skip_rep np_dhkey_cmp l3 [Dhkey 7 0 0 0 0 0 0 0])"
proof -
  let ?a = "Dhkey 7 0 0 0 0 0 0 0" and ?b = "Dhkey 3 0 0 0 0 0 0 0" and ?c = "Dhkey 5 0 0 0 0 0 0 0"
  have c: "np_dhkey_cmp ?a ?b = 1" "np_dhkey_cmp ?b ?a = - 1" "np_dhkey_cmp ?b ?b = 0" "np_dhkey_cmp ?b ?c = - 1" "np_dhkey_cmp ?a ?c = 1"
    by code_simp+
  note fact = skiplist_refines [OF kc.comparison_axioms, where mp = "\<lambda>_ (n :: nat). (True, n)" and s = 0]
  obtain l1 where l1: "np_skiplist_add np_dhkey_cmp 5 np_skiplist_init ?a = Some (True, l1)" "skip_rep np_dhkey_cmp l1 [?a]"
    using fact [OF skip_init, of ?a 5] by (auto simp: insert_item_def)
  obtain l2 where l2: "np_skiplist_add np_dhkey_cmp 1 l1 ?b = Some (True, l2)" "skip_rep np_dhkey_cmp l2 [?b, ?a]"
    using fact [OF l1(2), of ?b 1] by (auto simp: insert_item_def c)
  show ?thesis using l1(1) l2 fact [OF l2(2), of ?c 0] fact [OF l2(2), of ?b 0] by (auto simp: c)
qed

end
