(* ===== verification/Spec2Isabelle.thy ===== *)
theory Spec2Isabelle
  imports Np_Keysort Np_Sll Np_Jobqueue Np_Route_Walk Np_Bloom_Cells Np_Bloom_Bag Np_Key_Typing Np_Scache Np_Skiplist_Ops
begin

text \<open>
  A verification development of the neuropil messaging library, a C library for decentral messaging in which every
  node, alias, identity and subject is a \<^emph>\<open>key\<close> of 256 bits (\<^verbatim>\<open>src/np_dhkey.c\<close>). A key carries a state machine that
  reacts to events (\<^verbatim>\<open>src/np_key.c\<close>, \<^verbatim>\<open>src/util/np_statemachine.c\<close>); its conditions look at the tokens and message
  parts that come with an event (\<^verbatim>\<open>src/core\<close>, \<^verbatim>\<open>src/np_aaatoken.c\<close>) and ask bloom filters for duplicates
  (\<^verbatim>\<open>src/util/np_bloom.c\<close>). Events come from a job queue of binary heaps (\<^verbatim>\<open>src/np_jobqueue.c\<close>,
  \<^verbatim>\<open>include/util/np_heap.h\<close>). The next hop of a message is found in a routing table with leafsets
  (\<^verbatim>\<open>src/np_route.c\<close>), which sort keys by distance (\<^verbatim>\<open>src/np_keycache.c\<close>). Lists, caches and skip lists
  (\<^verbatim>\<open>include/util/np_list.h\<close>, \<^verbatim>\<open>src/util/np_scache.c\<close>, \<^verbatim>\<open>src/util/np_skiplist.c\<close>) are used throughout.

  \<^bold>\<open>Conventions.\<close> A C structure is a record, an enumeration a datatype, an unsigned integer a word of its width
  (\<open>u8\<close> to \<open>u64\<close>, which wrap around), a double a real number, a character array a list of bytes. A function returns
  its new state; the result \<open>None\<close> is an abort: a failed \<^verbatim>\<open>assert\<close> or \<^verbatim>\<open>ASSERT\<close> (the build defines \<^verbatim>\<open>DEBUG\<close>), a NULL
  pointer that is followed, an access outside of an array, or a loop that does not end. Pointers that may be NULL
  are options, linked structures live in an explicit store of nodes. Random numbers, the clock, the outcome of a
  lock attempt, hash and crypto functions, allocated memory and what callbacks do are arguments.

  \<^bold>\<open>The theories.\<close>

  \<^item> \<open>Np_Prelude\<close>: the machine words, the byte order of a 32 bit value (little endian), and the lemmas on lists, words
    and orders that the components share. \<open>Np_Settings\<close>: constants of \<^verbatim>\<open>include/np_settings.h\<close>. \<open>Np_Bytes\<close>: arrays with
    bounds (\<open>rd\<close>, \<open>wr\<close>) and counting loops whose counter has a width (\<open>loop_w\<close>).
  \<^item> \<open>Np_Dhkey\<close> (\<^verbatim>\<open>src/np_dhkey.c\<close>): arithmetic, comparison and text form of keys. Comparison is that of the numbers,
    the between test is membership in an interval of the ring, the index of two keys is their longest common prefix
    of hexadecimal digits; the locale \<open>prefix_keys\<close> and its interpretation carry what routing needs of this. The
    8 bit hamming distance is 0 for complementary keys.
  \<^item> \<open>Np_Keysort\<close> (\<^verbatim>\<open>src/np_keycache.c\<close>): the closest key and the two sort routines with their nested loops; they
    terminate with a sorted permutation.
  \<^item> \<open>Np_Sll\<close> (\<^verbatim>\<open>include/util/np_list.h\<close>): the macro generated single linked list over a store of nodes refines lists;
    clearing leaves a dangling pointer to the last node.
  \<^item> \<open>Np_Heap\<close> (\<^verbatim>\<open>include/util/np_heap.h\<close>): the array heap. Inserting and draining sorts for every strict weak order;
    removing from inside of the heap can lose the order.
  \<^item> \<open>Np_Jobqueue\<close> (\<^verbatim>\<open>src/np_jobqueue.c\<close>): submission, selection, execution and destruction of jobs over five heaps.
    Selection takes the earliest due job; the references to user data are accounted for, where callbacks and event
    handlers are lists of steps on the queue and on reference counts; a worker can run an empty job.
  \<^item> \<open>Np_Leafset\<close>, \<open>Np_Route\<close>, \<open>Np_Route_Walk\<close> (\<^verbatim>\<open>src/np_route.c\<close>): the leafsets and the table with their reference
    counts and counters. Joining, leaving and clearing keep the invariants \<open>leaf_inv\<close> and \<open>table_inv\<close>; a lookup
    returns at most one hop, which comes closer to the target when it is taken from the slot of the key; the walk
    over neighbours ends inside of the table. A key can be entered twice.
  \<^item> \<open>Np_Pcg\<close> (\<^verbatim>\<open>src/util/np_pcg_rng.c\<close>): the random numbers of the stable filter.
  \<^item> \<open>Np_Bloom\<close>, \<open>Np_Bloom_Neuropil\<close> (\<^verbatim>\<open>src/util/np_bloom.c\<close>): all filters but the enhanced one. \<open>Np_Bloom_Bits\<close>: the
    standard filter refines a set of bit positions, and the locale \<open>bloom_filter\<close>, interpreted for four filters,
    gives that what was added is found. \<open>Np_Bloom_Cells\<close>: lifetime in a decaying filter, adding and removing in a
    counting filter. \<open>Np_Bloom_Bag\<close>: the neuropil filter refines a multiset of keys with an age for each cell
    (\<open>rep_aged\<close>); similarity, age of an intersection and compression are given by counts and ages.
  \<^item> \<open>Np_Statemachine\<close> (\<^verbatim>\<open>src/util/np_statemachine.c\<close>): tables of states and transitions. The locale \<open>typed_machine\<close> asks
    that the table is well formed and that conditions leave the state alone; actions may fail and move the machine.
  \<^item> \<open>Np_Aaatoken\<close> (\<^verbatim>\<open>src/np_aaatoken.c\<close>): tokens from creation to the check on another node; a signed token arrives
    with its content and is valid until it expires.
  \<^item> \<open>Np_Key_Events\<close> (the conditions in \<^verbatim>\<open>src/core/np_comp_*.c\<close>), \<open>Np_Key\<close> (\<^verbatim>\<open>src/np_key.c\<close>: the table of
    \<^verbatim>\<open>__np_key_populate_states\<close>, block by block, and \<^verbatim>\<open>_np_key_handle_event\<close>), \<open>Np_Key_Life\<close>, \<open>Np_Key_Typing\<close>. The table
    built by the modelled functions is well formed; a key stays of its kind until it is destroyed, also when actions
    hand events to their own key (\<open>key_run\<close>); a message part on an alias reaches exactly one handler; on keys and
    events that are typed (\<open>key_typed\<close>, \<open>event_typed\<close>) no condition fails, while a LEAVE message with a token of
    another type stops the process; the key of a node that has left is never destroyed.
  \<^item> \<open>Np_Scache\<close> (\<^verbatim>\<open>src/util/np_scache.c\<close>): the cache refines a map in which the first value of a key stays.
    \<open>Np_Skiplist\<close>, \<open>Np_Skiplist_Ops\<close> (\<^verbatim>\<open>src/util/np_skiplist.c\<close>): the skip list with all its levels refines a strictly
    sorted list, for all random heights.

  \<^bold>\<open>Bounds and termination.\<close> Loops over a list or a range of indices are structural recursions or functions with a
  measure (sorting, growing of a filter, sifting up in the heap). Loops whose end depends on pointers or on a counter
  that may wrap are partial functions, for which not ending is the value \<open>None\<close>: walks along linked nodes, sifting down,
  the walk over neighbours, \<open>loop_w\<close>, the rejection loop of the random numbers. The theorems about them state that
  they return. No fuel is used. Theorems state the limits that the types of the code impose: heaps below 32768
  elements, at most 64 keys in a neuropil filter, filters within their 8 and 16 bit counters.

  \<^bold>\<open>Not modelled.\<close> Network, threads and locks, memory allocation, logs, clocks and statistics are operating system
  services. Serialisation, trees and the attribute blocks of tokens rest on a CBOR library and are parameters of the
  token functions. The actions of keys other than the one that hands a shutdown to its own key, the message handlers
  behind them, the pheromone table, the search framework and the programs on top of the library are left out; so are
  the enhanced bloom filter, the exchange of the own key in the routing table and the idle worker list.
\<close>

end
